(* ===== verification/Prelude.thy ===== *)
theory Prelude
  imports Main "HOL-Library.Word"
begin

text \<open>
  Shared vocabulary of the development: the fixed-width integer types of the C++ sources, byte
  strings, the two fact collections the component theories feed and use, and the generic lemmas
  on lists and words that several components need.
\<close>

unbundle bit_operations_syntax

section \<open>Types\<close>

type_synonym u4 = "4 word"
type_synonym u8 = "8 word"
type_synonym u16 = "16 word"
type_synonym u32 = "32 word"

text \<open>A \<open>std::vector<uint8_t>\<close> is a list of bytes.\<close>

type_synonym bytes = "u8 list"

text \<open>The byte of a character.\<close>

definition u8_of :: "char \<Rightarrow> u8" where "u8_of c = of_nat (of_char c)"

text \<open>The 7-bit characters.  A plain \<open>char\<close> is signed on the targets of the project; the others are negative there.\<close>

abbreviation ascii :: "char \<Rightarrow> bool" where
  "ascii c \<equiv> of_char c < (128 :: nat)"

section \<open>Fact collections\<close>

named_theorems frame_simps \<open>fields an operation leaves alone\<close>
named_theorems layout_simps \<open>sizes and byte layouts of the packed structures\<close>

section \<open>Searching a list\<close>

text \<open>
  \<open>std::string::find\<close> and \<open>find_first_of\<close> return the index of the first match or \<open>npos\<close>, which
  is \<^const>\<open>None\<close> here.
\<close>

fun find_index :: "('a \<Rightarrow> bool) \<Rightarrow> 'a list \<Rightarrow> nat option" where
  "find_index P [] = None"
| "find_index P (x # xs) = (if P x then Some 0 else map_option Suc (find_index P xs))"

lemma find_index_None [simp]: "find_index P xs = None \<longleftrightarrow> (\<forall>x \<in> set xs. \<not> P x)"
  by (induction xs) auto

lemma find_index_SomeD:
  "find_index P xs = Some i \<Longrightarrow> i < length xs \<and> P (xs ! i) \<and> (\<forall>x \<in> set (take i xs). \<not> P x)"
proof (induction xs arbitrary: i)
  case (Cons x xs)
  then show ?case by (cases i) (auto split: if_splits)
qed simp

lemma find_index_append_Some: "find_index P xs = Some i \<Longrightarrow> find_index P (xs @ ys) = Some i"
  by (induction xs arbitrary: i) (auto split: if_splits)

lemma find_index_skip:
  "\<forall>x \<in> set xs. \<not> P x \<Longrightarrow> P y \<Longrightarrow> find_index P (xs @ y # ys) = Some (length xs)"
  by (induction xs) auto

section \<open>Lists cut at an index\<close>

lemma take_nth_drop: "i < length xs \<Longrightarrow> take i xs @ xs ! i # drop (Suc i) xs = xs"
  by (metis id_take_nth_drop)

lemma drop_two: "i + 1 < length xs \<Longrightarrow> drop i xs = xs ! i # xs ! (i + 1) # drop (i + 2) xs"
  by (simp add: Cons_nth_drop_Suc)

section \<open>Little-endian memory\<close>

text \<open>
  The sources store \<open>uint16_t\<close> and \<open>uint32_t\<close> fields in structures and copy the structures as
  bytes.  The host is little-endian, as the x86 targets of the project files are, and \<open>htons\<close> and
  \<open>htonl\<close> swap bytes there.
\<close>

definition le16 :: "u16 \<Rightarrow> bytes" where
  "le16 w = [ucast w, ucast (drop_bit 8 w)]"

definition le32 :: "u32 \<Rightarrow> bytes" where
  "le32 w = [ucast w, ucast (drop_bit 8 w), ucast (drop_bit 16 w), ucast (drop_bit 24 w)]"

definition of_le16 :: "u8 \<Rightarrow> u8 \<Rightarrow> u16" where
  "of_le16 a b = ucast a OR push_bit 8 (ucast b)"

definition of_le32 :: "u8 \<Rightarrow> u8 \<Rightarrow> u8 \<Rightarrow> u8 \<Rightarrow> u32" where
  "of_le32 a b c d =
     ucast a OR push_bit 8 (ucast b) OR push_bit 16 (ucast c) OR push_bit 24 (ucast d)"

definition htons :: "u16 \<Rightarrow> u16" where
  "htons w = push_bit 8 w OR drop_bit 8 w"

definition htonl :: "u32 \<Rightarrow> u32" where
  "htonl w = push_bit 24 w OR push_bit 8 (w AND 0xFF00) OR drop_bit 8 (w AND 0xFF0000) OR
             drop_bit 24 w"

lemma length_le [layout_simps, simp]: "length (le16 w) = 2" "length (le32 v) = 4"
  by (simp_all add: le16_def le32_def)

lemma of_le16_le16 [simp]: "of_le16 (ucast w) (ucast (drop_bit 8 w)) = w"
  by (rule bit_eqI)
    (auto simp: of_le16_def bit_or_iff bit_push_bit_iff bit_ucast_iff bit_drop_bit_eq)

lemma of_le32_le32 [simp]:
  "of_le32 (ucast w) (ucast (drop_bit 8 w)) (ucast (drop_bit 16 w)) (ucast (drop_bit 24 w)) = w"
  (is "?l = w")
proof (rule bit_eqI)
  fix n
  assume n: "possible_bit TYPE(32 word) n"
  consider "n < 16" | "16 \<le> n" "n < 24" | "24 \<le> n" by linarith
  then show "bit ?l n \<longleftrightarrow> bit w n"
    using n by cases
      (auto simp: of_le32_def bit_or_iff bit_push_bit_iff bit_ucast_iff bit_drop_bit_eq)
qed

lemma htons_htons [simp]: "htons (htons w) = w"
  by (rule bit_eqI)
    (auto simp: htons_def bit_or_iff bit_push_bit_iff bit_drop_bit_eq)

lemma htonl_masks: "(0xFF00 :: u32) = push_bit 8 (mask 8)" "(0xFF0000 :: u32) = push_bit 16 (mask 8)"
  by (simp_all add: mask_eq_exp_minus_1 push_bit_eq_mult)

lemma bit_htonl:
  "bit (htonl w) n \<longleftrightarrow>
     (if n < 8 then bit w (n + 24) else if n < 16 then bit w (n + 8)
      else if n < 24 then bit w (n - 8) else n < 32 \<and> bit w (n - 24))"
  using bit_imp_le_length [of w]
  by (force simp: htonl_def htonl_masks bit_or_iff bit_and_iff bit_push_bit_iff bit_drop_bit_eq bit_mask_iff add.commute)

lemma htonl_htonl [simp]: "htonl (htonl w) = w"
  by (rule bit_eqI) (auto simp: bit_htonl)

end
