(* ===== verification/Hd_msg.thy ===== *)
theory Hd_msg
  imports Prelude
begin

text \<open>
  The ISO 1745 messages of \<^verbatim>\<open>halfduplex/Half_duplex.cpp\<close>: the message and state types, the printers
  \<open>to_string\<close>, the scanner \<open>parse_input\<close> and the checksum \<open>compute_cksum\<close>.

  A \<open>std::string\<close> is a \<^typ>\<open>string\<close>.  The field \<open>bcc\<close> of \<open>Msg\<close> is never written or read and has no
  counterpart.  The scanner does not return, \<^const>\<open>None\<close>, when it calls \<open>abort()\<close> or meets undefined behaviour.
\<close>

section \<open>Characters and limits\<close>

definition MAX_PREFIX_LEN :: nat where "MAX_PREFIX_LEN = 15"
definition MAX_MESSAGE_LEN :: nat where "MAX_MESSAGE_LEN = 1550"
definition MAX_ENQ_TRIES :: nat where "MAX_ENQ_TRIES = 20"
definition MAX_INFO_TRIES :: nat where "MAX_INFO_TRIES = 20"

definition SOH :: char where "SOH = CHR 0x01"
definition STX :: char where "STX = CHR 0x02"
definition ETX :: char where "ETX = CHR 0x03"
definition EOT :: char where "EOT = CHR 0x04"
definition ENQ :: char where "ENQ = CHR 0x05"
definition ACK :: char where "ACK = CHR 0x06"
definition DLE :: char where "DLE = CHR 0x10"
definition NAK :: char where "NAK = CHR 0x15"

lemmas control_chars = SOH_def STX_def ETX_def EOT_def ENQ_def ACK_def DLE_def NAK_def

definition MSG_START_CHARACTERS :: string where
  "MSG_START_CHARACTERS =
     [CHR 0x01, CHR 0x02, CHR 0x04, CHR 0x05, CHR 0x06, CHR 0x10, CHR 0x15]"

text \<open>\<open>isgraph\<close> of the C locale, on the values of an \<open>unsigned char\<close>.  The scanner passes it plain characters, which are
  signed on the targets of the project: for those from \<open>0x80\<close> on the call is undefined.  \<open>all_of\<close> stops at
  the first character that is not graphical.\<close>

definition isgraph :: "char \<Rightarrow> bool" where
  "isgraph c \<longleftrightarrow> 33 \<le> (of_char c :: nat) \<and> of_char c \<le> (126 :: nat)"

definition isgraph_char :: "char \<Rightarrow> bool option" where
  "isgraph_char c = (if ascii c then Some (isgraph c) else None)"

fun all_isgraph :: "string \<Rightarrow> bool option" where
  "all_isgraph [] = Some True"
| "all_isgraph (c # s) =
     (case isgraph_char c of None \<Rightarrow> None | Some False \<Rightarrow> Some False | Some True \<Rightarrow> all_isgraph s)"

section \<open>Types\<close>

datatype State =
    NEUTRAL
  | POLL_TRANSMIT
  | MASTER_SELECT_TRANSMIT
  | MASTER_SELECT_ACK_RECEIVE
  | MASTER_INFO_TRANSMIT
  | MASTER_INFO_ACK_RECEIVE
  | SLAVE_SELECT_RECEIVE
  | SLAVE_SELECT_ACK_TRANSMIT
  | SLAVE_INFO_RECEIVE
  | SLAVE_INFO_ACK_TRANSMIT

datatype Msg_type =
    MT_NONE
  | MT_ACK
  | MT_NAK
  | MT_EOT
  | MT_DLE_EOT
  | MT_ENQ
  | MT_INFO
  | MT_MALFORMED

record Msg =
  m_type :: Msg_type
  m_prefix :: string
  m_header :: string
  m_body :: string

abbreviation plain_msg :: "Msg_type \<Rightarrow> string \<Rightarrow> Msg" where
  "plain_msg t p \<equiv> \<lparr>m_type = t, m_prefix = p, m_header = [], m_body = []\<rparr>"

abbreviation info_msg :: "string \<Rightarrow> string \<Rightarrow> Msg" where
  "info_msg h b \<equiv> \<lparr>m_type = MT_INFO, m_prefix = [], m_header = h, m_body = b\<rparr>"

section \<open>Printing\<close>

fun to_string_State :: "State \<Rightarrow> string" where
  "to_string_State NEUTRAL = ''NEUTRAL''"
| "to_string_State POLL_TRANSMIT = ''POLL_TRANSMIT''"
| "to_string_State MASTER_SELECT_TRANSMIT = ''MASTER_SELECT_TRANSMIT''"
| "to_string_State MASTER_SELECT_ACK_RECEIVE = ''MASTER_SELECT_ACK_RECEIVE''"
| "to_string_State MASTER_INFO_TRANSMIT = ''MASTER_INFO_TRANSMIT''"
| "to_string_State MASTER_INFO_ACK_RECEIVE = ''MASTER_INFO_ACK_RECEIVE''"
| "to_string_State SLAVE_SELECT_RECEIVE = ''SLAVE_SELECT_RECEIVE''"
| "to_string_State SLAVE_SELECT_ACK_TRANSMIT = ''SLAVE_SELECT_ACK_TRANSMIT''"
| "to_string_State SLAVE_INFO_RECEIVE = ''SLAVE_INFO_RECEIVE''"
| "to_string_State SLAVE_INFO_ACK_TRANSMIT = ''SLAVE_INFO_ACK_TRANSMIT''"

fun to_string_Msg_type :: "Msg_type \<Rightarrow> string" where
  "to_string_Msg_type MT_NONE = ''NONE''"
| "to_string_Msg_type MT_ACK = ''ACK''"
| "to_string_Msg_type MT_NAK = ''NAK''"
| "to_string_Msg_type MT_EOT = ''EOT''"
| "to_string_Msg_type MT_DLE_EOT = ''DLE_EOT''"
| "to_string_Msg_type MT_ENQ = ''ENQ''"
| "to_string_Msg_type MT_INFO = ''INFO''"
| "to_string_Msg_type MT_MALFORMED = ''MALFORMED''"

text \<open>The block-check character of the bytes it covers: the loop over \<open>uint8_t\<close> values.\<close>

fun bcc_sum :: "string \<Rightarrow> u32 \<Rightarrow> u32" where
  "bcc_sum [] s = s"
| "bcc_sum (x # xs) s = bcc_sum xs (s + of_nat (of_char x))"

definition bcc_char :: "u32 \<Rightarrow> char" where
  "bcc_char s = char_of (unat (((s AND 0xFF) + 1) AND 0xFF))"

definition to_string_Msg :: "Msg \<Rightarrow> string option" where
  "to_string_Msg m =
     (let out = (if m_prefix m \<noteq> [] then m_prefix m else [])
      in case m_type m of
           MT_ACK \<Rightarrow> Some (out @ [ACK])
         | MT_NAK \<Rightarrow> Some (out @ [NAK])
         | MT_EOT \<Rightarrow> Some (out @ [EOT])
         | MT_ENQ \<Rightarrow> Some (out @ [ENQ])
         | MT_DLE_EOT \<Rightarrow> Some (out @ [DLE] @ [EOT])
         | MT_INFO \<Rightarrow>
             (let (out1, bcc_start_pos) =
                    (if m_header m \<noteq> [] then
                       (let o1 = out @ [SOH] in (o1 @ m_header m @ [STX], length o1))
                     else (let o1 = out @ [STX] in (o1, length o1)));
                  out2 = (if m_body m \<noteq> [] then out1 @ m_body m else out1);
                  out3 = out2 @ [ETX]
              in Some (out3 @ [bcc_char (bcc_sum (drop bcc_start_pos out3) 0)]))
         | _ \<Rightarrow> None)"

section \<open>Scanning\<close>

text \<open>
  The tail of \<open>parse_input\<close>, from the test that only information messages remain: \<open>msg\<close> holds the
  prefix, \<open>pos_intro\<close> is the index of the introducer.  The comparison of the checksum is compiled
  out in the source.
\<close>

definition parse_info :: "Msg \<Rightarrow> nat \<Rightarrow> string \<Rightarrow> (Msg \<times> string) option" where
  "parse_info msg pos_intro buf =
     (let introducer = buf ! pos_intro
      in if introducer \<noteq> SOH \<and> introducer \<noteq> STX then None
         else if m_prefix msg \<noteq> [] then Some (msg\<lparr>m_type := MT_MALFORMED\<rparr>, [])
         else
           (let pos_stx = (if introducer = STX then Some pos_intro
                           else find_index (\<lambda>c. c = STX) buf)
            in case find_index (\<lambda>c. c = ETX) buf of
                 None \<Rightarrow>
                   (if length buf > MAX_MESSAGE_LEN then Some (msg\<lparr>m_type := MT_MALFORMED\<rparr>, [])
                    else Some (msg, buf))
               | Some pos_etx \<Rightarrow>
                   (case pos_stx of
                      None \<Rightarrow> Some (msg\<lparr>m_type := MT_MALFORMED\<rparr>, [])
                    | Some stx \<Rightarrow>
                        (if stx > pos_etx then Some (msg\<lparr>m_type := MT_MALFORMED\<rparr>, [])
                         else if length buf = pos_etx + 1 then Some (msg, buf)
                         else if pos_etx > MAX_MESSAGE_LEN
                         then Some (msg\<lparr>m_type := MT_MALFORMED\<rparr>, [])
                         else
                           (let header = (if stx > pos_intro then take (stx - 1) (drop 1 buf)
                                          else m_header msg);
                                body = take (pos_etx - (stx + 1)) (drop (stx + 1) buf)
                            in Some (msg\<lparr>m_type := MT_INFO, m_header := header, m_body := body\<rparr>,
                                     drop (pos_etx + 2) buf))))))"

text \<open>
  \<open>parse_input\<close> on the contents of \<open>input_unprocessed_\<close>: the message and what is left in the
  buffer.
\<close>

definition parse_input :: "string \<Rightarrow> (Msg \<times> string) option" where
  "parse_input buf =
     (let msg = plain_msg MT_NONE []
      in if buf = [] then Some (msg, buf)
         else case find_index (\<lambda>c. c \<in> set MSG_START_CHARACTERS) buf of
           None \<Rightarrow>
             (if length buf > MAX_PREFIX_LEN then Some (msg\<lparr>m_type := MT_MALFORMED\<rparr>, [])
              else Some (msg, buf))
         | Some pos_intro \<Rightarrow>
             (case all_isgraph (take pos_intro buf) of
                None \<Rightarrow> None
              | Some False \<Rightarrow> Some (msg\<lparr>m_type := MT_MALFORMED\<rparr>, [])
              | Some True \<Rightarrow>
                (let msg = msg\<lparr>m_prefix := take pos_intro buf\<rparr>;
                     introducer = buf ! pos_intro
                 in if introducer = ENQ then
                      Some (msg\<lparr>m_type := MT_ENQ\<rparr>, drop (pos_intro + 1) buf)
                    else if introducer = EOT then
                      Some (msg\<lparr>m_type := MT_EOT\<rparr>, drop (pos_intro + 1) buf)
                    else if introducer = ACK then
                      Some (msg\<lparr>m_type := MT_ACK\<rparr>, drop (pos_intro + 1) buf)
                    else if introducer = NAK then
                      Some (msg\<lparr>m_type := MT_NAK\<rparr>, drop (pos_intro + 1) buf)
                    else parse_info msg pos_intro buf)))"

text \<open>Whether it was undefined behaviour that the scanner met.\<close>

definition parse_undefined :: "string \<Rightarrow> bool" where
  "parse_undefined buf \<longleftrightarrow>
     (case find_index (\<lambda>c. c \<in> set MSG_START_CHARACTERS) buf of
        None \<Rightarrow> False
      | Some pos_intro \<Rightarrow> all_isgraph (take pos_intro buf) = None)"

text \<open>
  \<open>compute_cksum\<close> takes \<open>substr(begin, end)\<close>, whose second argument is a length, and sums signed
  characters.  \<open>substr\<close> throws when \<open>begin\<close> is past the end: \<^const>\<open>None\<close>.
\<close>

fun signed_sum :: "string \<Rightarrow> u32 \<Rightarrow> u32" where
  "signed_sum [] s = s"
| "signed_sum (x # xs) s = signed_sum xs (s + scast (of_nat (of_char x) :: u8))"

definition compute_cksum :: "string \<Rightarrow> nat \<Rightarrow> nat \<Rightarrow> u8 option" where
  "compute_cksum input_unprocessed bgn en =
     (if bgn > length input_unprocessed then None
      else Some (ucast (((signed_sum (take en (drop bgn input_unprocessed)) 0 AND 0xFF) + 1)
                        AND 0xFF)))"

section \<open>Lemmas on the scanner\<close>

lemma control_chars_distinct [simp]:
  "SOH \<noteq> STX" "SOH \<noteq> ETX" "SOH \<noteq> EOT" "SOH \<noteq> ENQ" "SOH \<noteq> ACK" "SOH \<noteq> NAK" "SOH \<noteq> DLE"
  "STX \<noteq> SOH" "STX \<noteq> ETX" "STX \<noteq> EOT" "STX \<noteq> ENQ" "STX \<noteq> ACK" "STX \<noteq> NAK" "STX \<noteq> DLE"
  "ETX \<noteq> SOH" "ETX \<noteq> STX" "EOT \<noteq> ENQ" "ACK \<noteq> ENQ" "ACK \<noteq> EOT" "NAK \<noteq> ENQ" "NAK \<noteq> EOT"
  "NAK \<noteq> ACK" "DLE \<noteq> ENQ" "DLE \<noteq> EOT" "DLE \<noteq> ACK" "DLE \<noteq> NAK" "DLE \<noteq> SOH" "DLE \<noteq> STX"
  by (simp_all add: control_chars)

lemma start_chars [simp]: "set MSG_START_CHARACTERS = {SOH, STX, EOT, ENQ, ACK, DLE, NAK}"
  by (auto simp: MSG_START_CHARACTERS_def control_chars)

lemma isgraph_no_start: "isgraph c \<Longrightarrow> c \<notin> {SOH, STX, EOT, ENQ, ACK, DLE, NAK}"
  by (auto simp: isgraph_def control_chars)

lemma all_isgraph_True: "all_isgraph p = Some True \<longleftrightarrow> list_all isgraph p"
  by (induction p) (auto simp: isgraph_char_def isgraph_def split: bool.split)

lemma all_isgraph_graphic [simp]: "list_all isgraph p \<Longrightarrow> all_isgraph p = Some True"
  by (simp add: all_isgraph_True)

lemma all_isgraph_ascii: "list_all ascii p \<Longrightarrow> all_isgraph p \<noteq> None"
  by (induction p) (auto simp: isgraph_char_def split: bool.split)

lemma all_isgraph_None: "all_isgraph p = None \<longleftrightarrow> (\<exists>q c r. p = q @ c # r \<and> list_all isgraph q \<and> \<not> ascii c)"
proof (induction p)
  case (Cons d p)
  have "all_isgraph (d # p) = None \<longleftrightarrow> \<not> ascii d \<or> isgraph d \<and> all_isgraph p = None"
    by (auto simp: isgraph_char_def isgraph_def split: bool.split)
  also have "\<dots> \<longleftrightarrow> (\<exists>q c r. d # p = q @ c # r \<and> list_all isgraph q \<and> \<not> ascii c)"
  proof
    assume "\<not> ascii d \<or> isgraph d \<and> all_isgraph p = None"
    then consider "\<not> ascii d" | q c r where "isgraph d" "p = q @ c # r" "list_all isgraph q" "\<not> ascii c" using Cons.IH by blast
    then show "\<exists>q c r. d # p = q @ c # r \<and> list_all isgraph q \<and> \<not> ascii c"
    proof cases
      case 1
      then show ?thesis by (intro exI [of _ "[]"]) simp
    next
      case (2 q c r)
      then show ?thesis by (intro exI [of _ "d # q"] exI [of _ c] exI [of _ r]) simp
    qed
  next
    assume "\<exists>q c r. d # p = q @ c # r \<and> list_all isgraph q \<and> \<not> ascii c"
    then obtain q c r where q: "d # p = q @ c # r" "list_all isgraph q" "\<not> ascii c" by blast
    then show "\<not> ascii d \<or> isgraph d \<and> all_isgraph p = None" using Cons.IH by (cases q) auto
  qed
  finally show ?case .
qed simp

lemma find_start:
  "list_all isgraph p \<Longrightarrow> c \<in> {SOH, STX, EOT, ENQ, ACK, DLE, NAK} \<Longrightarrow>
   find_index (\<lambda>c. c \<in> set MSG_START_CHARACTERS) (p @ c # rest) = Some (length p)"
  using isgraph_no_start by (intro find_index_skip) (auto simp: list_all_iff)

text \<open>Every message but \<open>NONE\<close> takes bytes out of the buffer; \<open>NONE\<close> leaves it as it is.\<close>

lemma parse_info_result:
  assumes "parse_info msg pos_intro buf = Some (m, buf')" "buf \<noteq> []" "m_type msg = MT_NONE"
  shows "if m_type m = MT_NONE then buf' = buf else length buf' < length buf"
    and "m_type m \<in> {MT_NONE, MT_INFO, MT_MALFORMED}"
  using assms unfolding parse_info_def Let_def
  by (simp_all split: if_split_asm option.split_asm) auto

lemma parse_input_consumes:
  assumes "parse_input buf = Some (m, buf')"
  shows "if m_type m = MT_NONE then buf' = buf else length buf' < length buf"
  using assms parse_info_result(1) [of _ _ buf m buf'] unfolding parse_input_def Let_def
  by (simp split: if_split_asm option.split_asm bool.split_asm) auto

lemma parse_input_no_DLE_EOT:
  assumes "parse_input buf = Some (m, buf')"
  shows "m_type m \<noteq> MT_DLE_EOT"
proof -
  have "m_type m \<noteq> MT_DLE_EOT"
    if "parse_info (plain_msg MT_NONE p) pos buf = Some (m, buf')" "buf \<noteq> []" for p pos
    using parse_info_result(2) [OF that] by auto
  then show ?thesis
    using assms unfolding parse_input_def Let_def
    by (simp split: if_split_asm option.split_asm bool.split_asm) auto
qed

lemma parse_input_Nil [simp]: "parse_input [] = Some (plain_msg MT_NONE [], [])"
  by (simp add: parse_input_def)

lemma parse_simple [simp]:
  assumes "list_all isgraph p"
  shows "parse_input (p @ ENQ # rest) = Some (plain_msg MT_ENQ p, rest)"
    "parse_input (p @ EOT # rest) = Some (plain_msg MT_EOT p, rest)"
    "parse_input (p @ ACK # rest) = Some (plain_msg MT_ACK p, rest)"
    "parse_input (p @ NAK # rest) = Some (plain_msg MT_NAK p, rest)"
  using assms by (simp_all add: parse_input_def Let_def find_start del: start_chars)

lemma parse_DLE: "list_all isgraph p \<Longrightarrow> parse_input (p @ DLE # rest) = None"
  by (simp add: parse_input_def parse_info_def Let_def find_start del: start_chars)

lemma find_intro [simp]:
  "find_index (\<lambda>c. c \<in> set MSG_START_CHARACTERS) (SOH # xs) = Some 0"
  "find_index (\<lambda>c. c \<in> set MSG_START_CHARACTERS) (STX # xs) = Some 0"
  by simp_all

lemma parse_info_soh:
  assumes "STX \<notin> set h" "ETX \<notin> set h" "ETX \<notin> set b" "2 + length h + length b \<le> MAX_MESSAGE_LEN"
  shows "parse_input (SOH # h @ STX # b @ ETX # c # rest) = Some (info_msg h b, rest)"
proof -
  let ?buf = "SOH # h @ STX # b @ ETX # c # rest"
  have "find_index (\<lambda>c. c = STX) ?buf = Some (1 + length h)"
    using find_index_skip [of "SOH # h" "\<lambda>c. c = STX" STX "b @ ETX # c # rest"] assms(1) by auto
  moreover have "find_index (\<lambda>c. c = ETX) ?buf = Some (2 + length h + length b)"
    using find_index_skip [of "SOH # h @ STX # b" "\<lambda>c. c = ETX" ETX "c # rest"] assms(2,3) by auto
  ultimately show ?thesis
    using assms(4)
    by (simp add: parse_input_def parse_info_def Let_def numeral_eq_Suc del: find_index.simps start_chars)
qed

lemma parse_info_stx:
  assumes "ETX \<notin> set b" "1 + length b \<le> MAX_MESSAGE_LEN"
  shows "parse_input (STX # b @ ETX # c # rest) = Some (info_msg [] b, rest)"
proof -
  have "find_index (\<lambda>c. c = ETX) (STX # b @ ETX # c # rest) = Some (1 + length b)"
    using find_index_skip [of "STX # b" "\<lambda>c. c = ETX" ETX "c # rest"] assms(1) by auto
  then show ?thesis
    using assms(2)
    by (simp add: parse_input_def parse_info_def Let_def numeral_eq_Suc del: find_index.simps start_chars)
qed

section \<open>Messages survive printing and scanning\<close>

text \<open>The messages the printer and the scanner agree on.\<close>

definition wf_msg :: "Msg \<Rightarrow> bool" where
  "wf_msg m \<longleftrightarrow>
     (case m_type m of
        MT_INFO \<Rightarrow>
          m_prefix m = [] \<and> STX \<notin> set (m_header m) \<and> ETX \<notin> set (m_header m) \<and>
          ETX \<notin> set (m_body m) \<and> 2 + length (m_header m) + length (m_body m) \<le> MAX_MESSAGE_LEN
      | t \<Rightarrow> t \<in> {MT_ACK, MT_NAK, MT_EOT, MT_ENQ} \<and> list_all isgraph (m_prefix m) \<and>
            m_header m = [] \<and> m_body m = [])"

lemma to_string_simple [simp]:
  "to_string_Msg (plain_msg MT_ACK p) = Some (p @ [ACK])"
  "to_string_Msg (plain_msg MT_NAK p) = Some (p @ [NAK])"
  "to_string_Msg (plain_msg MT_EOT p) = Some (p @ [EOT])"
  "to_string_Msg (plain_msg MT_ENQ p) = Some (p @ [ENQ])"
  by (simp_all add: to_string_Msg_def)

text \<open>The frame of an information message, without its block-check character.\<close>

definition info_frame :: "string \<Rightarrow> string \<Rightarrow> string" where
  "info_frame h b = (if h \<noteq> [] then SOH # h @ STX # b else STX # b)"

lemma to_string_info:
  "to_string_Msg (info_msg h b) =
     Some (info_frame h b @ [ETX, bcc_char (bcc_sum (tl (info_frame h b) @ [ETX]) 0)])"
  by (simp add: to_string_Msg_def info_frame_def)

lemma wf_msg_cases [consumes 1, case_names simple info]:
  assumes "wf_msg m"
  obtains t p where "m = plain_msg t p" "t \<in> {MT_ACK, MT_NAK, MT_EOT, MT_ENQ}" "list_all isgraph p"
  | h b where "m = info_msg h b" "STX \<notin> set h" "ETX \<notin> set h" "ETX \<notin> set b"
      "2 + length h + length b \<le> MAX_MESSAGE_LEN"
  using assms by (cases m) (auto simp: wf_msg_def split: Msg_type.split_asm)

lemma to_string_total: "wf_msg m \<Longrightarrow> \<exists>enc. to_string_Msg m = Some enc"
  by (cases rule: wf_msg_cases) (auto simp: to_string_info)

lemma parse_info_frame:
  assumes "STX \<notin> set h" "ETX \<notin> set h" "ETX \<notin> set b" "2 + length h + length b \<le> MAX_MESSAGE_LEN"
  shows "parse_input (info_frame h b @ ETX # c # rest) = Some (info_msg h b, rest)"
  using parse_info_soh [OF assms] parse_info_stx [OF assms(3)] assms(4)
  by (simp add: info_frame_def)

lemma parse_wf:
  assumes "wf_msg m" "to_string_Msg m = Some enc"
  shows "parse_input (enc @ rest) = Some (m, rest)"
  using assms(1)
proof (cases rule: wf_msg_cases)
  case (simple t p)
  with assms(2) show ?thesis by auto
next
  case (info h b)
  with assms(2) show ?thesis by (auto simp: to_string_info parse_info_frame)
qed

text \<open>A text with an ETX in it is cut there, and the rest is left to be taken for the next message.\<close>

lemma etx_cuts_text:
  assumes "ETX \<notin> set x" "1 + length x \<le> MAX_MESSAGE_LEN" "to_string_Msg (info_msg [] (x @ ETX # y)) = Some enc"
  shows "\<exists>rest. rest \<noteq> [] \<and> parse_input enc = Some (info_msg [] x, rest)"
proof -
  obtain c where "enc = STX # x @ ETX # y @ [ETX, c]" using assms(3) by (auto simp: to_string_info info_frame_def)
  moreover obtain d rest where "y @ [ETX, c] = d # rest" "rest \<noteq> []" by (cases y) auto
  ultimately show ?thesis using parse_info_stx [OF assms(1,2), of d rest] by auto
qed

text \<open>C15: A well-formed message survives the wire whatever follows it: scanning its printed form gives
  the message back and leaves exactly the bytes behind it in the buffer.  Well-formed are acknowledgements,
  rejections, enquiries and ends of transmission with a prefix of at most fifteen graphical characters, and information
  messages without prefix whose header holds no STX and no ETX, whose text holds no ETX, and which together are
  at most 1548 characters long.\<close>

theorem hd_msg_roundtrip:
  assumes "wf_msg m" "length (m_prefix m) \<le> MAX_PREFIX_LEN" "to_string_Msg m = Some enc"
  shows "parse_input (enc @ rest) = Some (m, rest)"
  using assms(1,3) by (rule parse_wf)

theorem hd_msg_roundtrip_witness:
  "parse_input ((''A'' @ []) @ [ENQ]) = Some (plain_msg MT_ENQ ''A'', [])
   \<and> parse_input ([SOH, CHR ''h'', STX, CHR ''b'', ETX, CHR 0xD0] @ [EOT]) = Some (info_msg ''h'' ''b'', [EOT])"
proof -
  have "wf_msg (plain_msg MT_ENQ ''A'')" "to_string_Msg (plain_msg MT_ENQ ''A'') = Some (''A'' @ [ENQ])"
    by (simp_all add: wf_msg_def isgraph_def)
  moreover have "wf_msg (info_msg ''h'' ''b'')"
    by (simp add: wf_msg_def control_chars MAX_MESSAGE_LEN_def)
  moreover have "to_string_Msg (info_msg ''h'' ''b'') = Some [SOH, CHR ''h'', STX, CHR ''b'', ETX, CHR 0xD0]"
    by code_simp
  ultimately show ?thesis
    using hd_msg_roundtrip [of "plain_msg MT_ENQ ''A''" "''A'' @ [ENQ]" "[]"]
      hd_msg_roundtrip [of "info_msg ''h'' ''b''" _ "[EOT]"] by (simp add: MAX_PREFIX_LEN_def)
qed

text \<open>The scanner does not hold to the fifteen characters: a longer prefix that arrives together with its introducer is
  taken, and only one that arrives without it is rejected.\<close>

lemma long_prefix_taken:
  assumes "list_all isgraph p" "MAX_PREFIX_LEN < length p"
  shows "parse_input (p @ [ENQ]) = Some (plain_msg MT_ENQ p, [])" "parse_input p = Some (plain_msg MT_MALFORMED [], [])"
proof -
  show "parse_input (p @ [ENQ]) = Some (plain_msg MT_ENQ p, [])" using parse_simple(1) [OF assms(1)] .
  have "find_index (\<lambda>c. c \<in> set MSG_START_CHARACTERS) p = None"
    using assms(1) isgraph_no_start by (auto simp: list_all_iff)
  with assms(2) show "parse_input p = Some (plain_msg MT_MALFORMED [], [])"
    by (auto simp add: parse_input_def Let_def simp del: start_chars find_index_None)
qed

section \<open>A message that has not arrived completely\<close>

lemma parse_waiting_prefix:
  assumes "list_all isgraph p" "length p \<le> MAX_PREFIX_LEN"
  shows "parse_input p = Some (plain_msg MT_NONE [], p)"
proof -
  have "find_index (\<lambda>c. c \<in> set MSG_START_CHARACTERS) p = None"
    using assms(1) isgraph_no_start by (auto simp: list_all_iff)
  with assms(2) show ?thesis by (simp add: parse_input_def Let_def del: start_chars find_index_None)
qed

lemma parse_waiting_etx:
  assumes "c \<in> {SOH, STX}" "ETX \<notin> set xs" "Suc (length xs) \<le> MAX_MESSAGE_LEN"
  shows "parse_input (c # xs) = Some (plain_msg MT_NONE [], c # xs)"
proof -
  have "find_index (\<lambda>c. c = ETX) (c # xs) = None" using assms(1,2) by auto
  then show ?thesis
    using assms(1,3)
    by (auto simp add: parse_input_def parse_info_def Let_def simp del: find_index.simps start_chars find_index_None)
qed

lemma parse_waiting_bcc:
  assumes "STX \<notin> set h" "ETX \<notin> set h" "ETX \<notin> set b"
  shows "parse_input (info_frame h b @ [ETX]) = Some (plain_msg MT_NONE [], info_frame h b @ [ETX])"
proof (cases "h = []")
  case True
  have "find_index (\<lambda>c. c = ETX) (STX # b @ [ETX]) = Some (1 + length b)"
    using find_index_skip [of "STX # b" "\<lambda>c. c = ETX" ETX "[]"] assms(3) by auto
  with True show ?thesis
    by (simp add: info_frame_def parse_input_def parse_info_def Let_def
        del: find_index.simps start_chars)
next
  case False
  have "find_index (\<lambda>c. c = STX) (SOH # h @ STX # b @ [ETX]) = Some (1 + length h)"
    using find_index_skip [of "SOH # h" "\<lambda>c. c = STX" STX "b @ [ETX]"] assms(1) by auto
  moreover have "find_index (\<lambda>c. c = ETX) (SOH # h @ STX # b @ [ETX]) = Some (2 + length h + length b)"
    using find_index_skip [of "SOH # h @ STX # b" "\<lambda>c. c = ETX" ETX "[]"] assms(2,3) by auto
  ultimately show ?thesis
    using False
    by (simp add: info_frame_def parse_input_def parse_info_def Let_def
        del: find_index.simps start_chars)
qed

lemma info_frame_Cons: "\<exists>c xs. info_frame h b = c # xs \<and> c \<in> {SOH, STX}"
  by (simp add: info_frame_def)

lemma length_info_frame: "length (info_frame h b) \<le> 2 + length h + length b"
  by (simp add: info_frame_def)

lemma ETX_notin_info_frame: "ETX \<notin> set h \<Longrightarrow> ETX \<notin> set b \<Longrightarrow> ETX \<notin> set (info_frame h b)"
  by (simp add: info_frame_def)

lemma parse_waiting_info:
  assumes "ETX \<notin> set h" "ETX \<notin> set b" "2 + length h + length b \<le> MAX_MESSAGE_LEN"
    "k \<le> length (info_frame h b)"
  shows "parse_input (take k (info_frame h b)) = Some (plain_msg MT_NONE [], take k (info_frame h b))"
proof (cases k)
  case (Suc j)
  obtain c xs where f: "info_frame h b = c # xs" "c \<in> {SOH, STX}" using info_frame_Cons by blast
  have "ETX \<notin> set (take j xs)"
    using ETX_notin_info_frame [OF assms(1,2)] f(1) by (auto dest: in_set_takeD)
  moreover have "Suc (length (take j xs)) \<le> MAX_MESSAGE_LEN"
    using length_info_frame [of h b] assms(3) f(1) by simp
  ultimately show ?thesis using parse_waiting_etx f Suc by simp
qed simp

lemma parse_wf_partial:
  assumes "wf_msg m" "to_string_Msg m = Some enc" "length (m_prefix m) \<le> MAX_PREFIX_LEN" "k < length enc"
  shows "parse_input (take k enc) = Some (plain_msg MT_NONE [], take k enc)"
  using assms(1)
proof (cases rule: wf_msg_cases)
  case (simple t p)
  then obtain c where "enc = p @ [c]" using assms(2) by auto
  then have "take k enc = take k p" using assms(4) by simp
  moreover have "list_all isgraph (take k p)"
    using simple(3) by (auto simp: list_all_iff dest: in_set_takeD)
  ultimately show ?thesis using parse_waiting_prefix assms(3) simple(1) by simp
next
  case (info h b)
  let ?f = "info_frame h b"
  obtain c where enc: "enc = ?f @ [ETX, c]" using assms(2) info(1) by (auto simp: to_string_info)
  show ?thesis
  proof (cases "k \<le> length ?f")
    case True
    then show ?thesis using parse_waiting_info info enc by simp
  next
    case False
    then have "take k enc = ?f @ [ETX]" using assms(4) enc by (simp add: take_Cons')
    then show ?thesis using parse_waiting_bcc info by simp
  qed
qed

text \<open>While a well-formed message with a prefix of at most fifteen characters is only partly in the
  buffer, the scanner asks for more: no proper initial part of its printed form is taken for a message
  or thrown away as malformed.\<close>

theorem hd_msg_partial_waits:
  assumes "wf_msg m" "to_string_Msg m = Some enc" "length (m_prefix m) \<le> MAX_PREFIX_LEN" "k < length enc"
  shows "parse_input (take k enc) = Some (plain_msg MT_NONE [], take k enc)"
  using assms by (rule parse_wf_partial)

theorem hd_msg_partial_waits_witness:
  "parse_input (take 3 [STX, CHR ''b'', ETX, CHR 0x66]) = Some (plain_msg MT_NONE [], [STX, CHR ''b'', ETX])"
proof -
  have "wf_msg (info_msg [] ''b'')" by (simp add: wf_msg_def control_chars MAX_MESSAGE_LEN_def)
  moreover have "to_string_Msg (info_msg [] ''b'') = Some [STX, CHR ''b'', ETX, CHR 0x66]" by code_simp
  ultimately show ?thesis
    using hd_msg_partial_waits [of "info_msg [] ''b''" _ 3] by simp
qed

section \<open>The block check\<close>

lemma ucast_and_0xFF: "(ucast (w AND 0xFF :: u32) :: u8) = ucast w"
proof -
  have "(0xFF :: u32) = mask 8" by (simp add: mask_eq_exp_minus_1)
  then show ?thesis by (auto simp add: bit_eq_iff bit_simps)
qed

lemma ucast_add_u8: "(ucast (v + w :: u32) :: u8) = ucast v + ucast w"
proof -
  have "((a + b) mod 4294967296) mod 256 = (a mod 4294967296 + b mod 4294967296) mod (256 :: int)"
    for a b
  proof -
    have "((a + b) mod 4294967296) mod 256 = (a + b) mod 256" by (simp add: mod_mod_cancel)
    moreover have "(a mod 4294967296 + b mod 4294967296) mod 256
        = ((a mod 4294967296) mod 256 + (b mod 4294967296) mod 256) mod 256"
      by (simp only: mod_add_eq)
    ultimately show ?thesis by (simp add: mod_mod_cancel mod_add_eq)
  qed
  then show ?thesis by transfer (simp add: take_bit_eq_mod mod_simps)
qed

lemma ucast_scast_u8: "(ucast (scast (x :: u8) :: u32) :: u8) = x"
  by (auto simp add: bit_eq_iff bit_simps)

lemma ucast_u32_of_char: "(ucast (of_nat (of_char x) :: u32) :: u8) = u8_of x"
proof -
  have "of_char x < (2 :: nat) ^ 32" by (rule less_trans [OF nat_of_char_less_256]) simp
  then show ?thesis
    by (simp add: u8_of_def word_eq_iff_unsigned unsigned_of_nat take_bit_nat_eq_self)
qed

text \<open>Both loops, the one over unsigned and the one over signed characters, sum modulo 256.\<close>

lemma ucast_bcc_sum: "(ucast (bcc_sum xs s) :: u8) = ucast s + sum_list (map u8_of xs)"
  by (induction xs arbitrary: s) (simp_all add: ucast_add_u8 ucast_u32_of_char ac_simps)

lemma ucast_signed_sum: "(ucast (signed_sum xs s) :: u8) = ucast s + sum_list (map u8_of xs)"
  by (induction xs arbitrary: s)
    (simp_all add: ucast_add_u8 ucast_scast_u8 u8_of_def ac_simps)

lemma check_byte: "(ucast (((s AND 0xFF) + 1) AND 0xFF :: u32) :: u8) = ucast s + 1"
  by (simp add: ucast_and_0xFF ucast_add_u8)

lemma u8_of_bcc_char: "u8_of (bcc_char s) = ucast s + 1"
proof -
  have "unat (((s AND 0xFF) + 1) AND 0xFF) < 256"
    using word_and_le1 [of "(s AND 0xFF) + 1" "0xFF"] by (simp add: word_le_nat_alt)
  then have "u8_of (bcc_char s) = ucast (((s AND 0xFF) + 1) AND 0xFF)"
    by (simp add: u8_of_def bcc_char_def of_nat_unat)
  then show ?thesis by (simp only: check_byte)
qed

lemma compute_cksum_eq:
  "bgn \<le> length buf \<Longrightarrow>
   compute_cksum buf bgn en = Some (sum_list (map u8_of (take en (drop bgn buf))) + 1)"
  by (simp add: compute_cksum_def check_byte ucast_signed_sum)

lemma last_info_enc:
  assumes "to_string_Msg (info_msg h b) = Some enc"
  shows "u8_of (last enc) = sum_list (map u8_of (tl (info_frame h b))) + u8_of ETX + 1"
  using assms by (auto simp: to_string_info u8_of_bcc_char ucast_bcc_sum)

text \<open>The receiver's checksum.  Over the characters between the introducer and ETX inclusive,
  \<open>compute_cksum\<close> gives the block-check character that \<open>to_string\<close> appended, although one loop adds
  signed and the other unsigned characters.  The call in the compiled-out check passes the end position
  where \<open>substr\<close> takes a length, so it sums the block-check character too and yields twice its value:
  enabled as written it would reject every intact message whose check character is not zero.\<close>

theorem compute_cksum_block_check:
  assumes "to_string_Msg (info_msg h b) = Some enc" "pos_etx = length enc - 2"
  shows "compute_cksum (enc @ rest) 1 pos_etx = Some (u8_of (last enc))
    \<and> compute_cksum (enc @ rest) (0 + 1) (pos_etx + 1) = Some (2 * u8_of (last enc))"
proof -
  let ?f = "info_frame h b"
  obtain c where enc: "enc = ?f @ [ETX, c]" and c: "c = last enc" using assms(1) by (auto simp: to_string_info)
  obtain i xs where f: "?f = i # xs" using info_frame_Cons by blast
  have last: "u8_of c = sum_list (map u8_of xs) + u8_of ETX + 1"
    using last_info_enc [OF assms(1)] f c by simp
  have "take pos_etx (drop 1 (enc @ rest)) = xs @ [ETX]"
    "take (pos_etx + 1) (drop 1 (enc @ rest)) = xs @ [ETX, c]"
    using assms(2) enc f by simp_all
  then show ?thesis
    using last c [symmetric] enc by (simp add: compute_cksum_eq add.commute)
qed

theorem compute_cksum_block_check_witness:
  "compute_cksum ([STX, CHR ''b'', ETX, CHR 0x66] @ []) 1 2 = Some 0x66
   \<and> compute_cksum ([STX, CHR ''b'', ETX, CHR 0x66] @ []) (0 + 1) 3 = Some 0xCC"
proof -
  have "to_string_Msg (info_msg [] ''b'') = Some [STX, CHR ''b'', ETX, CHR 0x66]" by code_simp
  then show ?thesis
    using compute_cksum_block_check [of "[]" "''b''" "[STX, CHR ''b'', ETX, CHR 0x66]" 2 "[]"]
    by (simp add: u8_of_def)
qed

section \<open>When the scanner aborts\<close>

lemma find_index_elem:
  "find_index P xs = Some i \<Longrightarrow> i < length xs \<and> P (xs ! i)"
  using find_index_SomeD [of P xs i] by auto

lemma parse_info_None: "parse_info msg pos buf = None \<longleftrightarrow> buf ! pos \<noteq> SOH \<and> buf ! pos \<noteq> STX"
  by (simp add: parse_info_def Let_def split: option.split)

text \<open>The inputs that end the program inside the scanner.  It calls \<open>abort()\<close> for a DLE behind a graphical, possibly
  empty prefix: DLE is among the characters that start a message and none of the branches takes it.  It
  follows that the clear request DLE EOT, which three handlers expect, never reaches them.  And its behaviour is undefined
  when a character from \<open>0x80\<close> on stands in front of a starting character, behind graphical ones only.\<close>

lemma parse_undefined_iff:
  "parse_undefined buf \<longleftrightarrow> (\<exists>q c r. buf = q @ c # r \<and> list_all isgraph q \<and> \<not> ascii c \<and>
     (\<exists>d \<in> set r. d \<in> set MSG_START_CHARACTERS))"
proof
  assume "parse_undefined buf"
  then obtain i where i: "find_index (\<lambda>c. c \<in> set MSG_START_CHARACTERS) buf = Some i" "all_isgraph (take i buf) = None"
    by (auto simp: parse_undefined_def split: option.splits)
  then obtain q c r where q: "take i buf = q @ c # r" "list_all isgraph q" "\<not> ascii c" by (auto simp: all_isgraph_None)
  have "i < length buf" "buf ! i \<in> set MSG_START_CHARACTERS" using find_index_elem [OF i(1)] by blast+
  then have "buf = q @ c # (r @ buf ! i # drop (Suc i) buf)" "buf ! i \<in> set (r @ buf ! i # drop (Suc i) buf)"
    using id_take_nth_drop [of i buf] q(1) by auto
  then show "\<exists>q c r. buf = q @ c # r \<and> list_all isgraph q \<and> \<not> ascii c \<and> (\<exists>d \<in> set r. d \<in> set MSG_START_CHARACTERS)"
    using q(2,3) \<open>buf ! i \<in> set MSG_START_CHARACTERS\<close> by blast
next
  assume "\<exists>q c r. buf = q @ c # r \<and> list_all isgraph q \<and> \<not> ascii c \<and> (\<exists>d \<in> set r. d \<in> set MSG_START_CHARACTERS)"
  then obtain q c r where q: "buf = q @ c # r" "list_all isgraph q" "\<not> ascii c" "\<exists>d \<in> set r. d \<in> set MSG_START_CHARACTERS"
    by blast
  have "c \<notin> set MSG_START_CHARACTERS" using q(3) by (auto simp: control_chars)
  moreover have "\<forall>d \<in> set q. d \<notin> set MSG_START_CHARACTERS" using q(2) isgraph_no_start by (auto simp: list_all_iff)
  moreover obtain j where "find_index (\<lambda>c. c \<in> set MSG_START_CHARACTERS) r = Some j"
    using q(4) by (metis find_index_None not_None_eq)
  ultimately have "find_index (\<lambda>c. c \<in> set MSG_START_CHARACTERS) (q @ c # r) = Some (length q + Suc j)"
    by (induction q) auto
  moreover have "all_isgraph (q @ c # take j r) = None" using q(2,3) by (auto simp: all_isgraph_None)
  ultimately show "parse_undefined buf" using q(1) by (simp add: parse_undefined_def del: start_chars)
qed

theorem parse_input_aborts_iff:
  "(parse_input buf = None \<and> \<not> parse_undefined buf \<longleftrightarrow> (\<exists>p rest. buf = p @ DLE # rest \<and> list_all isgraph p))
   \<and> (parse_undefined buf \<longrightarrow> parse_input buf = None)
   \<and> (\<forall>m buf'. parse_input buf \<noteq> Some (m\<lparr>m_type := MT_DLE_EOT\<rparr>, buf'))"
proof -
  have "\<exists>p rest. buf = p @ DLE # rest \<and> list_all isgraph p" if none: "parse_input buf = None" "\<not> parse_undefined buf"
  proof -
    obtain i where i: "find_index (\<lambda>c. c \<in> set MSG_START_CHARACTERS) buf = Some i"
      using none(1) by (auto simp add: parse_input_def Let_def split: if_split_asm option.split_asm simp del: start_chars)
    obtain b where b: "all_isgraph (take i buf) = Some b" using none(2) i by (auto simp: parse_undefined_def simp del: start_chars)
    have "buf \<noteq> []" using i by auto
    then have eq: "parse_input buf = (if \<not> b then Some (plain_msg MT_MALFORMED [], [])
        else if buf ! i = ENQ then Some (plain_msg MT_ENQ (take i buf), drop (i + 1) buf)
        else if buf ! i = EOT then Some (plain_msg MT_EOT (take i buf), drop (i + 1) buf)
        else if buf ! i = ACK then Some (plain_msg MT_ACK (take i buf), drop (i + 1) buf)
        else if buf ! i = NAK then Some (plain_msg MT_NAK (take i buf), drop (i + 1) buf)
        else parse_info (plain_msg MT_NONE (take i buf)) i buf)"
      using i b by (simp add: parse_input_def Let_def del: start_chars)
    have "b" using none(1) eq by (cases b) simp_all
    moreover have "buf ! i \<notin> {ENQ, EOT, ACK, NAK, SOH, STX}"
      using none(1) eq calculation parse_info_None by (auto split: if_split_asm)
    moreover note b
    ultimately have i2: "list_all isgraph (take i buf)" "buf ! i \<notin> {ENQ, EOT, ACK, NAK, SOH, STX}" by (simp_all add: all_isgraph_True)
    then have "buf ! i = DLE" "i < length buf" using find_index_elem [OF i] by auto
    then show ?thesis using id_take_nth_drop [of i buf] i2(1) by metis
  qed
  moreover have "\<not> parse_undefined (p @ DLE # rest)" if "list_all isgraph p" for p rest
    using that find_start [OF that, of DLE rest] by (simp add: parse_undefined_def del: start_chars)
  moreover have "parse_input buf = None" if undef: "parse_undefined buf"
  proof -
    obtain i where i: "find_index (\<lambda>c. c \<in> set MSG_START_CHARACTERS) buf = Some i" "all_isgraph (take i buf) = None"
      using undef by (auto simp: parse_undefined_def split: option.splits simp del: start_chars)
    then have "buf \<noteq> []" by auto
    with i show ?thesis by (simp add: parse_input_def Let_def del: start_chars)
  qed
  moreover have "parse_input buf \<noteq> Some (m\<lparr>m_type := MT_DLE_EOT\<rparr>, buf')" for m buf'
    using parse_input_no_DLE_EOT [of buf "m\<lparr>m_type := MT_DLE_EOT\<rparr>" buf'] by auto
  ultimately show ?thesis by (auto simp: parse_DLE)
qed

end
