(* ===== verification/Fifo.thy ===== *)
theory Fifo
  imports Prelude
begin

text \<open>
  The contract of the first-in first-out queues of the program: the deques \<open>input_queue_\<close> and
  \<open>output_queue_\<close> of \<open>Half_duplex\<close>, the message queue of the TCP connection handlers, the packet chain of
  the serial port and the linked list of packets of the C program.  The locale fixes the operations a client calls and the laws they obey;
  each provider interprets it in its own theory.
\<close>

section \<open>Taking several items\<close>

text \<open>\<open>pops pop n s\<close> takes up to \<open>n\<close> items and stops early when there is none.\<close>

fun pops :: "('s \<Rightarrow> ('a \<times> 's) option) \<Rightarrow> nat \<Rightarrow> 's \<Rightarrow> 'a list \<times> 's" where
  "pops pop 0 s = ([], s)"
| "pops pop (Suc n) s =
     (case pop s of
        None \<Rightarrow> ([], s)
      | Some (x, s1) \<Rightarrow> (let (xs, s2) = pops pop n s1 in (x # xs, s2)))"

section \<open>The interface\<close>

locale fifo =
  fixes inv :: "'s \<Rightarrow> bool"
    and push :: "'a \<Rightarrow> 's \<Rightarrow> 's"
    and pop :: "'s \<Rightarrow> ('a \<times> 's) option"
    and items :: "'s \<Rightarrow> 'a list"
  assumes inv_push: "inv s \<Longrightarrow> inv (push x s)"
    and items_push: "inv s \<Longrightarrow> items (push x s) = items s @ [x]"
    and pop_empty: "inv s \<Longrightarrow> items s = [] \<Longrightarrow> pop s = None"
    and pop_front:
      "inv s \<Longrightarrow> items s = x # xs \<Longrightarrow> \<exists>s'. pop s = Some (x, s') \<and> inv s' \<and> items s' = xs"
begin

lemma inv_pushes: "inv s \<Longrightarrow> inv (fold push xs s)"
  by (induction xs arbitrary: s) (simp_all add: inv_push)

lemma items_pushes: "inv s \<Longrightarrow> items (fold push xs s) = items s @ xs"
  by (induction xs arbitrary: s) (simp_all add: items_push inv_push)

lemma pop_None_iff: "inv s \<Longrightarrow> pop s = None \<longleftrightarrow> items s = []"
  using pop_empty pop_front by (cases "items s") fastforce+

lemma pops_spec:
  "inv s \<Longrightarrow> fst (pops pop n s) = take n (items s) \<and> items (snd (pops pop n s)) = drop n (items s)"
proof (induction n arbitrary: s)
  case (Suc n)
  show ?case
  proof (cases "items s")
    case Nil
    then show ?thesis using Suc.prems by (simp add: pop_empty)
  next
    case (Cons x xs)
    then obtain s' where "pop s = Some (x, s')" "inv s'" "items s' = xs"
      using pop_front Suc.prems by blast
    then show ?thesis using Suc.IH [of s'] Cons by (simp add: case_prod_beta)
  qed
qed simp

text \<open>What was pushed comes out once, in order, after what was there before.\<close>

lemma pops_pushes:
  assumes "inv s"
  shows "fst (pops pop (length (items s) + length xs) (fold push xs s)) = items s @ xs"
    and "items (snd (pops pop (length (items s) + length xs) (fold push xs s))) = []"
  using pops_spec [OF inv_pushes [OF assms]] items_pushes [OF assms] by simp_all

end

text \<open>A second implementation whose states are mapped to those of a queue, operation by operation, is a queue as
  well.\<close>

lemma fifo_pullback:
  assumes "fifo ok push pop items"
    and push: "\<And>x s. ok (f s) \<Longrightarrow> f (push' x s) = push x (f s)"
    and pop: "\<And>s. ok (f s) \<Longrightarrow> map_option (apsnd f) (pop' s) = pop (f s)"
  shows "fifo (\<lambda>s. ok (f s)) push' pop' (\<lambda>s. items (f s))"
proof
  fix s x
  assume s: "ok (f s)"
  show "ok (f (push' x s))" "items (f (push' x s)) = items (f s) @ [x]"
    using fifo.inv_push [OF assms(1) s] fifo.items_push [OF assms(1) s] push [OF s] by simp_all
next
  fix s
  assume "ok (f s)" "items (f s) = []"
  then show "pop' s = None" using fifo.pop_empty [OF assms(1)] pop by fastforce
next
  fix s x xs
  assume "ok (f s)" "items (f s) = x # xs"
  then show "\<exists>s'. pop' s = Some (x, s') \<and> ok (f s') \<and> items (f s') = xs"
    using fifo.pop_front [OF assms(1)] pop by (fastforce simp: apsnd_def map_prod_def)
qed

end
