(* ===== verification/Half_duplex.thy ===== *)
theory Half_duplex
  imports Hd_msg Fifo
begin

text \<open>
  One station of the half-duplex link, \<^verbatim>\<open>halfduplex/Half_duplex.cpp\<close>: the class \<open>Half_duplex\<close> as a record,
  its member functions as functions on the record, and what the io service may do to it as a step
  relation.

  The bytes written to \<open>port_\<close> are collected in the field \<open>port\<close>; a write succeeds (a failing
  \<open>asio::write\<close> throws out of the program).  \<open>reading\<close> says that an \<open>async_read_some\<close> is outstanding.
  A timer holds the interval it was set to and the waits on it.  The counters are
  \<open>size_t\<close>; they grow by one per received message and are natural numbers here.  \<open>last_message_\<close> is
  indeterminate until it is assigned: \<^const>\<open>None\<close>.  Logging and the mutex, which guards single queue
  operations, have no counterpart.  Fields carry the names of the members without the trailing underscore, \<open>state_\<close>
  being \<open>hd_state\<close>.
\<close>

section \<open>State\<close>

text \<open>
  \<open>waits\<close> counts the completion handlers that were registered and not yet called.  Setting a new expiry
  or cancelling only changes the error code those handlers get, and not even that for one that is
  already queued.
\<close>

record deadline_timer =
  expires :: nat
  pending :: bool
  waits :: nat

definition expires_from_now :: "nat \<Rightarrow> deadline_timer \<Rightarrow> deadline_timer" where
  "expires_from_now t d = d\<lparr>expires := t, pending := False\<rparr>"

definition async_wait :: "deadline_timer \<Rightarrow> deadline_timer" where
  "async_wait d = d\<lparr>pending := True, waits := waits d + 1\<rparr>"

definition timer_cancel :: "deadline_timer \<Rightarrow> deadline_timer" where
  "timer_cancel d = d\<lparr>pending := False\<rparr>"

definition NO_RESPONSE_TIMEOUT :: nat where "NO_RESPONSE_TIMEOUT = 30"
definition NO_RECEIVE_TIMEOUT :: nat where "NO_RECEIVE_TIMEOUT = 20"
definition NO_ACTIVITY_TIMEOUT :: nat where "NO_ACTIVITY_TIMEOUT = 200"
definition POLL_TIMEOUT :: nat where "POLL_TIMEOUT = 7"
definition RAW_READ_BUFFER_SIZE :: nat where "RAW_READ_BUFFER_SIZE = 8 * 1024"

record half_duplex =
  port :: string
  reading :: bool
  controller :: bool
  hd_state :: State
  accepting_input :: bool
  enq_nak_count :: nat
  info_nak_count :: nat
  poll_timer :: deadline_timer
  no_response_timer :: deadline_timer
  no_receive_timer :: deadline_timer
  no_activity_timer :: deadline_timer
  input_unprocessed :: string
  input_queue :: "Msg list"
  last_message :: "Msg option"
  output_queue :: "Msg list"

text \<open>An exception of type \<open>std::runtime_error\<close>, a call of \<open>abort()\<close>, or undefined behaviour.\<close>

datatype hd_error = Runtime_error string | Abort | Undefined

type_synonym hd_result = "hd_error + half_duplex"

definition and_then :: "hd_result \<Rightarrow> (half_duplex \<Rightarrow> hd_result) \<Rightarrow> hd_result" where
  "and_then r f = (case r of Inl e \<Rightarrow> Inl e | Inr s \<Rightarrow> f s)"

lemma and_then_simps [simp]: "and_then (Inl e) f = Inl e" "and_then (Inr s) f = f s"
  by (simp_all add: and_then_def)

lemma and_then_Inr: "and_then r f = Inr s' \<longleftrightarrow> (\<exists>s. r = Inr s \<and> f s = Inr s')"
  by (cases r) simp_all

section \<open>Operations\<close>

definition idle_timer :: deadline_timer where
  "idle_timer = \<lparr>expires = 0, pending = False, waits = 0\<rparr>"

definition Half_duplex :: "bool \<Rightarrow> half_duplex" where
  "Half_duplex ctrl =
     \<lparr>port = [], reading = True, controller = ctrl, hd_state = NEUTRAL, accepting_input = True,
      enq_nak_count = 0, info_nak_count = 0,
      poll_timer = (if ctrl then async_wait (expires_from_now POLL_TIMEOUT idle_timer) else idle_timer),
      no_response_timer = idle_timer, no_receive_timer = idle_timer, no_activity_timer = idle_timer,
      input_unprocessed = [], input_queue = [], last_message = None, output_queue = []\<rparr>"

definition enqueue_message :: "string \<Rightarrow> string \<Rightarrow> half_duplex \<Rightarrow> half_duplex" where
  "enqueue_message header body s = s\<lparr>output_queue := output_queue s @ [info_msg header body]\<rparr>"

text \<open>The out-parameters keep their old values when the queue is empty.\<close>

definition get_next_message ::
  "string \<Rightarrow> string \<Rightarrow> half_duplex \<Rightarrow> bool \<times> string \<times> string \<times> half_duplex" where
  "get_next_message header body s =
     (case input_queue s of
        [] \<Rightarrow> (False, header, body, s)
      | g # gs \<Rightarrow> (True, m_header g, m_body g, s\<lparr>input_queue := gs\<rparr>))"

definition change_state :: "State \<Rightarrow> half_duplex \<Rightarrow> half_duplex" where
  "change_state new s = s\<lparr>hd_state := new\<rparr>"

definition asio_write :: "string \<Rightarrow> half_duplex \<Rightarrow> half_duplex" where
  "asio_write str s = s\<lparr>port := port s @ str\<rparr>"

definition write_simple_msg :: "Msg_type \<Rightarrow> string \<Rightarrow> half_duplex \<Rightarrow> hd_result" where
  "write_simple_msg typ prefix s =
     (case to_string_Msg (plain_msg typ prefix) of
        None \<Rightarrow> Inl Abort
      | Some m_str \<Rightarrow> Inr (asio_write m_str s))"

definition write_output_queue_msg :: "half_duplex \<Rightarrow> hd_result" where
  "write_output_queue_msg s =
     (case output_queue s of
        [] \<Rightarrow> Inl Undefined
      | m # ms \<Rightarrow>
          (let s = s\<lparr>last_message := Some m, output_queue := ms\<rparr>
           in case to_string_Msg m of
                None \<Rightarrow> Inl Abort
              | Some reply_str \<Rightarrow> Inr (asio_write reply_str s)))"

definition handle_output_queue_msg_and_state :: "half_duplex \<Rightarrow> hd_result" where
  "handle_output_queue_msg_and_state s =
     (if output_queue s = [] then
        and_then (write_simple_msg MT_EOT [] s) (\<lambda>s.
        Inr (change_state NEUTRAL s))
      else
        and_then (write_output_queue_msg (change_state MASTER_INFO_TRANSMIT s)) (\<lambda>s.
        Inr (change_state MASTER_INFO_ACK_RECEIVE s)))"

definition handle_message_neutral_state :: "Msg \<Rightarrow> half_duplex \<Rightarrow> hd_result" where
  "handle_message_neutral_state m s =
     (if m_type m = MT_ENQ then
        (if m_prefix m = ''bravo'' then
           (if length (output_queue s) > 0 then
              and_then (write_simple_msg MT_ENQ ''alpha'' (change_state MASTER_SELECT_TRANSMIT s)) (\<lambda>s.
              Inr (change_state MASTER_SELECT_ACK_RECEIVE s))
            else
              and_then (write_simple_msg MT_EOT [] (change_state MASTER_SELECT_TRANSMIT s)) (\<lambda>s.
              Inr (change_state NEUTRAL s)))
         else if m_prefix m = ''alpha'' then Inr (change_state SLAVE_SELECT_RECEIVE s)
         else Inr s)
      else if m_type m = MT_EOT then Inr s
      else Inl (Runtime_error ''invalid message in NEUTRAL''))"

definition handle_message_slave_select_receive_state :: "Msg \<Rightarrow> half_duplex \<Rightarrow> hd_result" where
  "handle_message_slave_select_receive_state m s =
     (if m_type m = MT_ENQ then
        (if \<not> controller s \<and> m_prefix m = ''bravo'' then
           (if accepting_input s then
              and_then (write_simple_msg MT_ACK [] (change_state SLAVE_SELECT_ACK_TRANSMIT s)) (\<lambda>s.
              Inr (change_state SLAVE_INFO_RECEIVE s))
            else
              and_then (write_simple_msg MT_NAK [] (change_state SLAVE_SELECT_ACK_TRANSMIT s)) (\<lambda>s.
              Inr (change_state NEUTRAL s)))
         else Inr s)
      else if m_type m = MT_ACK then Inr s
      else if m_type m = MT_EOT then Inr (change_state NEUTRAL s)
      else Inl (Runtime_error ''invalid message for SLAVE_SELECT_RECEIVE state''))"

definition handle_clear_request :: "half_duplex \<Rightarrow> half_duplex" where
  "handle_clear_request s =
     change_state NEUTRAL (s\<lparr>input_unprocessed := [], input_queue := [], output_queue := []\<rparr>)"

definition handle_message_master_select_ack_receive_state :: "Msg \<Rightarrow> half_duplex \<Rightarrow> hd_result" where
  "handle_message_master_select_ack_receive_state m s =
     (if m_type m = MT_ACK then handle_output_queue_msg_and_state (s\<lparr>enq_nak_count := 0\<rparr>)
      else if m_type m = MT_NAK then
        (if controller s then
           (let s = s\<lparr>enq_nak_count := enq_nak_count s + 1\<rparr>
            in if enq_nak_count s < MAX_ENQ_TRIES then Inr (change_state POLL_TRANSMIT s)
               else Inr (change_state NEUTRAL s))
         else Inr (change_state NEUTRAL s))
      else if m_type m = MT_DLE_EOT then Inr (handle_clear_request s)
      else if m_type m = MT_EOT then Inr (change_state NEUTRAL s)
      else Inl (Runtime_error ''Invalid msg type''))"

definition retransmit :: "half_duplex \<Rightarrow> hd_result" where
  "retransmit s =
     (case last_message s of
        None \<Rightarrow> Inl Undefined
      | Some m \<Rightarrow>
          (case to_string_Msg m of
             None \<Rightarrow> Inl Abort
           | Some reply_str \<Rightarrow> Inr (asio_write reply_str s)))"

definition handle_message_master_info_ack_receive_state :: "Msg \<Rightarrow> half_duplex \<Rightarrow> hd_result" where
  "handle_message_master_info_ack_receive_state m s =
     (if m_type m = MT_ACK then
        handle_output_queue_msg_and_state
          (s\<lparr>no_response_timer := timer_cancel (no_response_timer s), info_nak_count := 0\<rparr>)
      else if m_type m = MT_NAK then
        (let s = s\<lparr>no_response_timer := timer_cancel (no_response_timer s),
                   info_nak_count := info_nak_count s + 1\<rparr>
         in if info_nak_count s < MAX_INFO_TRIES then retransmit s
            else and_then (write_simple_msg MT_EOT [] s) (\<lambda>s. Inr (change_state NEUTRAL s)))
      else if m_type m = MT_DLE_EOT then Inr (handle_clear_request s)
      else and_then (write_simple_msg MT_EOT [] s) (\<lambda>s. Inr (change_state NEUTRAL s)))"

definition push_input :: "Msg \<Rightarrow> half_duplex \<Rightarrow> half_duplex" where
  "push_input m s = s\<lparr>input_queue := input_queue s @ [m]\<rparr>"

definition handle_message_slave_info_receive_state :: "Msg \<Rightarrow> half_duplex \<Rightarrow> hd_result" where
  "handle_message_slave_info_receive_state m s =
     (if m_type m = MT_INFO then
        and_then (write_simple_msg MT_ACK [] (push_input m (change_state SLAVE_INFO_ACK_TRANSMIT s))) (\<lambda>s.
        Inr (change_state SLAVE_INFO_RECEIVE s))
      else if m_type m = MT_MALFORMED then
        and_then (write_simple_msg MT_NAK [] (change_state SLAVE_INFO_ACK_TRANSMIT s)) (\<lambda>s.
        Inr (change_state SLAVE_INFO_RECEIVE s))
      else if m_type m = MT_EOT then Inr (change_state NEUTRAL s)
      else if m_type m = MT_DLE_EOT then Inr (handle_clear_request s)
      else Inl (Runtime_error ''Invalid msg type''))"

text \<open>The \<open>switch\<close> of \<open>read_handler\<close>.\<close>

definition handle_message :: "Msg \<Rightarrow> half_duplex \<Rightarrow> hd_result" where
  "handle_message m s =
     (case hd_state s of
        NEUTRAL \<Rightarrow> handle_message_neutral_state m s
      | SLAVE_SELECT_RECEIVE \<Rightarrow> handle_message_slave_select_receive_state m s
      | MASTER_SELECT_ACK_RECEIVE \<Rightarrow> handle_message_master_select_ack_receive_state m s
      | MASTER_INFO_ACK_RECEIVE \<Rightarrow> handle_message_master_info_ack_receive_state m s
      | SLAVE_INFO_RECEIVE \<Rightarrow> handle_message_slave_info_receive_state m s
      | _ \<Rightarrow> Inl Abort)"

lemmas handler_defs = handle_message_neutral_state_def handle_message_slave_select_receive_state_def
  handle_message_master_select_ack_receive_state_def handle_message_master_info_ack_receive_state_def
  handle_message_slave_info_receive_state_def

lemmas state_op_defs = change_state_def asio_write_def push_input_def handle_clear_request_def

lemma write_simple_msg_simps [simp]:
  "write_simple_msg MT_ACK p s = Inr (asio_write (p @ [ACK]) s)"
  "write_simple_msg MT_NAK p s = Inr (asio_write (p @ [NAK]) s)"
  "write_simple_msg MT_EOT p s = Inr (asio_write (p @ [EOT]) s)"
  "write_simple_msg MT_ENQ p s = Inr (asio_write (p @ [ENQ]) s)"
  by (simp_all add: write_simple_msg_def)

lemma write_output_queue_msg_input:
  "write_output_queue_msg s = Inr s' \<Longrightarrow> input_unprocessed s' = input_unprocessed s"
  by (auto simp: write_output_queue_msg_def state_op_defs split: list.splits option.splits)

lemma handle_output_queue_input:
  "handle_output_queue_msg_and_state s = Inr s' \<Longrightarrow> input_unprocessed s' = input_unprocessed s"
  by (auto simp: handle_output_queue_msg_and_state_def state_op_defs and_then_Inr
      dest!: write_output_queue_msg_input split: if_splits)

lemma retransmit_input: "retransmit s = Inr s' \<Longrightarrow> input_unprocessed s' = input_unprocessed s"
  by (auto simp: retransmit_def state_op_defs split: option.splits)

lemma handle_message_input:
  assumes "handle_message m s = Inr s'"
  shows "input_unprocessed s' = input_unprocessed s \<or> input_unprocessed s' = []"
  using assms
  by (auto simp: handle_message_def handler_defs state_op_defs Let_def
      dest!: handle_output_queue_input retransmit_input split: State.splits if_splits)

text \<open>The loop of \<open>read_handler\<close>; every message it handles was taken out of the buffer.\<close>

function process_input :: "half_duplex \<Rightarrow> hd_result" where
  "process_input s =
     (case parse_input (input_unprocessed s) of
        None \<Rightarrow> Inl (if parse_undefined (input_unprocessed s) then Undefined else Abort)
      | Some (m, rest) \<Rightarrow>
          (let s = s\<lparr>input_unprocessed := rest\<rparr>
           in if m_type m = MT_NONE then Inr s
              else (case handle_message m s of Inl e \<Rightarrow> Inl e | Inr s' \<Rightarrow> process_input s')))"
  by pat_completeness auto

termination process_input
proof (relation "measure (\<lambda>s. length (input_unprocessed s))", goal_cases)
  case (2 s x m rest s1 s')
  then have "length rest < length (input_unprocessed s)"
    using parse_input_consumes [of "input_unprocessed s" m rest] by simp
  moreover have "length (input_unprocessed s') \<le> length rest"
    using handle_message_input [of m s1 s'] 2 by auto
  ultimately show ?case by simp
qed simp

declare process_input.simps [simp del]

definition read_handler :: "string \<Rightarrow> half_duplex \<Rightarrow> hd_result" where
  "read_handler data s =
     (let s = s\<lparr>input_unprocessed := input_unprocessed s @ data,
                no_activity_timer := expires_from_now NO_ACTIVITY_TIMEOUT (no_activity_timer s)\<rparr>
      in and_then (process_input s) (\<lambda>s. Inr (s\<lparr>reading := True\<rparr>)))"

definition poll :: "half_duplex \<Rightarrow> hd_result" where
  "poll s =
     (let s = s\<lparr>poll_timer := async_wait (expires_from_now POLL_TIMEOUT (poll_timer s))\<rparr>
      in if hd_state s \<noteq> NEUTRAL then Inr s
         else if \<not> controller s then Inr s
         else if output_queue s \<noteq> [] then
           and_then (write_simple_msg MT_EOT [] s) (\<lambda>s.
           and_then (write_simple_msg MT_ENQ ''alpha'' (change_state POLL_TRANSMIT s)) (\<lambda>s.
           and_then (write_simple_msg MT_ENQ ''bravo'' (change_state MASTER_SELECT_TRANSMIT s)) (\<lambda>s.
             (let s = s\<lparr>no_response_timer :=
                        async_wait (expires_from_now NO_RESPONSE_TIMEOUT (no_response_timer s))\<rparr>
              in Inr (change_state MASTER_SELECT_ACK_RECEIVE s)))))
         else
           and_then (write_simple_msg MT_EOT [] s) (\<lambda>s.
           and_then (write_simple_msg MT_ENQ ''bravo'' (change_state POLL_TRANSMIT s)) (\<lambda>s.
             Inr (change_state SLAVE_SELECT_RECEIVE s))))"

definition on_master_select_no_response_timeout :: "bool \<Rightarrow> half_duplex \<Rightarrow> hd_result" where
  "on_master_select_no_response_timeout operation_aborted s =
     (if \<not> operation_aborted then
        and_then (write_simple_msg MT_EOT [] s) (\<lambda>s. Inr (change_state NEUTRAL s))
      else Inr s)"

section \<open>What the io service and the application may do\<close>

definition take_wait :: "deadline_timer \<Rightarrow> deadline_timer" where
  "take_wait d = d\<lparr>pending := False, waits := waits d - 1\<rparr>"

text \<open>What a station does without reading: its timers fire, the application calls it.\<close>

inductive hd_local :: "half_duplex \<Rightarrow> half_duplex \<Rightarrow> bool" where
  Poll: "waits (poll_timer s) > 0 \<Longrightarrow>
    poll (s\<lparr>poll_timer := take_wait (poll_timer s)\<rparr>) = Inr s' \<Longrightarrow> hd_local s s'"
| No_response: "waits (no_response_timer s) > 0 \<Longrightarrow>
    on_master_select_no_response_timeout ec
      (s\<lparr>no_response_timer := take_wait (no_response_timer s)\<rparr>) = Inr s' \<Longrightarrow> hd_local s s'"
| Enqueue: "hd_local s (enqueue_message header body s)"
| Get: "get_next_message header body s = (ret, header', body', s') \<Longrightarrow> hd_local s s'"

inductive hd_step :: "half_duplex \<Rightarrow> half_duplex \<Rightarrow> bool" where
  Read: "reading s \<Longrightarrow> length data \<le> RAW_READ_BUFFER_SIZE \<Longrightarrow>
    read_handler data (s\<lparr>reading := False\<rparr>) = Inr s' \<Longrightarrow> hd_step s s'"
| Local: "hd_local s s' \<Longrightarrow> hd_step s s'"

inductive hd_reachable :: "bool \<Rightarrow> half_duplex \<Rightarrow> bool" where
  Construct: "hd_reachable ctrl (Half_duplex ctrl)"
| Next: "hd_reachable ctrl s \<Longrightarrow> hd_step s s' \<Longrightarrow> hd_reachable ctrl s'"

inductive_cases hd_stepE: "hd_step s s'"

section \<open>The station invariant\<close>

abbreviation is_info :: "Msg \<Rightarrow> bool" where
  "is_info m \<equiv> m_type m = MT_INFO \<and> m_prefix m = []"

text \<open>
  The states a station can rest in, and what it then knows: only the control station polls, only the
  other one ever waits for information messages, a station that waits for the acknowledgement of a
  message remembers that message, and the queues hold information messages.
\<close>

definition hd_core_inv :: "half_duplex \<Rightarrow> bool" where
  "hd_core_inv s \<longleftrightarrow>
     hd_state s \<in> {NEUTRAL, POLL_TRANSMIT, MASTER_SELECT_ACK_RECEIVE, MASTER_INFO_ACK_RECEIVE,
                   SLAVE_SELECT_RECEIVE, SLAVE_INFO_RECEIVE} \<and>
     (hd_state s = POLL_TRANSMIT \<longrightarrow> controller s) \<and>
     (hd_state s = SLAVE_INFO_RECEIVE \<longrightarrow> \<not> controller s) \<and>
     (hd_state s = MASTER_INFO_ACK_RECEIVE \<longrightarrow> (\<exists>m. last_message s = Some m \<and> is_info m)) \<and>
     list_all is_info (output_queue s) \<and>
     list_all (\<lambda>m. m_type m = MT_INFO) (input_queue s) \<and>
     (controller s \<longrightarrow> input_queue s = [])"

definition hd_inv :: "half_duplex \<Rightarrow> bool" where
  "hd_inv s \<longleftrightarrow> reading s \<and> hd_core_inv s"

lemma hd_core_inv_updates [simp]:
  "hd_core_inv (s\<lparr>reading := x\<rparr>) = hd_core_inv s"
  "hd_core_inv (s\<lparr>port := p\<rparr>) = hd_core_inv s"
  "hd_core_inv (s\<lparr>input_unprocessed := i\<rparr>) = hd_core_inv s"
  "hd_core_inv (s\<lparr>poll_timer := t\<rparr>) = hd_core_inv s"
  "hd_core_inv (s\<lparr>no_response_timer := t\<rparr>) = hd_core_inv s"
  "hd_core_inv (s\<lparr>no_activity_timer := t\<rparr>) = hd_core_inv s"
  "hd_core_inv (s\<lparr>enq_nak_count := n\<rparr>) = hd_core_inv s"
  "hd_core_inv (s\<lparr>info_nak_count := n\<rparr>) = hd_core_inv s"
  by (simp_all add: hd_core_inv_def)

lemma to_string_is_info: "m_type m = MT_INFO \<Longrightarrow> \<exists>str. to_string_Msg m = Some str"
  by (auto simp: to_string_Msg_def Let_def)

text \<open>An operation keeps the station: it ends with the invariant, or by an exception or an \<open>abort()\<close>
  that the source spells out, never by undefined behaviour.\<close>

definition hd_keeps :: "half_duplex \<Rightarrow> hd_result \<Rightarrow> bool" where
  "hd_keeps s r \<longleftrightarrow>
     (case r of
        Inl e \<Rightarrow> e \<noteq> Undefined
      | Inr s' \<Rightarrow> hd_core_inv s' \<and> controller s' = controller s \<and> reading s' = reading s)"

lemma hd_keeps_simps [simp]:
  "hd_keeps s (Inl e) \<longleftrightarrow> e \<noteq> Undefined"
  "hd_keeps s (Inr s') \<longleftrightarrow> hd_core_inv s' \<and> controller s' = controller s \<and> reading s' = reading s"
  by (simp_all add: hd_keeps_def)

lemma hd_keeps_from:
  "hd_keeps s1 r \<Longrightarrow> controller s1 = controller s \<Longrightarrow> reading s1 = reading s \<Longrightarrow> hd_keeps s r"
  by (cases r) simp_all

lemma handle_output_queue_keeps:
  assumes "hd_core_inv s"
  shows "hd_keeps s (handle_output_queue_msg_and_state s)"
proof (cases "output_queue s")
  case Nil
  then show ?thesis
    using assms
    by (simp add: handle_output_queue_msg_and_state_def state_op_defs hd_core_inv_def)
next
  case (Cons m ms)
  then obtain str where "to_string_Msg m = Some str"
    using assms to_string_is_info [of m] by (auto simp: hd_core_inv_def)
  with Cons assms show ?thesis
    by (simp add: handle_output_queue_msg_and_state_def write_output_queue_msg_def state_op_defs
        hd_core_inv_def)
qed

lemma retransmit_eq:
  assumes "hd_core_inv s" "hd_state s = MASTER_INFO_ACK_RECEIVE"
  shows "\<exists>str. retransmit s = Inr (s\<lparr>port := port s @ str\<rparr>)"
  using assms to_string_is_info
  by (fastforce simp: retransmit_def hd_core_inv_def asio_write_def)

lemma handle_message_neutral_keeps:
  "hd_core_inv s \<Longrightarrow> hd_keeps s (handle_message_neutral_state m s)"
  by (simp add: handle_message_neutral_state_def state_op_defs hd_core_inv_def)

lemma handle_message_slave_select_keeps:
  "hd_core_inv s \<Longrightarrow> hd_keeps s (handle_message_slave_select_receive_state m s)"
  by (simp add: handle_message_slave_select_receive_state_def state_op_defs hd_core_inv_def)

lemma handle_message_master_select_keeps:
  assumes "hd_core_inv s"
  shows "hd_keeps s (handle_message_master_select_ack_receive_state m s)"
proof -
  have "hd_keeps (s\<lparr>enq_nak_count := 0\<rparr>) (handle_output_queue_msg_and_state (s\<lparr>enq_nak_count := 0\<rparr>))"
    using assms by (intro handle_output_queue_keeps) (simp add: hd_core_inv_def)
  then have "hd_keeps s (handle_output_queue_msg_and_state (s\<lparr>enq_nak_count := 0\<rparr>))"
    by (rule hd_keeps_from) simp_all
  then show ?thesis
    using assms
    by (simp add: handle_message_master_select_ack_receive_state_def state_op_defs hd_core_inv_def
        Let_def)
qed

lemma handle_message_master_info_keeps:
  assumes "hd_core_inv s" "hd_state s = MASTER_INFO_ACK_RECEIVE"
  shows "hd_keeps s (handle_message_master_info_ack_receive_state m s)"
proof -
  let ?s = "\<lambda>n. s\<lparr>no_response_timer := timer_cancel (no_response_timer s), info_nak_count := n\<rparr>"
  have inv: "hd_core_inv (?s n)" for n using assms(1) by (simp add: hd_core_inv_def)
  then have "hd_keeps (?s 0) (handle_output_queue_msg_and_state (?s 0))"
    by (rule handle_output_queue_keeps)
  then have ack: "hd_keeps s (handle_output_queue_msg_and_state (?s 0))"
    by (rule hd_keeps_from) simp_all
  obtain str where "retransmit (?s (Suc (info_nak_count s)))
      = Inr (?s (Suc (info_nak_count s))\<lparr>port := port s @ str\<rparr>)"
    using retransmit_eq [OF inv] assms(2) by fastforce
  with ack assms show ?thesis
    by (simp add: handle_message_master_info_ack_receive_state_def state_op_defs hd_core_inv_def
        Let_def)
qed

lemma handle_message_slave_info_keeps:
  "hd_core_inv s \<Longrightarrow> hd_state s = SLAVE_INFO_RECEIVE \<Longrightarrow>
   hd_keeps s (handle_message_slave_info_receive_state m s)"
  by (simp add: handle_message_slave_info_receive_state_def state_op_defs hd_core_inv_def)

lemma handle_message_keeps:
  assumes "hd_core_inv s"
  shows "hd_keeps s (handle_message m s)"
  using assms
  by (cases "hd_state s")
    (simp_all add: handle_message_def handle_message_neutral_keeps handle_message_slave_select_keeps
      handle_message_master_select_keeps handle_message_master_info_keeps
      handle_message_slave_info_keeps)

text \<open>The loop can meet undefined behaviour only in \<open>isgraph\<close>, on a character from \<open>0x80\<close> on.\<close>

definition hd_scans :: "half_duplex \<Rightarrow> hd_result \<Rightarrow> bool" where
  "hd_scans s r \<longleftrightarrow> hd_keeps s r \<or> r = Inl Undefined \<and> \<not> list_all ascii (input_unprocessed s)"

lemma parse_input_rest: "parse_input buf = Some (m, rest) \<Longrightarrow> set rest \<subseteq> set buf"
  by (auto simp: parse_input_def parse_info_def Let_def dest: in_set_dropD
      split: if_split_asm option.split_asm bool.split_asm)

lemma parse_undefined_ascii: "parse_undefined buf \<Longrightarrow> \<not> list_all ascii buf"
  unfolding parse_undefined_iff by (auto simp: list_all_iff)

lemma process_input_keeps: "hd_core_inv s \<Longrightarrow> hd_scans s (process_input s)"
proof (induction s rule: process_input.induct)
  case (1 s)
  show ?case
  proof (cases "parse_input (input_unprocessed s)")
    case None
    then show ?thesis using parse_undefined_ascii by (auto simp: process_input.simps [of s] hd_scans_def)
  next
    case (Some mr)
    obtain m rest where mr: "mr = (m, rest)" by (cases mr)
    let ?s = "s\<lparr>input_unprocessed := rest\<rparr>"
    have inv: "hd_core_inv ?s" using 1(2) by (simp add: hd_core_inv_def)
    show ?thesis
    proof (cases "m_type m = MT_NONE")
      case True
      then show ?thesis using Some mr inv by (simp add: process_input.simps [of s] hd_scans_def)
    next
      case False
      show ?thesis
      proof (cases "handle_message m ?s")
        case (Inl e)
        then show ?thesis
          using False Some mr handle_message_keeps [OF inv, of m]
          by (simp add: process_input.simps [of s] hd_scans_def)
      next
        case (Inr s')
        then have s': "hd_core_inv s'" "controller s' = controller s" "reading s' = reading s"
          using handle_message_keeps [OF inv, of m] by simp_all
        have "hd_scans s' (process_input s')"
          using 1(1) [OF Some mr [symmetric] refl False Inr] s'(1) by simp
        moreover have "set (input_unprocessed s') \<subseteq> set (input_unprocessed s)"
          using handle_message_input [OF Inr] parse_input_rest Some mr by auto
        then have "list_all ascii (input_unprocessed s) \<Longrightarrow> list_all ascii (input_unprocessed s')"
          by (auto simp: list_all_iff)
        ultimately have "hd_scans s (process_input s')" using hd_keeps_from s'(2,3) unfolding hd_scans_def by blast
        then show ?thesis using False Some mr Inr by (simp add: process_input.simps [of s])
      qed
    qed
  qed
qed

lemma read_handler_keeps:
  assumes "hd_core_inv s"
  shows "case read_handler data s of
           Inl e \<Rightarrow> e = Undefined \<longrightarrow> \<not> list_all ascii (input_unprocessed s @ data)
         | Inr s' \<Rightarrow> hd_inv s' \<and> controller s' = controller s"
proof -
  let ?s = "s\<lparr>input_unprocessed := input_unprocessed s @ data,
             no_activity_timer := expires_from_now NO_ACTIVITY_TIMEOUT (no_activity_timer s)\<rparr>"
  have "hd_core_inv ?s" using assms by (simp add: hd_core_inv_def)
  then have "hd_scans ?s (process_input ?s)" by (rule process_input_keeps)
  then show ?thesis
    by (cases "process_input ?s") (auto simp add: read_handler_def hd_inv_def hd_scans_def)
qed

lemma poll_keeps: "hd_core_inv s \<Longrightarrow> hd_keeps s (poll s)"
  by (simp add: poll_def state_op_defs hd_core_inv_def Let_def) blast

lemma no_response_keeps:
  "hd_core_inv s \<Longrightarrow> hd_keeps s (on_master_select_no_response_timeout ec s)"
  by (simp add: on_master_select_no_response_timeout_def state_op_defs hd_core_inv_def)

lemma hd_local_inv: "hd_local s s' \<Longrightarrow> hd_inv s \<Longrightarrow> hd_inv s' \<and> controller s' = controller s"
proof (induction rule: hd_local.induct)
  case (Poll s s')
  then show ?case
    using poll_keeps [of "s\<lparr>poll_timer := take_wait (poll_timer s)\<rparr>"] by (simp add: hd_inv_def)
next
  case (No_response s ec s')
  then show ?case
    using no_response_keeps [of "s\<lparr>no_response_timer := take_wait (no_response_timer s)\<rparr>" ec]
    by (simp add: hd_inv_def)
next
  case (Enqueue s header body)
  then show ?case by (simp add: enqueue_message_def hd_inv_def hd_core_inv_def)
next
  case (Get header body s ret header' body' s')
  then show ?case
    by (auto simp: get_next_message_def hd_inv_def hd_core_inv_def split: list.splits)
qed

lemma hd_step_inv: "hd_step s s' \<Longrightarrow> hd_inv s \<Longrightarrow> hd_inv s' \<and> controller s' = controller s"
proof (erule hd_stepE)
  fix data
  assume "hd_inv s" "reading s" "read_handler data (s\<lparr>reading := False\<rparr>) = Inr s'"
  then show ?thesis
    using read_handler_keeps [of "s\<lparr>reading := False\<rparr>" data] by (simp add: hd_inv_def)
qed (rule hd_local_inv)

lemma hd_inv_init: "hd_inv (Half_duplex ctrl)"
  by (simp add: Half_duplex_def hd_inv_def hd_core_inv_def)

lemma hd_reachable_invD: "hd_reachable ctrl s \<Longrightarrow> hd_inv s \<and> controller s = ctrl"
proof (induction rule: hd_reachable.induct)
  case (Construct ctrl)
  show ?case using hd_inv_init by (simp add: Half_duplex_def)
next
  case (Next ctrl s s')
  then show ?case using hd_step_inv by blast
qed

text \<open>C7: Every state a station can reach, from its construction by any sequence of reads, timer
  expiries and application calls, satisfies the invariant: it rests only in the states in which
  \<open>read_handler\<close> has a handler or in \<open>POLL_TRANSMIT\<close>, a read is outstanding, a station waiting for the
  acknowledgement of a message holds that message, and it keeps its role.\<close>

theorem hd_reachable_inv: "hd_reachable ctrl s \<Longrightarrow> hd_inv s \<and> controller s = ctrl"
  by (rule hd_reachable_invD)

lemma reach_enqueue: "hd_reachable ctrl s \<Longrightarrow> hd_reachable ctrl (enqueue_message h b s)"
  by (erule hd_reachable.Next) (rule hd_step.Local [OF hd_local.Enqueue])

lemma poll_reaches:
  "\<exists>s. hd_reachable True s \<and> hd_state s = MASTER_SELECT_ACK_RECEIVE"
proof -
  let ?s = "enqueue_message ''h'' ''b'' (Half_duplex True)"
  have "\<exists>s'. poll (?s\<lparr>poll_timer := take_wait (poll_timer ?s)\<rparr>) = Inr s' \<and>
             hd_state s' = MASTER_SELECT_ACK_RECEIVE"
    by (simp add: poll_def Let_def enqueue_message_def Half_duplex_def state_op_defs)
  then obtain s' where "poll (?s\<lparr>poll_timer := take_wait (poll_timer ?s)\<rparr>) = Inr s'"
    and st: "hd_state s' = MASTER_SELECT_ACK_RECEIVE" by blast
  moreover have "waits (poll_timer ?s) > 0"
    by (simp add: enqueue_message_def Half_duplex_def async_wait_def)
  ultimately have "hd_step ?s s'" by (intro hd_step.Local hd_local.Poll)
  then have "hd_reachable True s'"
    using hd_reachable.Next reach_enqueue hd_reachable.Construct by blast
  with st show ?thesis by blast
qed

theorem hd_reachable_inv_witness:
  "\<exists>s. hd_reachable True s \<and> hd_state s = MASTER_SELECT_ACK_RECEIVE \<and> hd_inv s \<and> controller s"
proof -
  obtain s where "hd_reachable True s" "hd_state s = MASTER_SELECT_ACK_RECEIVE"
    using poll_reaches by blast
  with hd_reachable_inv [OF this(1)] show ?thesis by blast
qed

text \<open>C12: No input of 7-bit characters makes a station read the front of its empty output queue or retransmit a message
  that was never sent, or do anything else that is undefined: whatever such bytes arrive in a reachable state that holds
  no others, and whichever timer fires in any reachable state, the outcome is a next state, one of the exceptions of the
  source or its \<open>abort()\<close>.  Bytes from \<open>0x80\<close> on are left out because the scanner passes them to \<open>isgraph\<close> as negative
  characters, which is undefined.\<close>

theorem hd_no_undefined:
  assumes "hd_reachable ctrl s"
  shows "(list_all ascii (input_unprocessed s @ data) \<longrightarrow> read_handler data s \<noteq> Inl Undefined) \<and>
    poll s \<noteq> Inl Undefined \<and> on_master_select_no_response_timeout ec s \<noteq> Inl Undefined"
proof -
  have inv: "hd_core_inv s" using hd_reachable_invD [OF assms] by (simp add: hd_inv_def)
  show ?thesis
    using read_handler_keeps [OF inv, of data] poll_keeps [OF inv] no_response_keeps [OF inv, of ec]
    by (auto simp: hd_keeps_def)
qed

theorem hd_no_undefined_witness:
  "read_handler [NAK] (Half_duplex False) \<noteq> Inl Undefined \<and> poll (Half_duplex False) \<noteq> Inl Undefined
   \<and> on_master_select_no_response_timeout False (Half_duplex False) \<noteq> Inl Undefined"
proof -
  have "list_all ascii (input_unprocessed (Half_duplex False) @ [NAK])" by (simp add: Half_duplex_def NAK_def)
  with hd_no_undefined [OF hd_reachable.Construct, of False "[NAK]" False] show ?thesis by blast
qed

text \<open>One such byte in front of a message is enough.\<close>

lemma high_byte_undefined:
  assumes "\<not> ascii c" "input_unprocessed s = []"
  shows "read_handler [c, ENQ] s = Inl Undefined"
proof -
  have "parse_undefined [c, ENQ]"
    unfolding parse_undefined_iff using assms(1) by (intro exI [of _ "[]"] exI [of _ c] exI [of _ "[ENQ]"]) simp
  moreover have "parse_input [c, ENQ] = None" using parse_input_aborts_iff calculation by blast
  ultimately show ?thesis using assms(2) by (simp add: read_handler_def process_input.simps)
qed

text \<open>The control station never receives anything.  Whatever the peer sends, in every reachable
  state of a station constructed as the controller \<open>get_next_message\<close> reports that there is no message
  and leaves its arguments alone.\<close>

theorem hd_controller_receives_nothing:
  assumes "hd_reachable True s"
  shows "get_next_message header body s = (False, header, body, s)"
  using hd_reachable_invD [OF assms]
  by (simp add: hd_inv_def hd_core_inv_def get_next_message_def)

theorem hd_controller_receives_nothing_witness:
  "\<exists>s. hd_reachable True s \<and> hd_state s = MASTER_SELECT_ACK_RECEIVE \<and>
       get_next_message ''h'' ''b'' s = (False, ''h'', ''b'', s)"
proof -
  obtain s where "hd_reachable True s" "hd_state s = MASTER_SELECT_ACK_RECEIVE"
    using poll_reaches by blast
  with hd_controller_receives_nothing [OF this(1)] show ?thesis by blast
qed

section \<open>The queues\<close>

abbreviation payload :: "Msg \<Rightarrow> string \<times> string" where
  "payload m \<equiv> (m_header m, m_body m)"

text \<open>The input side: the slave handler appends, \<open>get_next_message\<close> takes.\<close>

definition input_pop :: "half_duplex \<Rightarrow> ((string \<times> string) \<times> half_duplex) option" where
  "input_pop s =
     (case get_next_message [] [] s of (ret, h, b, s') \<Rightarrow> if ret then Some ((h, b), s') else None)"

interpretation hdin: fifo "\<lambda>_. True" "\<lambda>(h, b). push_input (info_msg h b)" input_pop
  "\<lambda>s. map payload (input_queue s)"
proof unfold_locales
  fix s :: half_duplex and x xs
  assume "map payload (input_queue s) = x # xs"
  then show "\<exists>s'. input_pop s = Some (x, s') \<and> True \<and> map payload (input_queue s') = xs"
    by (cases "input_queue s") (auto simp: input_pop_def get_next_message_def)
qed (auto simp: push_input_def input_pop_def get_next_message_def)

text \<open>The output side: \<open>enqueue_message\<close> appends, \<open>write_output_queue_msg\<close> takes and transmits.\<close>

definition output_pop :: "half_duplex \<Rightarrow> ((string \<times> string) \<times> half_duplex) option" where
  "output_pop s =
     (case write_output_queue_msg s of
        Inl _ \<Rightarrow> None
      | Inr s' \<Rightarrow> map_option (\<lambda>m. (payload m, s')) (last_message s'))"

lemma write_output_queue_msg_Cons:
  assumes "output_queue s = m # ms" "m_type m = MT_INFO"
  obtains str where "to_string_Msg m = Some str"
    "write_output_queue_msg s =
       Inr (s\<lparr>last_message := Some m, output_queue := ms, port := port s @ str\<rparr>)"
  using assms to_string_is_info [of m] by (auto simp: write_output_queue_msg_def asio_write_def)

interpretation hdout: fifo "\<lambda>s. list_all is_info (output_queue s)" "\<lambda>(h, b). enqueue_message h b"
  output_pop "\<lambda>s. map payload (output_queue s)"
proof unfold_locales
  fix s :: half_duplex and x xs
  assume inv: "list_all is_info (output_queue s)" and eq: "map payload (output_queue s) = x # xs"
  then obtain m ms where q: "output_queue s = m # ms" "payload m = x" "map payload ms = xs"
    by (cases "output_queue s") auto
  with inv have "m_type m = MT_INFO" "list_all is_info ms" by simp_all
  with q show "\<exists>s'. output_pop s = Some (x, s') \<and> list_all is_info (output_queue s') \<and>
                    map payload (output_queue s') = xs"
    by (elim write_output_queue_msg_Cons) (auto simp: output_pop_def)
qed (auto simp: enqueue_message_def output_pop_def write_output_queue_msg_def)

text \<open>Messages the application enqueues in a reachable state leave in the order it enqueued them,
  after those that were waiting, each once, and then the queue is empty.\<close>

theorem hd_output_in_order:
  assumes "hd_reachable ctrl s"
    "n = length (output_queue s) + length xs"
    "r = pops output_pop n (fold (\<lambda>(h, b). enqueue_message h b) xs s)"
  shows "fst r = map payload (output_queue s) @ xs \<and> output_queue (snd r) = []"
proof -
  have "list_all is_info (output_queue s)"
    using hd_reachable_invD [OF assms(1)] by (simp add: hd_inv_def hd_core_inv_def)
  from hdout.pops_pushes [OF this, of xs] show ?thesis using assms(2,3) by simp
qed

theorem hd_output_in_order_witness:
  "fst (pops output_pop 2
          (fold (\<lambda>(h, b). enqueue_message h b) [(''1'', ''a''), ([], ''b'')] (Half_duplex True)))
   = [(''1'', ''a''), ([], ''b'')]"
proof -
  have "2 = length (output_queue (Half_duplex True)) + length [(''1'', ''a''), ([], ''b'')]"
    by (simp add: Half_duplex_def)
  from hd_output_in_order [OF hd_reachable.Construct this refl] show ?thesis
    by (simp add: Half_duplex_def)
qed

section \<open>Retransmission\<close>

lemma process_input_msg:
  "parse_input (input_unprocessed s) = Some (m, rest) \<Longrightarrow> m_type m \<noteq> MT_NONE \<Longrightarrow>
   process_input s = and_then (handle_message m (s\<lparr>input_unprocessed := rest\<rparr>)) process_input"
  by (simp add: process_input.simps [of s] and_then_def)

lemma process_input_empty: "input_unprocessed s = [] \<Longrightarrow> process_input s = Inr s"
  by (simp add: process_input.simps [of s])

lemma parse_control [simp]:
  "parse_input (ENQ # rest) = Some (plain_msg MT_ENQ [], rest)"
  "parse_input (EOT # rest) = Some (plain_msg MT_EOT [], rest)"
  "parse_input (ACK # rest) = Some (plain_msg MT_ACK [], rest)"
  "parse_input (NAK # rest) = Some (plain_msg MT_NAK [], rest)"
  using parse_simple [of "[]" rest] by simp_all

lemma timer_cancel_idem [simp]: "timer_cancel (timer_cancel t) = timer_cancel t"
  by (simp add: timer_cancel_def)






section \<open>A rejected selection\<close>

text \<open>A select that the peer rejects with NAK leaves the controller in \<open>POLL_TRANSMIT\<close> (before the
  twentieth rejection in a row).  No handler exists for that state: its polls do nothing there, and the
  next complete message it reads, whatever it is, ends the program by \<open>abort()\<close>.  Only the timer of the
  select, which nothing cancelled, can bring it back to \<open>NEUTRAL\<close>.\<close>

theorem hd_select_nak:
  assumes "hd_state s = MASTER_SELECT_ACK_RECEIVE" "controller s" "input_unprocessed s = []"
    "Suc (enq_nak_count s) < MAX_ENQ_TRIES"
  shows "\<exists>s'. read_handler [NAK] s = Inr s' \<and> hd_state s' = POLL_TRANSMIT \<and>
    no_response_timer s' = no_response_timer s \<and>
    (\<forall>s''. poll s' = Inr s'' \<longrightarrow> hd_state s'' = POLL_TRANSMIT \<and> port s'' = port s') \<and>
    (\<forall>data m rest. parse_input data = Some (m, rest) \<and> m_type m \<noteq> MT_NONE \<longrightarrow>
       read_handler data s' = Inl Abort)"
proof -
  let ?s = "s\<lparr>input_unprocessed := [],
    no_activity_timer := expires_from_now NO_ACTIVITY_TIMEOUT (no_activity_timer s),
    enq_nak_count := Suc (enq_nak_count s), hd_state := POLL_TRANSMIT, reading := True\<rparr>"
  have "read_handler [NAK] s = Inr ?s"
    using assms
    by (simp add: read_handler_def process_input_msg process_input_empty handle_message_def Let_def
        handle_message_master_select_ack_receive_state_def change_state_def)
  moreover have "read_handler data ?s = Inl Abort"
    if "parse_input data = Some (m, rest)" "m_type m \<noteq> MT_NONE" for data m rest
    using that by (simp add: read_handler_def process_input_msg handle_message_def)
  ultimately show ?thesis by (auto simp: poll_def Let_def)
qed

theorem hd_select_nak_witness:
  "\<exists>s'. read_handler [NAK] ((Half_duplex True)\<lparr>hd_state := MASTER_SELECT_ACK_RECEIVE\<rparr>) = Inr s' \<and>
        read_handler [EOT] s' = Inl Abort"
proof -
  let ?s = "(Half_duplex True)\<lparr>hd_state := MASTER_SELECT_ACK_RECEIVE\<rparr>"
  have "\<exists>s'. read_handler [NAK] ?s = Inr s' \<and>
    (\<forall>data m rest. parse_input data = Some (m, rest) \<and> m_type m \<noteq> MT_NONE \<longrightarrow>
       read_handler data s' = Inl Abort)"
    using hd_select_nak [of ?s] by (auto simp: Half_duplex_def MAX_ENQ_TRIES_def)
  moreover have "parse_input [EOT] = Some (EOT_msg, []) \<and> m_type EOT_msg \<noteq> MT_NONE"
    if "EOT_msg = plain_msg MT_EOT []" for EOT_msg :: Msg using that by simp
  ultimately show ?thesis by blast
qed

end
