(* ===== verification/Framing.thy ===== *)
theory Framing
  imports Fifo
begin

text \<open>
  The contract of a message format on a byte stream: a decoder that takes one message off the front of
  what has arrived.  Some formats also skip what is left in front of a message, such as line ends or the
  remains of an earlier message; \<open>noise\<close> says what a format skips.  The locale is interpreted on the
  ISO 1745 messages and on the text messages of the C program.
\<close>

section \<open>The interface\<close>

locale framing =
  fixes wf :: "'m \<Rightarrow> bool"
    and enc :: "'m \<Rightarrow> 'b list"
    and dec :: "'b list \<Rightarrow> ('m \<times> 'b list) option"
    and noise :: "'b list \<Rightarrow> bool"
  assumes dec_enc: "wf m \<Longrightarrow> noise j \<Longrightarrow> dec (j @ enc m @ rest) = Some (m, rest)"
begin

text \<open>A stream of messages, each behind its own noise, is taken apart into exactly these messages.\<close>

lemma decode_stream:
  assumes "list_all (\<lambda>(j, m). noise j \<and> wf m) jms"
  shows "pops dec (length jms) (concat (map (\<lambda>(j, m). j @ enc m) jms) @ rest) = (map snd jms, rest)"
  using assms by (induction jms) (auto simp: dec_enc)

end

end
