(* ===== verification/Hd_stream.thy ===== *)
theory Hd_stream
  imports Half_duplex Framing
begin

text \<open>
  The byte stream a station reads.  A serial line delivers the bytes of a message in pieces of any
  size; here the reads of \<^verbatim>\<open>Half_duplex.cpp\<close> on any cutting of a stream of messages are shown to amount to
  handling the messages one after the other.
\<close>

section \<open>Messages one after the other\<close>

fun run_msgs :: "Msg list \<Rightarrow> half_duplex \<Rightarrow> hd_result" where
  "run_msgs [] s = Inr s"
| "run_msgs (m # ms) s = and_then (handle_message m s) (run_msgs ms)"

fun read_chunks :: "string list \<Rightarrow> half_duplex \<Rightarrow> hd_result" where
  "read_chunks [] s = Inr s"
| "read_chunks (d # ds) s = and_then (read_handler d s) (read_chunks ds)"

text \<open>Messages as a sender may put them on the line; the prefix of a command fits the scanner's limit.\<close>

definition line_msg :: "Msg \<Rightarrow> bool" where
  "line_msg m \<longleftrightarrow> wf_msg m \<and> length (m_prefix m) \<le> MAX_PREFIX_LEN"

definition enc_msg :: "Msg \<Rightarrow> string" where
  "enc_msg m = (case to_string_Msg m of Some str \<Rightarrow> str | None \<Rightarrow> [])"

definition enc_msgs :: "Msg list \<Rightarrow> string" where
  "enc_msgs ms = concat (map enc_msg ms)"

lemma enc_msgs_simps [simp]:
  "enc_msgs [] = []" "enc_msgs (m # ms) = enc_msg m @ enc_msgs ms"
  "enc_msgs (ms @ ms') = enc_msgs ms @ enc_msgs ms'"
  by (simp_all add: enc_msgs_def)

lemma to_string_line_msg: "line_msg m \<Longrightarrow> to_string_Msg m = Some (enc_msg m)"
  using to_string_total by (fastforce simp: line_msg_def enc_msg_def)

lemma parse_enc_msg: "line_msg m \<Longrightarrow> parse_input (enc_msg m @ rest) = Some (m, rest)"
  using to_string_line_msg parse_wf by (simp add: line_msg_def)

text \<open>The messages are a framing of the stream, with nothing to skip between them.\<close>

interpretation iso_frames: framing line_msg enc_msg parse_input "\<lambda>j. j = []"
  by unfold_locales (simp add: parse_enc_msg)

lemma parse_stream: "list_all line_msg ms \<Longrightarrow> pops parse_input (length ms) (enc_msgs ms @ rest) = (ms, rest)"
  using iso_frames.decode_stream [of "map (Pair []) ms" rest]
  by (simp add: list_all_iff enc_msgs_def comp_def)

lemma parse_enc_partial:
  "line_msg m \<Longrightarrow> k < length (enc_msg m) \<Longrightarrow>
   parse_input (take k (enc_msg m)) = Some (plain_msg MT_NONE [], take k (enc_msg m))"
  using parse_wf_partial [of m "enc_msg m" k] to_string_line_msg [of m] by (simp add: line_msg_def)

lemma line_msg_type: "line_msg m \<Longrightarrow> m_type m \<notin> {MT_NONE, MT_DLE_EOT, MT_MALFORMED}"
  by (auto simp: line_msg_def wf_msg_def split: Msg_type.splits)

section \<open>The handlers do not look at the buffer\<close>

definition with_input :: "string \<Rightarrow> deadline_timer \<Rightarrow> bool \<Rightarrow> half_duplex \<Rightarrow> half_duplex" where
  "with_input i t r s = s\<lparr>input_unprocessed := i, no_activity_timer := t, reading := r\<rparr>"

definition on_result :: "(half_duplex \<Rightarrow> half_duplex) \<Rightarrow> hd_result \<Rightarrow> hd_result" where
  "on_result f r = and_then r (\<lambda>s. Inr (f s))"

lemma on_result_simps [simp]: "on_result f (Inl e) = Inl e" "on_result f (Inr s) = Inr (f s)"
  by (simp_all add: on_result_def)

lemma with_input_sel [simp]:
  "hd_state (with_input i t r s) = hd_state s" "controller (with_input i t r s) = controller s"
  "accepting_input (with_input i t r s) = accepting_input s"
  "output_queue (with_input i t r s) = output_queue s" "input_queue (with_input i t r s) = input_queue s"
  "last_message (with_input i t r s) = last_message s" "port (with_input i t r s) = port s"
  "enq_nak_count (with_input i t r s) = enq_nak_count s"
  "info_nak_count (with_input i t r s) = info_nak_count s"
  "no_response_timer (with_input i t r s) = no_response_timer s"
  "input_unprocessed (with_input i t r s) = i" "no_activity_timer (with_input i t r s) = t"
  "reading (with_input i t r s) = r"
  by (simp_all add: with_input_def)

lemma with_input_twice [simp]: "with_input i t r (with_input i' t' r' s) = with_input i t r s"
  by (simp add: with_input_def)

lemma with_input_again [simp]:
  "(with_input i t r s)\<lparr>input_unprocessed := j\<rparr> = with_input j t r s"
  "(with_input i t r s)\<lparr>reading := r'\<rparr> = with_input i t r' s"
  by (cases s; simp add: with_input_def)+

lemma with_input_ops [simp]:
  "change_state x (with_input i t r s) = with_input i t r (change_state x s)"
  "asio_write str (with_input i t r s) = with_input i t r (asio_write str s)"
  "push_input m (with_input i t r s) = with_input i t r (push_input m s)"
  by (simp_all add: state_op_defs with_input_def)

lemma with_input_upd [simp]:
  "(with_input i t r s)\<lparr>enq_nak_count := n\<rparr> = with_input i t r (s\<lparr>enq_nak_count := n\<rparr>)"
  "(with_input i t r s)\<lparr>no_response_timer := d, info_nak_count := n\<rparr> =
     with_input i t r (s\<lparr>no_response_timer := d, info_nak_count := n\<rparr>)"
  "(with_input i t r s)\<lparr>last_message := l, output_queue := q\<rparr> =
     with_input i t r (s\<lparr>last_message := l, output_queue := q\<rparr>)"
  by (simp_all add: with_input_def)

lemma handle_output_queue_with_input [simp]:
  "handle_output_queue_msg_and_state (with_input i t r s) =
   on_result (with_input i t r) (handle_output_queue_msg_and_state s)"
  by (simp add: handle_output_queue_msg_and_state_def write_output_queue_msg_def Let_def
      change_state_def [of _ s] split: list.split option.split)

lemma retransmit_with_input [simp]:
  "retransmit (with_input i t r s) = on_result (with_input i t r) (retransmit s)"
  by (simp add: retransmit_def split: option.split)

lemma handle_message_with_input:
  assumes "m_type m \<noteq> MT_DLE_EOT"
  shows "handle_message m (with_input i t r s) = on_result (with_input i t r) (handle_message m s)"
  using assms
  by (cases "hd_state s") (simp_all add: handle_message_def handler_defs Let_def)

lemma run_msgs_with_input:
  assumes "list_all line_msg ms"
  shows "run_msgs ms (with_input i t r s) = on_result (with_input i t r) (run_msgs ms s)"
  using assms
proof (induction ms arbitrary: s)
  case (Cons m ms)
  then have "m_type m \<noteq> MT_DLE_EOT" using line_msg_type by auto
  with Cons show ?case
    by (cases "handle_message m s") (simp_all add: handle_message_with_input)
qed simp

section \<open>Reading whole messages and a rest\<close>

text \<open>A rest that waits: nothing, or the beginning of the next message.\<close>

definition waiting_rest :: "string \<Rightarrow> Msg list \<Rightarrow> bool" where
  "waiting_rest p ms \<longleftrightarrow>
     (case ms of [] \<Rightarrow> p = [] | m # _ \<Rightarrow> (\<exists>k < length (enc_msg m). p = take k (enc_msg m)))"

lemma process_waiting:
  assumes "waiting_rest p ms" "list_all line_msg ms" "input_unprocessed s = p"
  shows "process_input s = Inr s"
proof -
  have "\<exists>q. parse_input p = Some (plain_msg MT_NONE q, p)"
    using assms(1,2) parse_enc_partial by (cases ms) (auto simp: waiting_rest_def)
  then show ?thesis using assms(3) by (auto simp: process_input.simps [of s])
qed

lemma process_msgs:
  assumes "list_all line_msg ms" "list_all line_msg ms'" "waiting_rest p ms'"
  shows "process_input (with_input (enc_msgs ms @ p) t r s) =
         on_result (with_input p t r) (run_msgs ms s)"
  using assms(1)
proof (induction ms arbitrary: s)
  case Nil
  then show ?case using process_waiting [OF assms(3,2)] by simp
next
  case (Cons m ms)
  then have m: "line_msg m" and ms: "list_all line_msg ms" by simp_all
  let ?rest = "enc_msgs ms @ p"
  have "process_input (with_input (enc_msgs (m # ms) @ p) t r s)
      = and_then (handle_message m (with_input ?rest t r s)) process_input"
    using process_input_msg [of "with_input (enc_msgs (m # ms) @ p) t r s" m ?rest]
      parse_enc_msg [OF m, of ?rest] line_msg_type [OF m] by simp
  then show ?case
    using Cons.IH [OF ms] line_msg_type [OF m]
    by (cases "handle_message m s") (simp_all add: handle_message_with_input)
qed

text \<open>Every initial part of a stream is a number of whole messages and a rest that waits.\<close>

lemma stream_prefix:
  assumes "p @ q = enc_msgs ms"
  shows "\<exists>ms1 ms2 p'. ms = ms1 @ ms2 \<and> p = enc_msgs ms1 @ p' \<and> p' @ q = enc_msgs ms2 \<and>
                     (waiting_rest p' ms2)"
  using assms
proof (induction ms arbitrary: p)
  case Nil
  then show ?case by (simp add: waiting_rest_def)
next
  case (Cons m ms)
  show ?case
  proof (cases "length p < length (enc_msg m)")
    case True
    then have "p = take (length p) (enc_msg m)"
      using Cons.prems by (metis append_eq_conv_conj append_eq_append_conv_if enc_msgs_simps(2) less_imp_le_nat)
    with True have "waiting_rest p (m # ms)" by (auto simp: waiting_rest_def)
    with Cons.prems show ?thesis by (intro exI [of _ "[]"] exI [of _ "m # ms"] exI [of _ p]) simp
  next
    case False
    let ?k = "length (enc_msg m)"
    have "take ?k p = enc_msg m" "drop ?k p @ q = enc_msgs ms"
      using False arg_cong [OF Cons.prems, of "take ?k"] arg_cong [OF Cons.prems, of "drop ?k"]
      by simp_all
    then obtain p1 where p: "p = enc_msg m @ p1" "p1 @ q = enc_msgs ms"
      by (metis append_take_drop_id)
    from Cons.IH [OF p(2)] obtain ms1 ms2 p' where "ms = ms1 @ ms2" "p1 = enc_msgs ms1 @ p'"
      "p' @ q = enc_msgs ms2" "waiting_rest p' ms2" by blast
    with p(1) show ?thesis by (intro exI [of _ "m # ms1"] exI [of _ ms2] exI [of _ p']) simp
  qed
qed

section \<open>Any cutting of the stream\<close>

lemma read_handler_msgs:
  assumes "list_all line_msg ms" "list_all line_msg ms'" "waiting_rest p ms'"
    "input_unprocessed s @ d = enc_msgs ms @ p"
  shows "read_handler d s =
    on_result (with_input p (expires_from_now NO_ACTIVITY_TIMEOUT (no_activity_timer s)) True)
      (run_msgs ms s)"
proof -
  let ?t = "expires_from_now NO_ACTIVITY_TIMEOUT (no_activity_timer s)"
  have "s\<lparr>input_unprocessed := input_unprocessed s @ d, no_activity_timer := ?t\<rparr>
      = with_input (enc_msgs ms @ p) ?t (reading s) s"
    by (simp add: with_input_def assms(4))
  then show ?thesis
    using process_msgs [OF assms(1-3), of ?t "reading s" s]
    by (cases "run_msgs ms s") (simp_all add: read_handler_def)
qed

lemma run_msgs_append: "run_msgs (ms @ ms') s = and_then (run_msgs ms s) (run_msgs ms')"
  by (induction ms arbitrary: s) (simp_all add: and_then_def split: sum.split)

lemma waiting_rest_all: "waiting_rest (enc_msgs ms) ms \<Longrightarrow> ms = []"
  by (cases ms) (auto simp: waiting_rest_def dest!: arg_cong [where f = length])

lemma expires_again [simp]: "expires_from_now x (expires_from_now x t) = expires_from_now x t"
  by (simp add: expires_from_now_def)

lemma read_chunks_msgs:
  assumes "chunks \<noteq> []" "list_all line_msg ms" "input_unprocessed s @ concat chunks = enc_msgs ms"
  shows "read_chunks chunks s =
    on_result (with_input [] (expires_from_now NO_ACTIVITY_TIMEOUT (no_activity_timer s)) True)
      (run_msgs ms s)"
  using assms
proof (induction chunks arbitrary: ms s)
  case (Cons d ds)
  let ?t = "expires_from_now NO_ACTIVITY_TIMEOUT (no_activity_timer s)"
  obtain ms1 ms2 p where sp: "ms = ms1 @ ms2" "input_unprocessed s @ d = enc_msgs ms1 @ p"
    "p @ concat ds = enc_msgs ms2" "waiting_rest p ms2"
    using stream_prefix [of "input_unprocessed s @ d" "concat ds" ms] Cons.prems(3) by auto
  have line: "list_all line_msg ms1" "list_all line_msg ms2" using Cons.prems(2) sp(1) by simp_all
  have head: "read_handler d s = on_result (with_input p ?t True) (run_msgs ms1 s)"
    by (rule read_handler_msgs [OF line sp(4,2)])
  show ?case
  proof (cases "ds = []")
    case True
    then have "ms2 = []" using sp(3,4) waiting_rest_all [of ms2] by simp
    moreover have "p = []" using True sp(3) \<open>ms2 = []\<close> by simp
    ultimately show ?thesis using True head sp(1) by (cases "run_msgs ms1 s") simp_all
  next
    case False
    show ?thesis
    proof (cases "run_msgs ms1 s")
      case (Inl e)
      with head sp(1) show ?thesis by (simp add: run_msgs_append)
    next
      case (Inr s1)
      have "read_chunks ds (with_input p ?t True s1)
          = on_result (with_input [] ?t True) (run_msgs ms2 (with_input p ?t True s1))"
        using Cons.IH [OF False line(2), of "with_input p ?t True s1"] sp(3) by simp
      also have "\<dots> = on_result (with_input [] ?t True) (run_msgs ms2 s1)"
        by (cases "run_msgs ms2 s1") (simp_all add: run_msgs_with_input [OF line(2)])
      finally show ?thesis using head Inr sp(1) by (simp add: run_msgs_append)
    qed
  qed
qed simp

text \<open>C13: Reads may cut the stream anywhere.  However the bytes of a sequence of well-formed messages
  are split into reads, even inside a message, the station ends where handling the messages one by one
  ends, with an empty buffer, the no-activity timer restarted and a read outstanding; or with the same
  error.\<close>

theorem hd_read_any_cutting:
  assumes "chunks \<noteq> []" "list_all line_msg ms" "concat chunks = enc_msgs ms" "input_unprocessed s = []"
  shows "read_chunks chunks s =
    and_then (run_msgs ms s) (\<lambda>s'.
      Inr (s'\<lparr>input_unprocessed := [], reading := True,
             no_activity_timer := expires_from_now NO_ACTIVITY_TIMEOUT (no_activity_timer s)\<rparr>))"
proof -
  have "with_input [] t True s' = s'\<lparr>input_unprocessed := [], reading := True, no_activity_timer := t\<rparr>"
    for t s' by (cases s') (simp add: with_input_def)
  then show ?thesis using read_chunks_msgs [OF assms(1,2)] assms(3,4) by (simp add: on_result_def)
qed

theorem hd_read_any_cutting_witness:
  "\<exists>s'. read_chunks [[EOT, CHR ''a'', CHR ''l''], ''p'', [CHR ''h'', CHR ''a'', ENQ]] (Half_duplex False)
        = Inr s' \<and> hd_state s' = SLAVE_SELECT_RECEIVE"
proof -
  have "list_all line_msg [plain_msg MT_EOT [], plain_msg MT_ENQ ''alpha'']"
    by (simp add: line_msg_def wf_msg_def isgraph_def MAX_PREFIX_LEN_def)
  from hd_read_any_cutting [OF _ this,
      of "[[EOT, CHR ''a'', CHR ''l''], ''p'', [CHR ''h'', CHR ''a'', ENQ]]" "Half_duplex False"]
  show ?thesis
    by (simp add: enc_msg_def Half_duplex_def handle_message_def handle_message_neutral_state_def
        change_state_def)
qed

end
