(* ===== verification/Hd_link.thy ===== *)
theory Hd_link
  imports Hd_stream
begin

text \<open>
  Two stations of \<^verbatim>\<open>halfduplex/Half_duplex.cpp\<close> on the two ends of a cable: \<open>alpha\<close>, constructed as the
  controller, and \<open>bravo\<close>, constructed with \<open>controller = false\<close>.  What one end writes is read by the other
  in pieces of any size: the cutting is a parameter \<open>split_up\<close> of the link, of which only
  \<open>concat (split_up d) = d\<close> is used.
\<close>

section \<open>The line\<close>

type_synonym link = "half_duplex \<times> half_duplex"

definition deliver :: "(string \<Rightarrow> string list) \<Rightarrow> half_duplex \<Rightarrow> half_duplex \<Rightarrow> hd_error + link" where
  "deliver split_up snd_st rcv_st =
     (if port snd_st = [] then Inr (snd_st, rcv_st)
      else case read_chunks (split_up (port snd_st)) rcv_st of
             Inl e \<Rightarrow> Inl e
           | Inr r \<Rightarrow> Inr (snd_st\<lparr>port := []\<rparr>, r))"

text \<open>One exchange: what alpha wrote goes to bravo, then what bravo wrote goes to alpha.\<close>

definition exchange :: "(string \<Rightarrow> string list) \<Rightarrow> link \<Rightarrow> hd_error + link" where
  "exchange split_up l =
     (case deliver split_up (fst l) (snd l) of
        Inl e \<Rightarrow> Inl e
      | Inr (a, b) \<Rightarrow>
          (case deliver split_up b a of Inl e \<Rightarrow> Inl e | Inr (b', a') \<Rightarrow> Inr (a', b')))"

fun exchanges :: "(string \<Rightarrow> string list) \<Rightarrow> nat \<Rightarrow> link \<Rightarrow> hd_error + link" where
  "exchanges split_up 0 l = Inr l"
| "exchanges split_up (Suc n) l =
     (case exchange split_up l of Inl e \<Rightarrow> Inl e | Inr l' \<Rightarrow> exchanges split_up n l')"

lemma deliver_msgs:
  assumes "\<And>d. concat (split_up d) = d" "list_all line_msg ms" "ms \<noteq> []" "port s = enc_msgs ms"
    "input_unprocessed r = []" "run_msgs ms r = Inr r'"
  shows "deliver split_up s r = Inr (s\<lparr>port := []\<rparr>,
    with_input [] (expires_from_now NO_ACTIVITY_TIMEOUT (no_activity_timer r)) True r')"
proof (cases "port s = []")
  case True
  then obtain m where "m \<in> set ms" "enc_msg m = []" "line_msg m"
    using assms(2-4) by (cases ms) auto
  then show ?thesis using parse_enc_msg [of m "[]"] line_msg_type [of m] by auto
next
  case False
  then have "split_up (port s) \<noteq> []" using assms(1) [of "port s"] by auto
  then show ?thesis
    using read_chunks_msgs [of "split_up (port s)" ms r] assms False by (simp add: deliver_def)
qed

section \<open>From the controller to bravo\<close>

abbreviation EOT_msg :: Msg where "EOT_msg \<equiv> plain_msg MT_EOT []"
abbreviation ACK_msg :: Msg where "ACK_msg \<equiv> plain_msg MT_ACK []"
abbreviation ENQ_msg :: "string \<Rightarrow> Msg" where "ENQ_msg p \<equiv> plain_msg MT_ENQ p"

lemma line_msgs [simp]:
  "line_msg EOT_msg" "line_msg ACK_msg" "line_msg (ENQ_msg ''alpha'')" "line_msg (ENQ_msg ''bravo'')"
  by (simp_all add: line_msg_def wf_msg_def isgraph_def MAX_PREFIX_LEN_def)

lemma enc_msg_simps [simp]:
  "enc_msg (plain_msg MT_EOT p) = p @ [EOT]" "enc_msg (plain_msg MT_ACK p) = p @ [ACK]"
  "enc_msg (plain_msg MT_ENQ p) = p @ [ENQ]"
  by (simp_all add: enc_msg_def)

text \<open>A station at rest: \<open>NEUTRAL\<close>, nothing half-read and nothing on its way out.\<close>

definition at_rest :: "half_duplex \<Rightarrow> bool" where
  "at_rest s \<longleftrightarrow> hd_state s = NEUTRAL \<and> input_unprocessed s = [] \<and> port s = []"

text \<open>The information messages that survive the wire: no prefix, no STX and no ETX in the header, no ETX in the text,
  together at most 1548 characters.\<close>

definition sendable :: "Msg \<Rightarrow> bool" where
  "sendable m \<longleftrightarrow> line_msg m \<and> m_type m = MT_INFO"

text \<open>The controller has sent \<open>m\<close> and has \<open>ms\<close> left; bravo has received \<open>got\<close>.\<close>

definition sending :: "Msg \<Rightarrow> Msg list \<Rightarrow> Msg list \<Rightarrow> link \<Rightarrow> bool" where
  "sending m ms got l \<longleftrightarrow>
     hd_state (fst l) = MASTER_INFO_ACK_RECEIVE \<and> input_unprocessed (fst l) = [] \<and>
     port (fst l) = enc_msg m \<and> output_queue (fst l) = ms \<and>
     hd_state (snd l) = SLAVE_INFO_RECEIVE \<and> input_unprocessed (snd l) = [] \<and>
     port (snd l) = [] \<and> input_queue (snd l) = got"

definition finishing :: "Msg list \<Rightarrow> link \<Rightarrow> bool" where
  "finishing got l \<longleftrightarrow>
     hd_state (fst l) = NEUTRAL \<and> input_unprocessed (fst l) = [] \<and>
     port (fst l) = [EOT] \<and> output_queue (fst l) = [] \<and>
     hd_state (snd l) = SLAVE_INFO_RECEIVE \<and> input_unprocessed (snd l) = [] \<and>
     port (snd l) = [] \<and> input_queue (snd l) = got"

text \<open>The master's reaction to an ACK: send the next message or finish.\<close>

lemma master_ack:
  assumes "hd_state a \<in> {MASTER_SELECT_ACK_RECEIVE, MASTER_INFO_ACK_RECEIVE}"
    "list_all sendable (output_queue a)"
  shows "\<exists>a'. run_msgs [ACK_msg] a = Inr a' \<and> controller a' = controller a \<and>
    (case output_queue a of
       [] \<Rightarrow> hd_state a' = NEUTRAL \<and> port a' = port a @ [EOT] \<and> output_queue a' = []
     | m # ms \<Rightarrow> hd_state a' = MASTER_INFO_ACK_RECEIVE \<and> port a' = port a @ enc_msg m \<and> output_queue a' = ms)"
  using assms
  by (cases "output_queue a")
    (auto simp: handle_message_def handle_message_master_select_ack_receive_state_def
      handle_message_master_info_ack_receive_state_def handle_output_queue_msg_and_state_def
      write_output_queue_msg_def state_op_defs sendable_def to_string_line_msg)

lemma slave_info:
  assumes "hd_state b = SLAVE_INFO_RECEIVE" "m_type m = MT_INFO"
  shows "\<exists>b'. run_msgs [m] b = Inr b' \<and> hd_state b' = SLAVE_INFO_RECEIVE \<and>
    port b' = port b @ [ACK] \<and> input_queue b' = input_queue b @ [m]"
  using assms
  by (simp add: handle_message_def handle_message_slave_info_receive_state_def state_op_defs)

lemma exchange_sending:
  assumes split_up: "\<And>d. concat (split_up d) = d" and l: "sending m ms got l"
    and m: "sendable m" and ms: "list_all sendable ms"
  shows "\<exists>l'. exchange split_up l = Inr l' \<and>
    (case ms of [] \<Rightarrow> finishing (got @ [m]) l' | m' # ms' \<Rightarrow> sending m' ms' (got @ [m]) l')"
proof -
  obtain a b where ab: "l = (a, b)" by (cases l)
  note sd = l [unfolded sending_def ab fst_conv snd_conv]
  obtain b1 where b1: "run_msgs [m] b = Inr b1" "hd_state b1 = SLAVE_INFO_RECEIVE"
    "port b1 = [ACK]" "input_queue b1 = got @ [m]"
    using slave_info [of b m] m sd by (auto simp: sendable_def)
  let ?b = "with_input [] (expires_from_now NO_ACTIVITY_TIMEOUT (no_activity_timer b)) True b1"
  let ?a = "a\<lparr>port := []\<rparr>"
  have 1: "deliver split_up a b = Inr (?a, ?b)"
    by (rule deliver_msgs [OF split_up, of "[m]"]) (use m sd b1 in \<open>simp_all add: sendable_def\<close>)
  obtain a1 where a1: "run_msgs [ACK_msg] ?a = Inr a1"
    "case ms of [] \<Rightarrow> hd_state a1 = NEUTRAL \<and> port a1 = [EOT] \<and> output_queue a1 = []
     | m # ms \<Rightarrow> hd_state a1 = MASTER_INFO_ACK_RECEIVE \<and> port a1 = enc_msg m \<and> output_queue a1 = ms"
    using master_ack [of ?a] sd ms by (auto simp del: run_msgs.simps cong: list.case_cong)
  have 2: "deliver split_up ?b ?a = Inr (?b\<lparr>port := []\<rparr>,
      with_input [] (expires_from_now NO_ACTIVITY_TIMEOUT (no_activity_timer ?a)) True a1)"
    by (rule deliver_msgs [OF split_up, of "[ACK_msg]"]) (use sd b1 a1 in simp_all)
  show ?thesis
    using 1 2 a1(2) b1
    by (auto simp: exchange_def ab sending_def finishing_def split: list.splits)
qed

lemma exchange_finishing:
  assumes split_up: "\<And>d. concat (split_up d) = d" and l: "finishing got l"
  shows "\<exists>a b. exchange split_up l = Inr (a, b) \<and> at_rest a \<and> at_rest b \<and> output_queue a = [] \<and>
               input_queue b = got"
proof -
  obtain a b where ab: "l = (a, b)" by (cases l)
  note fi = l [unfolded finishing_def ab fst_conv snd_conv]
  obtain b1 where b1: "run_msgs [EOT_msg] b = Inr b1" "hd_state b1 = NEUTRAL" "port b1 = []"
    "input_queue b1 = got"
    using fi
    by (simp add: handle_message_def handle_message_slave_info_receive_state_def state_op_defs)
  have "deliver split_up a b = Inr (a\<lparr>port := []\<rparr>,
      with_input [] (expires_from_now NO_ACTIVITY_TIMEOUT (no_activity_timer b)) True b1)"
    by (rule deliver_msgs [OF split_up, of "[EOT_msg]"]) (use fi b1 in simp_all)
  with fi b1 show ?thesis by (simp add: exchange_def ab deliver_def at_rest_def)
qed

lemma exchanges_sending:
  assumes "\<And>d. concat (split_up d) = d" "sending m ms got l" "sendable m" "list_all sendable ms"
  shows "\<exists>a b. exchanges split_up (length ms + 2) l = Inr (a, b) \<and> at_rest a \<and> at_rest b \<and>
               output_queue a = [] \<and> input_queue b = got @ m # ms"
  using assms(2-)
proof (induction ms arbitrary: m got l)
  case Nil
  obtain l' where "exchange split_up l = Inr l'" "finishing (got @ [m]) l'"
    using exchange_sending [OF assms(1) Nil] by auto
  then show ?case using exchange_finishing [OF assms(1)] by fastforce
next
  case (Cons m' ms)
  obtain l' where "exchange split_up l = Inr l'" "sending m' ms (got @ [m]) l'"
    using exchange_sending [OF assms(1) Cons.prems] by auto
  with Cons.IH [of m' "got @ [m]" l'] Cons.prems show ?case by fastforce
qed

lemma poll_sends:
  assumes "controller a" "at_rest a" "output_queue a \<noteq> []" "poll a = Inr a1"
  shows "port a1 = enc_msgs [EOT_msg, ENQ_msg ''alpha'', ENQ_msg ''bravo''] \<and>
    hd_state a1 = MASTER_SELECT_ACK_RECEIVE \<and> input_unprocessed a1 = [] \<and>
    output_queue a1 = output_queue a"
  using assms by (auto simp: poll_def Let_def at_rest_def state_op_defs)

lemma bravo_selected:
  assumes "\<not> controller b" "accepting_input b" "at_rest b"
  shows "\<exists>b'. run_msgs [EOT_msg, ENQ_msg ''alpha'', ENQ_msg ''bravo''] b = Inr b' \<and>
    hd_state b' = SLAVE_INFO_RECEIVE \<and> port b' = [ACK] \<and> input_queue b' = input_queue b"
  using assms
  by (simp add: handle_message_def handle_message_neutral_state_def at_rest_def
      handle_message_slave_select_receive_state_def state_op_defs)

lemma exchange_select:
  assumes split_up: "\<And>d. concat (split_up d) = d"
    and a: "controller a" "at_rest a" "output_queue a = m # ms" "list_all sendable (m # ms)"
    and b: "\<not> controller b" "accepting_input b" "at_rest b"
    and p: "poll a = Inr a1"
  shows "\<exists>l'. exchange split_up (a1, b) = Inr l' \<and> sending m ms (input_queue b) l'"
proof -
  note a1 = poll_sends [OF a(1,2) _ p]
  obtain b1 where b1: "run_msgs [EOT_msg, ENQ_msg ''alpha'', ENQ_msg ''bravo''] b = Inr b1"
    "hd_state b1 = SLAVE_INFO_RECEIVE" "port b1 = [ACK]" "input_queue b1 = input_queue b"
    using bravo_selected [OF b] by blast
  let ?b = "with_input [] (expires_from_now NO_ACTIVITY_TIMEOUT (no_activity_timer b)) True b1"
  let ?a = "a1\<lparr>port := []\<rparr>"
  have 1: "deliver split_up a1 b = Inr (?a, ?b)"
    by (rule deliver_msgs [OF split_up, of "[EOT_msg, ENQ_msg ''alpha'', ENQ_msg ''bravo'']"])
      (use a a1 b(3) b1 in \<open>simp_all add: at_rest_def\<close>)
  obtain a2 where a2: "run_msgs [ACK_msg] ?a = Inr a2" "hd_state a2 = MASTER_INFO_ACK_RECEIVE"
    "port a2 = enc_msg m" "output_queue a2 = ms"
    using master_ack [of ?a] a a1 by (auto simp del: run_msgs.simps)
  have 2: "deliver split_up ?b ?a = Inr (?b\<lparr>port := []\<rparr>,
      with_input [] (expires_from_now NO_ACTIVITY_TIMEOUT (no_activity_timer ?a)) True a2)"
    by (rule deliver_msgs [OF split_up, of "[ACK_msg]"]) (use a a1 b1 a2 in simp_all)
  show ?thesis using 1 2 a2 b1 by (auto simp: exchange_def sending_def)
qed

text \<open>Delivery of the whole output queue of the controller.\<close>

lemma link_delivers:
  assumes "\<And>d. concat (split_up d) = d"
    "controller a" "at_rest a" "output_queue a = m # ms" "list_all sendable (m # ms)"
    "\<not> controller b" "accepting_input b" "at_rest b" "poll a = Inr a1"
  shows "\<exists>a' b'. exchanges split_up (length ms + 3) (a1, b) = Inr (a', b') \<and>
    input_queue b' = input_queue b @ m # ms \<and> output_queue a' = [] \<and> at_rest a' \<and> at_rest b'"
proof -
  obtain l where l: "exchange split_up (a1, b) = Inr l" "sending m ms (input_queue b) l"
    using exchange_select [OF assms] by blast
  have "exchanges split_up (length ms + 3) (a1, b) = exchanges split_up (length ms + 2) l"
    using l(1) by (simp add: numeral_3_eq_3)
  then show ?thesis
    using exchanges_sending [OF assms(1) l(2)] assms(5) by fastforce
qed

text \<open>C1: End-to-end delivery.  Both stations at rest, bravo accepting, and the messages in the controller's output queue
  such as survive the wire: headers without STX and ETX, texts without ETX, together at most 1548
  characters each, which \<open>enqueue_message\<close> does not check.  After the controller's poll, as many exchanges as there
  are messages and two more bring every message of its output queue into bravo's input queue, in order, none lost
  and none doubled, and both stations back to rest, however the line cuts the bytes into reads.\<close>

theorem hd_link_delivers:
  assumes "\<And>d. concat (split_up d) = d"
    "controller a" "at_rest a" "output_queue a = m # ms" "list_all sendable (m # ms)"
    "\<not> controller b" "accepting_input b" "at_rest b" "poll a = Inr a1"
  shows "\<exists>a' b'. exchanges split_up (length ms + 3) (a1, b) = Inr (a', b') \<and>
    input_queue b' = input_queue b @ m # ms \<and> output_queue a' = [] \<and> at_rest a' \<and> at_rest b'"
  by (rule link_delivers [OF assms])

text \<open>A line that delivers byte by byte, and a concrete run.\<close>

definition bytewise :: "string \<Rightarrow> string list" where
  "bytewise d = map (\<lambda>c. [c]) d"

lemma concat_bytewise: "concat (bytewise d) = d"
  by (induction d) (simp_all add: bytewise_def)

theorem hd_link_delivers_witness:
  "\<exists>a1 a' b'. poll (enqueue_message ''h'' ''b'' (Half_duplex True)) = Inr a1 \<and>
    exchanges bytewise 3 (a1, Half_duplex False) = Inr (a', b') \<and>
    input_queue b' = [info_msg ''h'' ''b''] \<and> output_queue a' = [] \<and> at_rest a' \<and> at_rest b'"
proof -
  let ?a = "enqueue_message ''h'' ''b'' (Half_duplex True)"
  have a: "controller ?a" "at_rest ?a" "output_queue ?a = [info_msg ''h'' ''b'']"
    "list_all sendable [info_msg ''h'' ''b'']"
    by (simp_all add: enqueue_message_def Half_duplex_def at_rest_def sendable_def line_msg_def
        wf_msg_def control_chars MAX_MESSAGE_LEN_def MAX_PREFIX_LEN_def)
  have b: "\<not> controller (Half_duplex False)" "accepting_input (Half_duplex False)"
    "at_rest (Half_duplex False)" "input_queue (Half_duplex False) = []"
    by (simp_all add: Half_duplex_def at_rest_def)
  obtain a1 where "poll ?a = Inr a1"
    using a by (auto simp: poll_def Let_def at_rest_def)
  with hd_link_delivers [OF concat_bytewise a b(1-3) this] b(4) show ?thesis by auto
qed

section \<open>From bravo to the controller\<close>

text \<open>All the link may do: either station's timers and application calls, and delivery either way.\<close>

inductive link_step :: "(string \<Rightarrow> string list) \<Rightarrow> link \<Rightarrow> link \<Rightarrow> bool" for split_up where
  Alpha: "hd_local a a' \<Longrightarrow> link_step split_up (a, b) (a', b)"
| Bravo: "hd_local b b' \<Longrightarrow> link_step split_up (a, b) (a, b')"
| To_bravo: "port a \<noteq> [] \<Longrightarrow> deliver split_up a b = Inr (a', b') \<Longrightarrow> link_step split_up (a, b) (a', b')"
| To_alpha: "port b \<noteq> [] \<Longrightarrow> deliver split_up b a = Inr (b', a') \<Longrightarrow> link_step split_up (a, b) (a', b')"

inductive link_reach :: "(string \<Rightarrow> string list) \<Rightarrow> link \<Rightarrow> link \<Rightarrow> bool" for split_up where
  Here: "link_reach split_up l l"
| Further: "link_reach split_up l l' \<Longrightarrow> link_step split_up l' l'' \<Longrightarrow> link_reach split_up l l''"

text \<open>Each station waits for the other and no timer is running that would end it.\<close>

definition stalled :: "State \<Rightarrow> State \<Rightarrow> link \<Rightarrow> bool" where
  "stalled x y l \<longleftrightarrow> x \<noteq> NEUTRAL \<and> y \<noteq> NEUTRAL \<and>
     hd_state (fst l) = x \<and> port (fst l) = [] \<and> waits (no_response_timer (fst l)) = 0 \<and>
     hd_state (snd l) = y \<and> port (snd l) = [] \<and> waits (no_response_timer (snd l)) = 0"

lemma local_waiting:
  assumes "hd_local s s'" "hd_state s \<noteq> NEUTRAL" "waits (no_response_timer s) = 0"
  shows "hd_state s' = hd_state s \<and> port s' = port s \<and> no_response_timer s' = no_response_timer s \<and>
         (\<exists>ms. output_queue s' = output_queue s @ ms) \<and> (\<exists>k. input_queue s' = drop k (input_queue s))"
  using assms(1)
proof cases
  case Poll
  then show ?thesis using assms(2) by (auto simp: poll_def Let_def intro: exI [of _ 0])
next
  case (No_response ec)
  then show ?thesis using assms(3) by simp
next
  case (Enqueue header body)
  then show ?thesis by (auto simp: enqueue_message_def intro: exI [of _ 0])
next
  case (Get header body ret header' body')
  then show ?thesis
    by (cases "input_queue s") (auto simp: get_next_message_def intro: exI [of _ 0] exI [of _ 1])
qed

text \<open>Queues of a stalled link: the applications may put messages in at one end and take them out at the other.\<close>

definition queues_wait :: "half_duplex \<Rightarrow> half_duplex \<Rightarrow> bool" where
  "queues_wait s s' \<longleftrightarrow> (\<exists>ms. output_queue s' = output_queue s @ ms) \<and> (\<exists>k. input_queue s' = drop k (input_queue s))"

lemma queues_wait_refl [simp]: "queues_wait s s"
  by (auto simp: queues_wait_def intro: exI [of _ 0])

lemma queues_wait_trans: "queues_wait s s' \<Longrightarrow> queues_wait s' s'' \<Longrightarrow> queues_wait s s''"
  by (auto simp: queues_wait_def)

lemma stalled_step:
  assumes "link_step split_up l l'" "stalled x y l"
  shows "stalled x y l' \<and> queues_wait (fst l) (fst l') \<and> queues_wait (snd l) (snd l')"
  using assms
proof (induction rule: link_step.induct)
  case (Alpha a a' b)
  then show ?case using local_waiting [of a a'] by (auto simp: stalled_def queues_wait_def [of a a'])
next
  case (Bravo b b' a)
  then show ?case using local_waiting [of b b'] by (auto simp: stalled_def queues_wait_def [of b b'])
qed (simp_all add: stalled_def)

lemma stalled_forever:
  assumes "link_reach split_up l l'" "stalled x y l"
  shows "stalled x y l' \<and> queues_wait (fst l) (fst l') \<and> queues_wait (snd l) (snd l')"
  using assms
proof (induction rule: link_reach.induct)
  case (Further l l' l'')
  then show ?case using stalled_step [OF Further(2)] queues_wait_trans by blast
qed simp

lemma alpha_polls_bravo:
  assumes "controller a" "at_rest a" "output_queue a = []" "poll a = Inr a1"
  shows "port a1 = enc_msgs [EOT_msg, ENQ_msg ''bravo''] \<and> controller a1 \<and>
    hd_state a1 = SLAVE_SELECT_RECEIVE \<and> input_unprocessed a1 = [] \<and>
    no_response_timer a1 = no_response_timer a \<and> output_queue a1 = [] \<and> input_queue a1 = input_queue a"
  using assms by (auto simp: poll_def Let_def at_rest_def state_op_defs)

lemma exchange_poll_bravo:
  assumes split_up: "\<And>d. concat (split_up d) = d"
    and a: "controller a" "at_rest a" "output_queue a = []"
    and b: "at_rest b" and p: "poll a = Inr a1"
  shows "\<exists>a' b'. exchange split_up (a1, b) = Inr (a', b') \<and> port a' = [] \<and> port b' = [] \<and>
    no_response_timer a' = no_response_timer a \<and> no_response_timer b' = no_response_timer b \<and>
    output_queue b' = output_queue b \<and> input_queue a' = input_queue a \<and>
    (if output_queue b = [] then hd_state a' = NEUTRAL \<and> hd_state b' = NEUTRAL
     else hd_state a' = SLAVE_SELECT_RECEIVE \<and> hd_state b' = MASTER_SELECT_ACK_RECEIVE)"
proof -
  note a1 = alpha_polls_bravo [OF a p]
  let ?reply = "if output_queue b = [] then EOT_msg else ENQ_msg ''alpha''"
  obtain b1 where b1: "run_msgs [EOT_msg, ENQ_msg ''bravo''] b = Inr b1" "port b1 = enc_msg ?reply"
    "output_queue b1 = output_queue b" "no_response_timer b1 = no_response_timer b"
    "hd_state b1 = (if output_queue b = [] then NEUTRAL else MASTER_SELECT_ACK_RECEIVE)"
    using b
    by (cases "output_queue b = []")
      (simp_all add: handle_message_def handle_message_neutral_state_def at_rest_def state_op_defs)
  let ?b = "with_input [] (expires_from_now NO_ACTIVITY_TIMEOUT (no_activity_timer b)) True b1"
  let ?a = "a1\<lparr>port := []\<rparr>"
  have 1: "deliver split_up a1 b = Inr (?a, ?b)"
    by (rule deliver_msgs [OF split_up, of "[EOT_msg, ENQ_msg ''bravo'']"])
      (use a1 b b1 in \<open>simp_all add: at_rest_def\<close>)
  obtain a2 where a2: "run_msgs [?reply] ?a = Inr a2" "port a2 = []" "input_queue a2 = input_queue a"
    "no_response_timer a2 = no_response_timer a"
    "hd_state a2 = (if output_queue b = [] then NEUTRAL else SLAVE_SELECT_RECEIVE)"
    using a1 by (cases "output_queue b = []")
      (simp_all add: handle_message_def handle_message_slave_select_receive_state_def state_op_defs)
  have 2: "deliver split_up ?b ?a = Inr (?b\<lparr>port := []\<rparr>,
      with_input [] (expires_from_now NO_ACTIVITY_TIMEOUT (no_activity_timer ?a)) True a2)"
    by (rule deliver_msgs [OF split_up, of "[?reply]"]) (use a1 b1 a2 in simp_all)
  show ?thesis using 1 2 a2 b1 by (auto simp: exchange_def)
qed

text \<open>When neither station has anything to send, the controller's poll is answered by EOT and
  after one exchange both stations are back at \<open>NEUTRAL\<close> with nothing on the line.\<close>

theorem hd_link_idle_poll:
  assumes "\<And>d. concat (split_up d) = d" "controller a" "at_rest a" "output_queue a = []"
    "at_rest b" "output_queue b = []" "poll a = Inr a1"
  shows "\<exists>a' b'. exchange split_up (a1, b) = Inr (a', b') \<and> port a' = [] \<and> port b' = [] \<and>
    hd_state a' = NEUTRAL \<and> hd_state b' = NEUTRAL"
  using exchange_poll_bravo [OF assms(1-5,7)] assms(6) by auto

lemma rest_init: "at_rest (Half_duplex c)" "controller (Half_duplex c) = c"
  "output_queue (Half_duplex c) = []" "waits (no_response_timer (Half_duplex c)) = 0"
  "input_queue (Half_duplex c) = []"
  by (simp_all add: at_rest_def Half_duplex_def idle_timer_def)

lemma poll_total: "at_rest a \<Longrightarrow> \<exists>a1. poll a = Inr a1"
  by (simp add: poll_def Let_def at_rest_def)

theorem hd_link_idle_poll_witness:
  "\<exists>a1 a' b'. poll (Half_duplex True) = Inr a1 \<and>
    exchange bytewise (a1, Half_duplex False) = Inr (a', b') \<and> hd_state a' = NEUTRAL \<and> hd_state b' = NEUTRAL"
proof -
  obtain a1 where p: "poll (Half_duplex True) = Inr a1" using poll_total rest_init(1) by blast
  from hd_link_idle_poll [OF concat_bytewise _ _ _ _ _ this, of "Half_duplex False"]
  show ?thesis using p by (auto simp: rest_init)
qed

text \<open>C18: The other direction deadlocks.  When the controller polls while only bravo has messages, the
  exchange leaves the controller in \<open>SLAVE_SELECT_RECEIVE\<close>, where it ignores bravo's select, and bravo
  waiting for the acknowledgement; from then on, whatever the timers, the applications and the line do,
  no station ever writes another byte, every message of bravo stays in its queue and nothing arrives at
  the controller.\<close>

theorem hd_link_bravo_starves:
  assumes "\<And>d. concat (split_up d) = d" "controller a" "at_rest a" "output_queue a = []"
    "at_rest b" "output_queue b \<noteq> []" "poll a = Inr a1"
    "waits (no_response_timer a) = 0" "waits (no_response_timer b) = 0" "input_queue a = []"
  shows "\<exists>l. exchange split_up (a1, b) = Inr l \<and>
    (\<forall>a' b'. link_reach split_up l (a', b') \<longrightarrow>
       port a' = [] \<and> port b' = [] \<and> input_queue a' = [] \<and>
       (\<exists>ms. output_queue b' = output_queue b @ ms) \<and>
       hd_state a' = SLAVE_SELECT_RECEIVE \<and> hd_state b' = MASTER_SELECT_ACK_RECEIVE)"
proof -
  obtain a2 b2 where l: "exchange split_up (a1, b) = Inr (a2, b2)"
    "stalled SLAVE_SELECT_RECEIVE MASTER_SELECT_ACK_RECEIVE (a2, b2)"
    "output_queue b2 = output_queue b" "input_queue a2 = []"
    using exchange_poll_bravo [OF assms(1-5,7)] assms(6,8-10) by (auto simp: stalled_def)
  have "port a' = [] \<and> port b' = [] \<and> input_queue a' = [] \<and>
       (\<exists>ms. output_queue b' = output_queue b @ ms) \<and>
       hd_state a' = SLAVE_SELECT_RECEIVE \<and> hd_state b' = MASTER_SELECT_ACK_RECEIVE"
    if "link_reach split_up (a2, b2) (a', b')" for a' b'
    using stalled_forever [OF that l(2)] l(3,4) by (auto simp: stalled_def queues_wait_def)
  with l(1) show ?thesis by blast
qed

theorem hd_link_bravo_starves_witness:
  "\<exists>a1 l. poll (Half_duplex True) = Inr a1 \<and>
    exchange bytewise (a1, enqueue_message [] ''x'' (Half_duplex False)) = Inr l \<and>
    (\<forall>a' b'. link_reach bytewise l (a', b') \<longrightarrow> port b' = [] \<and> input_queue a' = [])"
proof -
  let ?b = "enqueue_message [] ''x'' (Half_duplex False)"
  have b: "at_rest ?b" "output_queue ?b \<noteq> []" "waits (no_response_timer ?b) = 0"
    by (simp_all add: enqueue_message_def at_rest_def Half_duplex_def idle_timer_def)
  obtain a1 where p: "poll (Half_duplex True) = Inr a1" using poll_total rest_init(1) by blast
  from hd_link_bravo_starves [OF concat_bytewise _ rest_init(1) rest_init(3) b(1,2) p rest_init(4) b(3)
      rest_init(5)] p show ?thesis by (auto simp: rest_init)
qed

end
