(* ===== verification/Hd_demo.thy ===== *)
theory Hd_demo
  imports Hd_link
begin

text \<open>
  The program of the half-duplex driver, \<^verbatim>\<open>halfduplex/main.cpp\<close>: a controller station that is given four
  messages a second after its start.
\<close>

definition demo_timer_handler :: "bool \<Rightarrow> half_duplex \<Rightarrow> half_duplex" where
  "demo_timer_handler ec com =
     (if \<not> ec then
        (let (ret, header, body, com) = get_next_message [] [] com;
             com = enqueue_message ''poop'' ''fart'' com;
             com = enqueue_message ''poop'' ''fart'' com;
             com = enqueue_message ''poop'' ''fart'' com
         in enqueue_message ''poop'' ''fart'' com)
      else com)"

definition demo_main :: half_duplex where "demo_main = demo_timer_handler False (Half_duplex True)"

text \<open>The driver delivers its messages: to a station at rest that accepts input, the four messages come
  over in six exchanges after the next poll, and both stations rest again.\<close>

theorem demo_delivers:
  assumes "\<And>d. concat (split_up d) = d" "\<not> controller b" "accepting_input b" "at_rest b"
  shows "\<exists>a1 a' b'. poll demo_main = Inr a1 \<and> exchanges split_up 6 (a1, b) = Inr (a', b') \<and>
    input_queue b' = input_queue b @ replicate 4 (info_msg ''poop'' ''fart'') \<and> at_rest a' \<and> at_rest b'"
proof -
  let ?m = "info_msg ''poop'' ''fart''"
  have a: "controller demo_main" "at_rest demo_main" "output_queue demo_main = ?m # replicate 3 ?m"
    "list_all sendable (?m # replicate 3 ?m)"
    by (simp_all add: demo_main_def demo_timer_handler_def get_next_message_def enqueue_message_def Half_duplex_def
        at_rest_def sendable_def line_msg_def wf_msg_def control_chars MAX_MESSAGE_LEN_def MAX_PREFIX_LEN_def
        numeral_3_eq_3)
  obtain a1 where poll: "poll demo_main = Inr a1" using poll_total [OF a(2)] by blast
  have n: "length (replicate 3 ?m) + 3 = 6" "replicate 4 ?m = ?m # replicate 3 ?m" by (simp_all add: numeral_eq_Suc)
  show ?thesis using link_delivers [OF assms(1) a assms(2-4) poll] poll unfolding n by blast
qed

end
