(* ===== verification/Hd_fault.thy ===== *)
theory Hd_fault
  imports Hd_link "HOL-Library.Sublist"
begin

text \<open>
  The two stations of \<open>Hd_link\<close> on a line with faults: messages that are delayed or lost, information
  messages that arrive damaged.
\<close>

section \<open>A line that loses messages\<close>

text \<open>
  The two stations, the messages alpha's application has enqueued and those bravo's application has
  taken out, in order.  The line keeps the order of what it carries, delivers it in pieces and at any
  later time, and may lose any of the messages.
\<close>

type_synonym lossy = "link \<times> Msg list \<times> Msg list"

inductive lossy_step :: "(string \<Rightarrow> string list) \<Rightarrow> lossy \<Rightarrow> lossy \<Rightarrow> bool" for split_up where
  Send: "sendable (info_msg h x) \<Longrightarrow>
    lossy_step split_up ((a, b), sent, got) ((enqueue_message h x a, b), sent @ [info_msg h x], got)"
| Alpha: "hd_local a a' \<Longrightarrow> output_queue a' = output_queue a \<Longrightarrow>
    lossy_step split_up ((a, b), sent, got) ((a', b), sent, got)"
| Bravo: "hd_local b b' \<Longrightarrow> input_queue b' = input_queue b \<Longrightarrow>
    lossy_step split_up ((a, b), sent, got) ((a, b'), sent, got)"
| Take: "input_queue b = m # ms \<Longrightarrow> get_next_message h x b = (True, h', x', b') \<Longrightarrow>
    lossy_step split_up ((a, b), sent, got) ((a, b'), sent, got @ [m])"
| To_bravo: "port a = enc_msgs (ms @ later) \<Longrightarrow> list_all line_msg (ms @ later) \<Longrightarrow> subseq ms' ms \<Longrightarrow>
    deliver split_up (a\<lparr>port := enc_msgs ms'\<rparr>) b = Inr (a', b') \<Longrightarrow>
    lossy_step split_up ((a, b), sent, got) ((a'\<lparr>port := enc_msgs later\<rparr>, b'), sent, got)"
| To_alpha: "port b = enc_msgs (ms @ later) \<Longrightarrow> list_all line_msg (ms @ later) \<Longrightarrow> subseq ms' ms \<Longrightarrow>
    deliver split_up (b\<lparr>port := enc_msgs ms'\<rparr>) a = Inr (b', a') \<Longrightarrow>
    lossy_step split_up ((a, b), sent, got) ((a', b'\<lparr>port := enc_msgs later\<rparr>), sent, got)"

inductive lossy_reach :: "(string \<Rightarrow> string list) \<Rightarrow> lossy \<Rightarrow> bool" for split_up where
  Start: "lossy_reach split_up ((Half_duplex True, Half_duplex False), [], [])"
| Further: "lossy_reach split_up l \<Longrightarrow> lossy_step split_up l l' \<Longrightarrow> lossy_reach split_up l'"

abbreviation infos :: "Msg list \<Rightarrow> Msg list" where
  "infos ms \<equiv> filter (\<lambda>m. m_type m = MT_INFO) ms"

text \<open>What each station may have written, and what each of them knows while only such messages arrive.\<close>

definition from_alpha :: "Msg \<Rightarrow> bool" where
  "from_alpha m \<longleftrightarrow> line_msg m \<and> m_type m \<in> {MT_EOT, MT_ENQ, MT_INFO}"

definition from_bravo :: "Msg \<Rightarrow> bool" where
  "from_bravo m \<longleftrightarrow> line_msg m \<and> m_type m \<in> {MT_EOT, MT_ENQ, MT_ACK}"

definition alpha_ok :: "half_duplex \<Rightarrow> Msg list \<Rightarrow> bool" where
  "alpha_ok a pa \<longleftrightarrow> controller a \<and> input_unprocessed a = [] \<and> hd_state a \<noteq> SLAVE_INFO_RECEIVE \<and>
     list_all sendable (output_queue a) \<and> port a = enc_msgs pa \<and> list_all from_alpha pa"

definition bravo_ok :: "half_duplex \<Rightarrow> Msg list \<Rightarrow> bool" where
  "bravo_ok b pb \<longleftrightarrow> \<not> controller b \<and> accepting_input b \<and> input_unprocessed b = [] \<and>
     hd_state b \<noteq> MASTER_INFO_ACK_RECEIVE \<and> port b = enc_msgs pb \<and> list_all from_bravo pb"

lemma from_msgs [simp]:
  "from_alpha EOT_msg" "from_alpha (ENQ_msg ''alpha'')" "from_alpha (ENQ_msg ''bravo'')"
  "from_bravo EOT_msg" "from_bravo (ENQ_msg ''alpha'')" "from_bravo ACK_msg"
  "sendable m \<Longrightarrow> from_alpha m"
  by (simp_all add: from_alpha_def from_bravo_def sendable_def)

lemma from_line: "list_all from_alpha ms \<Longrightarrow> list_all line_msg ms" "list_all from_bravo ms \<Longrightarrow> list_all line_msg ms"
  by (auto simp: list_all_iff from_alpha_def from_bravo_def)

lemma subseq_list_all: "subseq xs ys \<Longrightarrow> list_all P ys \<Longrightarrow> list_all P xs"
  by (auto simp: list_all_iff elim: list_emb_set)

lemma enc_msg_nonempty: "line_msg m \<Longrightarrow> enc_msg m \<noteq> []"
  using parse_enc_msg [of m "[]"] line_msg_type [of m] by auto

lemma enc_msgs_inject:
  assumes "list_all line_msg ms" "list_all line_msg ms'" "enc_msgs ms = enc_msgs ms'"
  shows "ms = ms'"
  using assms
proof (induction ms arbitrary: ms')
  case Nil
  then show ?case using enc_msg_nonempty by (cases ms') auto
next
  case (Cons m ms)
  show ?case
  proof (cases ms')
    case Nil
    then show ?thesis using Cons.prems enc_msg_nonempty by auto
  next
    case ms': (Cons m' ms'')
    then have "enc_msg m @ enc_msgs ms = enc_msg m' @ enc_msgs ms''" using Cons.prems(3) by simp
    then have "Some (m, enc_msgs ms) = Some (m', enc_msgs ms'')"
      using Cons.prems(1,2) ms' by (simp only: list.pred_inject flip: parse_enc_msg)
    then show ?thesis using Cons.IH [of ms''] Cons.prems ms' by simp
  qed
qed

text \<open>One message handled by alpha: what it sends and what stays queued is what was queued.\<close>

definition alpha_moves :: "half_duplex \<Rightarrow> half_duplex \<Rightarrow> Msg list \<Rightarrow> bool" where
  "alpha_moves a a' out \<longleftrightarrow> port a' = port a @ enc_msgs out \<and> list_all from_alpha out \<and>
     infos out @ output_queue a' = output_queue a \<and> controller a' = controller a \<and>
     input_unprocessed a' = input_unprocessed a \<and> hd_state a' \<noteq> SLAVE_INFO_RECEIVE"

lemma alpha_moves_ok:
  assumes "alpha_ok a pa" "alpha_moves a a' out"
  shows "alpha_ok a' (pa @ out)"
proof -
  have "output_queue a = infos out @ output_queue a'" using assms(2) by (simp add: alpha_moves_def)
  with assms show ?thesis by (simp add: alpha_ok_def alpha_moves_def)
qed

lemma alpha_next:
  assumes "handle_output_queue_msg_and_state a = Inr a'" "list_all sendable (output_queue a)"
  shows "\<exists>out. alpha_moves a a' out"
proof (cases "output_queue a")
  case Nil
  then show ?thesis
    using assms(1)
    by (intro exI [of _ "[EOT_msg]"])
      (auto simp: alpha_moves_def handle_output_queue_msg_and_state_def state_op_defs)
next
  case (Cons m ms)
  then have "sendable m" using assms(2) by simp
  with Cons show ?thesis
    using assms(1)
    by (intro exI [of _ "[m]"])
      (auto simp: alpha_moves_def handle_output_queue_msg_and_state_def write_output_queue_msg_def
        state_op_defs sendable_def to_string_line_msg from_alpha_def)
qed

lemma alpha_message:
  assumes "alpha_ok a pa" "from_bravo m" "handle_message m a = Inr a'"
  shows "\<exists>out. alpha_moves a a' out"
proof -
  have a: "controller a" "hd_state a \<noteq> SLAVE_INFO_RECEIVE" "list_all sendable (output_queue a)"
    using assms(1) by (simp_all add: alpha_ok_def)
  have quiet: "\<exists>out. alpha_moves a a' out"
    if "port a' = port a @ enc_msgs out" "out \<in> {[], [EOT_msg], [ENQ_msg ''alpha'']}"
      "output_queue a' = output_queue a" "controller a' = controller a"
      "input_unprocessed a' = input_unprocessed a" "hd_state a' \<noteq> SLAVE_INFO_RECEIVE" for out
    using that by (intro exI [of _ out]) (auto simp: alpha_moves_def)
  consider (info) "hd_state a = MASTER_INFO_ACK_RECEIVE" "m_type m = MT_ACK"
    | (select) "hd_state a = MASTER_SELECT_ACK_RECEIVE" "m_type m = MT_ACK"
    | (other) "\<not> (hd_state a \<in> {MASTER_INFO_ACK_RECEIVE, MASTER_SELECT_ACK_RECEIVE} \<and> m_type m = MT_ACK)"
    by blast
  then show ?thesis
  proof cases
    case info
    then show ?thesis
      using assms(3) a alpha_next [of "a\<lparr>no_response_timer := timer_cancel (no_response_timer a), info_nak_count := 0\<rparr>" a']
      by (auto simp: handle_message_def handle_message_master_info_ack_receive_state_def alpha_moves_def)
  next
    case select
    then show ?thesis
      using assms(3) a alpha_next [of "a\<lparr>enq_nak_count := 0\<rparr>" a']
      by (auto simp: handle_message_def handle_message_master_select_ack_receive_state_def alpha_moves_def)
  next
    case other
    then show ?thesis
      using assms(2,3) a quiet [of "[]"] quiet [of "[EOT_msg]"] quiet [of "[ENQ_msg ''alpha'']"]
      by (cases "hd_state a")
        (auto simp: handle_message_def handler_defs state_op_defs from_bravo_def split: if_splits)
  qed
qed

text \<open>One message handled by bravo: information messages are queued, each once.\<close>

lemma bravo_message:
  assumes "bravo_ok b pb" "from_alpha m" "handle_message m b = Inr b'"
  shows "(\<exists>out. bravo_ok b' (pb @ out)) \<and> input_queue b' = input_queue b @ infos [m]"
proof -
  have b: "\<not> controller b" "accepting_input b" "hd_state b \<noteq> MASTER_INFO_ACK_RECEIVE"
    using assms(1) by (simp_all add: bravo_ok_def)
  have "(\<exists>out \<in> {[], [EOT_msg], [ENQ_msg ''alpha''], [ACK_msg]}. port b' = port b @ enc_msgs out) \<and>
      input_queue b' = input_queue b @ infos [m] \<and> \<not> controller b' \<and> accepting_input b' \<and>
      input_unprocessed b' = input_unprocessed b \<and> hd_state b' \<noteq> MASTER_INFO_ACK_RECEIVE"
    using assms(2,3) b
    by (cases "hd_state b")
      (auto simp: handle_message_def handler_defs state_op_defs from_alpha_def split: if_splits)
  then show ?thesis
    using assms(1) by (auto simp: bravo_ok_def intro: exI [of _ "[]"] exI [of _ "[EOT_msg]"] exI [of _ "[ENQ_msg ''alpha'']"] exI [of _ "[ACK_msg]"])
qed

lemma alpha_run:
  assumes "alpha_ok a pa" "list_all from_bravo ms" "run_msgs ms a = Inr a'"
  shows "\<exists>out. alpha_ok a' (pa @ out) \<and> infos out @ output_queue a' = output_queue a"
  using assms
proof (induction ms arbitrary: a pa)
  case Nil
  then show ?case by (intro exI [of _ "[]"]) simp
next
  case (Cons m ms)
  then obtain a1 where a1: "handle_message m a = Inr a1" "run_msgs ms a1 = Inr a'"
    by (auto simp: and_then_Inr)
  obtain out where out: "alpha_moves a a1 out" using alpha_message [OF Cons.prems(1) _ a1(1)] Cons.prems(2) by auto
  obtain out' where "alpha_ok a' ((pa @ out) @ out')" "infos out' @ output_queue a' = output_queue a1"
    using Cons.IH [OF alpha_moves_ok [OF Cons.prems(1) out] _ a1(2)] Cons.prems(2) by auto
  moreover have "infos out @ output_queue a1 = output_queue a" using out by (simp add: alpha_moves_def)
  ultimately show ?case by (intro exI [of _ "out @ out'"]) (simp add: append_assoc)
qed

lemma bravo_run:
  assumes "bravo_ok b pb" "list_all from_alpha ms" "run_msgs ms b = Inr b'"
  shows "(\<exists>out. bravo_ok b' (pb @ out)) \<and> input_queue b' = input_queue b @ infos ms"
  using assms
proof (induction ms arbitrary: b pb)
  case Nil
  then show ?case by (auto intro: exI [of _ "[]"])
next
  case (Cons m ms)
  then obtain b1 where b1: "handle_message m b = Inr b1" "run_msgs ms b1 = Inr b'"
    by (auto simp: and_then_Inr)
  obtain out where "bravo_ok b1 (pb @ out)" "input_queue b1 = input_queue b @ infos [m]"
    using bravo_message [OF Cons.prems(1) _ b1(1)] Cons.prems(2) by auto
  moreover from Cons.IH [OF this(1) _ b1(2)] Cons.prems(2)
  obtain out' where "bravo_ok b' ((pb @ out) @ out')" "input_queue b' = input_queue b1 @ infos ms" by auto
  ultimately show ?case by (auto intro!: exI [of _ "out @ out'"])
qed

lemma ok_with_input [simp]:
  "alpha_ok a pa \<Longrightarrow> alpha_ok (with_input [] t r a) pa"
  "bravo_ok b pb \<Longrightarrow> bravo_ok (with_input [] t r b) pb"
  by (simp_all add: alpha_ok_def bravo_ok_def)

lemma ok_port:
  "alpha_ok a pa \<Longrightarrow> list_all from_alpha ms \<Longrightarrow> alpha_ok (a\<lparr>port := enc_msgs ms\<rparr>) ms"
  "bravo_ok b pb \<Longrightarrow> list_all from_bravo ms \<Longrightarrow> bravo_ok (b\<lparr>port := enc_msgs ms\<rparr>) ms"
  by (simp_all add: alpha_ok_def bravo_ok_def)

lemma deliver_inv:
  assumes "\<And>d. concat (split_up d) = d" "list_all line_msg ms" "input_unprocessed r = []"
    "deliver split_up (s\<lparr>port := enc_msgs ms\<rparr>) r = Inr (s', r')"
  shows "s' = s\<lparr>port := []\<rparr> \<and> (\<exists>r1. run_msgs ms r = Inr r1 \<and> (r' = r1 \<or> (\<exists>t. r' = with_input [] t True r1)))"
proof (cases "ms = []")
  case True
  then show ?thesis using assms(4) by (simp add: deliver_def)
next
  case False
  then have "enc_msgs ms \<noteq> []" using assms(2) enc_msg_nonempty by (cases ms) auto
  moreover from this have "split_up (enc_msgs ms) \<noteq> []" using assms(1) [of "enc_msgs ms"] by auto
  moreover note read_chunks_msgs [of "split_up (enc_msgs ms)" ms r] assms
  ultimately show ?thesis
    by (cases "run_msgs ms r") (auto simp: deliver_def)
qed

lemma ok_writes:
  "alpha_ok (a\<lparr>port := p\<rparr>) pa \<Longrightarrow> port a = p @ enc_msgs out \<Longrightarrow> list_all from_alpha out \<Longrightarrow> alpha_ok a (pa @ out)"
  "bravo_ok (b\<lparr>port := p\<rparr>) pb \<Longrightarrow> port b = p @ enc_msgs out \<Longrightarrow> list_all from_bravo out \<Longrightarrow> bravo_ok b (pb @ out)"
  by (simp_all add: alpha_ok_def bravo_ok_def)

lemma alpha_local:
  assumes "hd_local a a'" "output_queue a' = output_queue a" "alpha_ok a pa"
  shows "\<exists>out. alpha_ok a' (pa @ out) \<and> infos out = []"
  using assms(1)
proof cases
  case Poll
  have "\<exists>out \<in> {[], [EOT_msg, ENQ_msg ''alpha'', ENQ_msg ''bravo''], [EOT_msg, ENQ_msg ''bravo'']}.
      port a' = port a @ enc_msgs out \<and> alpha_ok (a'\<lparr>port := port a\<rparr>) pa"
    using Poll assms(3)
    by (auto simp: poll_def Let_def state_op_defs alpha_ok_def split: if_splits)
  then obtain out where out: "alpha_ok (a'\<lparr>port := port a\<rparr>) pa" "port a' = port a @ enc_msgs out"
      "out \<in> {[], [EOT_msg], [EOT_msg, ENQ_msg ''alpha'', ENQ_msg ''bravo''], [EOT_msg, ENQ_msg ''bravo'']}"
    by blast
  moreover from out(3) have "list_all from_alpha out" "infos out = []" by auto
  ultimately show ?thesis using ok_writes(1) by blast
next
  case (No_response ec)
  have "\<exists>out \<in> {[], [EOT_msg]}. port a' = port a @ enc_msgs out \<and> alpha_ok (a'\<lparr>port := port a\<rparr>) pa"
    using No_response assms(3)
    by (auto simp: on_master_select_no_response_timeout_def state_op_defs alpha_ok_def split: if_splits)
  then obtain out where out: "alpha_ok (a'\<lparr>port := port a\<rparr>) pa" "port a' = port a @ enc_msgs out"
      "out \<in> {[], [EOT_msg], [EOT_msg, ENQ_msg ''alpha'', ENQ_msg ''bravo''], [EOT_msg, ENQ_msg ''bravo'']}"
    by blast
  moreover from out(3) have "list_all from_alpha out" "infos out = []" by auto
  ultimately show ?thesis using ok_writes(1) by blast
next
  case (Enqueue header body)
  then show ?thesis using assms(2) by (simp add: enqueue_message_def)
next
  case (Get header body ret header' body')
  then show ?thesis
    using assms(3) by (auto simp: get_next_message_def alpha_ok_def split: list.splits intro!: exI [of _ "[]"])
qed

lemma bravo_local:
  assumes "hd_local b b'" "bravo_ok b pb"
  shows "\<exists>out. bravo_ok b' (pb @ out)"
  using assms(1)
proof cases
  case Poll
  then show ?thesis
    using assms(2) by (auto simp: poll_def Let_def bravo_ok_def split: if_splits intro!: exI [of _ "[]"])
next
  case (No_response ec)
  have "\<exists>out \<in> {[], [EOT_msg]}. port b' = port b @ enc_msgs out \<and> bravo_ok (b'\<lparr>port := port b\<rparr>) pb"
    using No_response assms(2)
    by (auto simp: on_master_select_no_response_timeout_def state_op_defs bravo_ok_def split: if_splits)
  then obtain out where out: "bravo_ok (b'\<lparr>port := port b\<rparr>) pb" "port b' = port b @ enc_msgs out" "out \<in> {[], [EOT_msg]}"
    by blast
  moreover from out(3) have "list_all from_bravo out" by auto
  ultimately show ?thesis using ok_writes(2) by blast
next
  case (Enqueue header body)
  then show ?thesis using assms(2) by (auto simp: enqueue_message_def bravo_ok_def intro!: exI [of _ "[]"])
next
  case (Get header body ret header' body')
  then show ?thesis
    using assms(2) by (auto simp: get_next_message_def bravo_ok_def split: list.splits intro!: exI [of _ "[]"])
qed

text \<open>What bravo's application has got, what bravo holds, what is on its way and what alpha has queued.\<close>

definition lossy_inv :: "lossy \<Rightarrow> bool" where
  "lossy_inv l \<longleftrightarrow> (case l of ((a, b), sent, got) \<Rightarrow>
     \<exists>pa pb. alpha_ok a pa \<and> bravo_ok b pb \<and>
       subseq (got @ input_queue b @ infos pa @ output_queue a) sent)"

lemma lossy_to_bravo:
  assumes "\<And>d. concat (split_up d) = d" "alpha_ok a pa" "bravo_ok b pb"
    "port a = enc_msgs (ms @ later)" "list_all line_msg (ms @ later)" "subseq ms' ms"
    "deliver split_up (a\<lparr>port := enc_msgs ms'\<rparr>) b = Inr (a', b')"
  shows "alpha_ok (a'\<lparr>port := enc_msgs later\<rparr>) later \<and> (\<exists>pb'. bravo_ok b' pb') \<and> output_queue a' = output_queue a \<and>
    subseq (input_queue b' @ infos later) (input_queue b @ infos pa)"
proof -
  have pa: "pa = ms @ later"
    using enc_msgs_inject [of pa "ms @ later"] assms(2,4,5) from_line(1) by (auto simp: alpha_ok_def)
  have fr: "list_all from_alpha ms'" "list_all from_alpha later"
    using subseq_list_all [OF assms(6), of from_alpha] assms(2) pa by (simp_all add: alpha_ok_def)
  obtain b1 where b1: "run_msgs ms' b = Inr b1" "a' = a\<lparr>port := []\<rparr>" "b' = b1 \<or> (\<exists>t. b' = with_input [] t True b1)"
    using deliver_inv [OF assms(1) from_line(1) [OF fr(1)] _ assms(7)] assms(3) by (auto simp: bravo_ok_def)
  obtain out where out: "bravo_ok b1 (pb @ out)" "input_queue b1 = input_queue b @ infos ms'"
    using bravo_run [OF assms(3) fr(1) b1(1)] by blast
  have "alpha_ok (a\<lparr>port := enc_msgs later\<rparr>) later" using ok_port(1) [OF assms(2) fr(2)] .
  moreover have "subseq (infos ms') (infos ms)" using assms(6) by (rule subseq_filter)
  ultimately show ?thesis
    using b1(2,3) out pa by (auto simp: list_emb_append_mono intro!: exI [of _ "pb @ out"])
qed

lemma lossy_to_alpha:
  assumes "\<And>d. concat (split_up d) = d" "alpha_ok a pa" "bravo_ok b pb"
    "port b = enc_msgs (ms @ later)" "list_all line_msg (ms @ later)" "subseq ms' ms"
    "deliver split_up (b\<lparr>port := enc_msgs ms'\<rparr>) a = Inr (b', a')"
  shows "bravo_ok (b'\<lparr>port := enc_msgs later\<rparr>) later \<and> input_queue b' = input_queue b \<and>
    (\<exists>pa'. alpha_ok a' pa' \<and> infos pa' @ output_queue a' = infos pa @ output_queue a)"
proof -
  have pb: "pb = ms @ later"
    using enc_msgs_inject [of pb "ms @ later"] assms(3,4,5) from_line(2) by (auto simp: bravo_ok_def)
  have fr: "list_all from_bravo ms'" "list_all from_bravo later"
    using subseq_list_all [OF assms(6), of from_bravo] assms(3) pb by (simp_all add: bravo_ok_def)
  obtain a1 where a1: "run_msgs ms' a = Inr a1" "b' = b\<lparr>port := []\<rparr>" "a' = a1 \<or> (\<exists>t. a' = with_input [] t True a1)"
    using deliver_inv [OF assms(1) from_line(2) [OF fr(1)] _ assms(7)] assms(2) by (auto simp: alpha_ok_def)
  obtain out where out: "alpha_ok a1 (pa @ out)" "infos out @ output_queue a1 = output_queue a"
    using alpha_run [OF assms(2) fr(1) a1(1)] by blast
  have "bravo_ok (b\<lparr>port := enc_msgs later\<rparr>) later" using ok_port(2) [OF assms(3) fr(2)] .
  with a1(2,3) out show ?thesis by (auto intro!: exI [of _ "pa @ out"])
qed

lemma lossy_step_inv:
  assumes "\<And>d. concat (split_up d) = d" "lossy_step split_up l l'" "lossy_inv l"
  shows "lossy_inv l'"
  using assms(2,3)
proof (induction rule: lossy_step.induct)
  case (Send h x a b sent got)
  then obtain pa pb where "alpha_ok a pa" "bravo_ok b pb" "subseq (got @ input_queue b @ infos pa @ output_queue a) sent"
    by (auto simp: lossy_inv_def)
  moreover from this Send.hyps have "alpha_ok (enqueue_message h x a) pa"
    by (simp add: alpha_ok_def enqueue_message_def)
  ultimately show ?case
    using list_emb_append_mono [of "(=)" "got @ input_queue b @ infos pa @ output_queue a" sent "[info_msg h x]" "[info_msg h x]"]
    by (auto simp: lossy_inv_def enqueue_message_def)
next
  case (Alpha a a' b sent got)
  then obtain pa pb where l: "alpha_ok a pa" "bravo_ok b pb" "subseq (got @ input_queue b @ infos pa @ output_queue a) sent"
    by (auto simp: lossy_inv_def)
  obtain out where "alpha_ok a' (pa @ out)" "infos out = []" using alpha_local [OF Alpha.hyps l(1)] by blast
  with l Alpha.hyps(2) show ?case
    unfolding lossy_inv_def prod.case by (intro exI [of _ "pa @ out"] exI [of _ pb]) simp
next
  case (Bravo b b' a sent got)
  then show ?case using bravo_local [OF Bravo.hyps(1)] by (fastforce simp: lossy_inv_def)
next
  case (Take b m ms h x h' x' b' a sent got)
  then show ?case
    by (auto simp: lossy_inv_def get_next_message_def bravo_ok_def) blast
next
  case (To_bravo a ms later ms' b a' b' sent got)
  then obtain pa pb where l: "alpha_ok a pa" "bravo_ok b pb" "subseq (got @ input_queue b @ infos pa @ output_queue a) sent"
    by (auto simp: lossy_inv_def)
  note d = lossy_to_bravo [OF assms(1) l(1,2) To_bravo.hyps]
  then have "subseq (got @ (input_queue b' @ infos later) @ output_queue a') (got @ (input_queue b @ infos pa) @ output_queue a)"
    by (simp only: subseq_append subseq_append')
  with d l(3) show ?case
    by (fastforce simp: lossy_inv_def intro: subseq_order.order_trans)
next
  case (To_alpha b ms later ms' a b' a' sent got)
  then obtain pa pb where l: "alpha_ok a pa" "bravo_ok b pb" "subseq (got @ input_queue b @ infos pa @ output_queue a) sent"
    by (auto simp: lossy_inv_def)
  from lossy_to_alpha [OF assms(1) l(1,2) To_alpha.hyps] l(3) show ?case
    by (auto simp: lossy_inv_def)
qed

lemma lossy_reach_inv:
  assumes "\<And>d. concat (split_up d) = d" "lossy_reach split_up l"
  shows "lossy_inv l"
  using assms(2)
proof (induction rule: lossy_reach.induct)
  case Start
  have "alpha_ok (Half_duplex True) []" "bravo_ok (Half_duplex False) []"
    by (simp_all add: alpha_ok_def bravo_ok_def Half_duplex_def)
  then show ?case by (auto simp: lossy_inv_def rest_init)
next
  case (Further l l')
  then show ?case using lossy_step_inv [OF assms(1)] by blast
qed

text \<open>C8: At most once and in order, on a line that loses messages.  Whatever the line loses or delays,
  whatever the timers do and whenever the applications act, what bravo's application has taken, what
  bravo still holds and what is still in alpha's output queue are together a subsequence of what alpha's
  application has enqueued: nothing is doubled, reordered or made up.  The applications enqueue messages that survive the
  wire: headers without STX and ETX, texts without ETX, together at most 1548 characters; others arrive cut short.\<close>

theorem hd_lossy_in_order:
  assumes "\<And>d. concat (split_up d) = d" "lossy_reach split_up ((a, b), sent, got)"
  shows "subseq (got @ input_queue b @ output_queue a) sent"
proof -
  obtain pa where "subseq (got @ input_queue b @ infos pa @ output_queue a) sent"
    using lossy_reach_inv [OF assms] by (auto simp: lossy_inv_def)
  moreover have "subseq (got @ input_queue b @ output_queue a) (got @ input_queue b @ infos pa @ output_queue a)"
    by (intro list_emb_append_mono) auto
  ultimately show ?thesis by (rule subseq_order.order_trans [rotated])
qed

text \<open>An exchange of the faultless line is a possible behaviour of this one.\<close>

lemma port_same: "port s = p \<Longrightarrow> s\<lparr>port := p\<rparr> = s"
  by (cases s) simp

lemma lossy_exchange:
  assumes "\<And>d. concat (split_up d) = d" "lossy_reach split_up ((a, b), sent, got)"
    "exchange split_up (a, b) = Inr (a2, b2)"
  shows "lossy_reach split_up ((a2, b2), sent, got)"
proof -
  obtain a1 b1 where d: "deliver split_up a b = Inr (a1, b1)" "deliver split_up b1 a1 = Inr (b2, a2)"
    using assms(3) by (auto simp: exchange_def split: sum.splits)
  obtain pa where pa: "port a = enc_msgs pa" "list_all line_msg pa"
    using lossy_reach_inv [OF assms(1,2)] from_line by (auto simp: lossy_inv_def alpha_ok_def)
  have "deliver split_up (a\<lparr>port := enc_msgs pa\<rparr>) b = Inr (a1, b1)"
    by (simp only: d(1) port_same [OF pa(1)])
  then have "lossy_step split_up ((a, b), sent, got) ((a1\<lparr>port := enc_msgs []\<rparr>, b1), sent, got)"
    by (rule lossy_step.To_bravo [of a pa "[]" pa, rotated 3]) (use pa in simp_all)
  moreover have "port a1 = []" using d(1) by (auto simp: deliver_def split: if_splits sum.splits)
  ultimately have r1: "lossy_reach split_up ((a1, b1), sent, got)"
    by (intro lossy_reach.Further [OF assms(2)]) (simp add: port_same)
  obtain pb where pb: "port b1 = enc_msgs pb" "list_all line_msg pb"
    using lossy_reach_inv [OF assms(1) r1] from_line by (auto simp: lossy_inv_def bravo_ok_def)
  have "deliver split_up (b1\<lparr>port := enc_msgs pb\<rparr>) a1 = Inr (b2, a2)"
    by (simp only: d(2) port_same [OF pb(1)])
  then have "lossy_step split_up ((a1, b1), sent, got) ((a2, b2\<lparr>port := enc_msgs []\<rparr>), sent, got)"
    by (rule lossy_step.To_alpha [of b1 pb "[]" pb, rotated 3]) (use pb in simp_all)
  moreover have "port b2 = []" using d(2) by (auto simp: deliver_def split: if_splits sum.splits)
  ultimately show ?thesis by (intro lossy_reach.Further [OF r1]) (simp add: port_same)
qed

text \<open>A run in which the second of three messages is lost.\<close>

lemma sendable_letter: "sendable (info_msg [] [CHR ''x''])" "sendable (info_msg [] [CHR ''y''])" "sendable (info_msg [] [CHR ''z''])"
  by (simp_all add: sendable_def line_msg_def wf_msg_def control_chars MAX_MESSAGE_LEN_def MAX_PREFIX_LEN_def)

lemma accepting_init: "accepting_input (Half_duplex c)"
  by (simp add: Half_duplex_def)

theorem hd_lossy_in_order_witness:
  "\<exists>a b. lossy_reach bytewise ((a, b), [info_msg [] ''x'', info_msg [] ''y'', info_msg [] ''z''], []) \<and>
     port a = [] \<and> input_queue b = [info_msg [] ''x''] \<and> output_queue a = [info_msg [] ''z''] \<and>
     subseq ([] @ input_queue b @ output_queue a) [info_msg [] ''x'', info_msg [] ''y'', info_msg [] ''z'']"
proof -
  let ?x = "info_msg [] ''x''" and ?y = "info_msg [] ''y''" and ?z = "info_msg [] ''z''"
  let ?a = "enqueue_message [] ''z'' (enqueue_message [] ''y'' (enqueue_message [] ''x'' (Half_duplex True)))"
  let ?b = "Half_duplex False" and ?sent = "[?x, ?y, ?z]"
  note more = lossy_reach.Further
  have "lossy_reach bytewise ((?a, ?b), (([] @ [?x]) @ [?y]) @ [?z], [])"
    by (rule more [OF more [OF more [OF lossy_reach.Start]]]) (rule lossy_step.Send, rule sendable_letter)+
  then have r0: "lossy_reach bytewise ((?a, ?b), ?sent, [])" by simp
  let ?polled = "?a\<lparr>poll_timer := take_wait (poll_timer ?a)\<rparr>"
  have a0: "at_rest ?polled" "controller ?polled" "output_queue ?polled = ?x # [?y, ?z]" "waits (poll_timer ?a) > 0"
    by (simp_all add: enqueue_message_def Half_duplex_def at_rest_def async_wait_def take_wait_def expires_from_now_def)
  obtain a1 where p: "poll ?polled = Inr a1" using poll_total a0(1) by blast
  have "hd_local ?a a1" using a0(4) p by (rule hd_local.Poll)
  moreover have "output_queue a1 = output_queue ?a" using poll_sends [OF a0(2,1) _ p] a0(3) by simp
  ultimately have r1: "lossy_reach bytewise ((a1, ?b), ?sent, [])"
    by (intro more [OF r0] lossy_step.Alpha)
  obtain a2 b2 where l2: "exchange bytewise (a1, ?b) = Inr (a2, b2)" "sending ?x [?y, ?z] (input_queue ?b) (a2, b2)"
    using exchange_select [OF concat_bytewise a0(2,1,3) _ _ _ _ p, of ?b] sendable_letter
    by (auto simp: rest_init accepting_init)
  obtain a3 b3 where l3: "exchange bytewise (a2, b2) = Inr (a3, b3)" "sending ?y [?z] [?x] (a3, b3)"
    using exchange_sending [OF concat_bytewise l2(2)] sendable_letter by (auto simp: rest_init)
  have r3: "lossy_reach bytewise ((a3, b3), ?sent, [])"
    by (rule lossy_exchange [OF concat_bytewise lossy_exchange [OF concat_bytewise r1 l2(1)] l3(1)])
  have "lossy_step bytewise ((a3, b3), ?sent, []) ((a3\<lparr>port := [], port := enc_msgs []\<rparr>, b3), ?sent, [])"
    by (rule lossy_step.To_bravo [of _ "[?y]" _ "[]"])
      (use l3(2) sendable_letter(2) in \<open>simp_all add: sending_def sendable_def deliver_def\<close>)
  then have r4: "lossy_reach bytewise ((a3\<lparr>port := []\<rparr>, b3), ?sent, [])" using more [OF r3] by simp
  moreover have "input_queue b3 = [?x]" "output_queue (a3\<lparr>port := []\<rparr>) = [?z]"
    using l3(2) by (simp_all add: sending_def)
  ultimately show ?thesis
    using hd_lossy_in_order [OF concat_bytewise r4] by (intro exI [of _ "a3\<lparr>port := []\<rparr>"] exI [of _ b3]) simp
qed

section \<open>A lost message\<close>

text \<open>Handling messages starts no waits on the timer of a selection.\<close>

lemma handle_message_waits:
  assumes "handle_message m s = Inr s'"
  shows "waits (no_response_timer s') = waits (no_response_timer s)"
proof -
  have "waits (no_response_timer s') = waits (no_response_timer s)"
    if "handle_output_queue_msg_and_state s = Inr s'" for s s'
    using that
    by (auto simp: handle_output_queue_msg_and_state_def write_output_queue_msg_def state_op_defs and_then_Inr
        split: if_splits list.splits option.splits)
  note out = this
  show ?thesis
    using assms
    by (auto simp: handle_message_def handler_defs state_op_defs retransmit_def timer_cancel_def Let_def
        dest!: out split: State.splits if_splits option.splits)
qed

lemma run_msgs_waits:
  "run_msgs ms s = Inr s' \<Longrightarrow> waits (no_response_timer s') = waits (no_response_timer s)"
  by (induction ms arbitrary: s) (auto simp: and_then_Inr dest!: handle_message_waits)

lemma process_input_waits:
  "process_input s = Inr s' \<Longrightarrow> waits (no_response_timer s') = waits (no_response_timer s)"
proof (induction s rule: process_input.induct)
  case (1 s)
  note eq = "1.prems" [unfolded process_input.simps [of s]]
  then show ?case
    using "1.IH"
    by (auto simp: Let_def split: option.splits prod.splits if_splits sum.splits dest!: handle_message_waits)
qed

lemma read_chunks_waits:
  "read_chunks ds s = Inr s' \<Longrightarrow> waits (no_response_timer s') = waits (no_response_timer s)"
  by (induction ds arbitrary: s)
    (auto simp: and_then_Inr read_handler_def Let_def dest!: process_input_waits)

lemma exchange_waits:
  assumes "exchange split_up (a, b) = Inr (a', b')"
  shows "waits (no_response_timer a') = waits (no_response_timer a) \<and>
         waits (no_response_timer b') = waits (no_response_timer b)"
  using assms
  by (auto simp: exchange_def deliver_def split: sum.splits if_splits prod.splits dest!: read_chunks_waits)

text \<open>C20: A lost message stalls the link for good.  The second of the messages of one transmission is lost;
  the timer of the selection, which the acknowledgement of the first one cancelled, has run its handler.
  From then on, whatever the timers, the applications and the line do, neither station writes another
  byte; the lost message is not in alpha's queue any more and will never be sent again, and those behind
  it stay in the queue.\<close>

theorem hd_lost_message_stalls:
  assumes "\<And>d. concat (split_up d) = d"
    "controller a" "at_rest a" "output_queue a = m1 # m2 # ms" "list_all sendable (m1 # m2 # ms)"
    "\<not> controller b" "accepting_input b" "at_rest b" "poll a = Inr a1"
    "waits (no_response_timer a) = 0" "waits (no_response_timer b) = 0"
  shows "\<exists>a2 a3 b2. exchanges split_up 2 (a1, b) = Inr (a2, b2) \<and>
    port a2 = enc_msg m2 \<and> input_queue b2 = input_queue b @ [m1] \<and>
    on_master_select_no_response_timeout True (a2\<lparr>no_response_timer := take_wait (no_response_timer a2)\<rparr>) = Inr a3 \<and>
    (\<forall>a' b'. link_reach split_up (a3\<lparr>port := []\<rparr>, b2) (a', b') \<longrightarrow>
       port a' = [] \<and> port b' = [] \<and> (\<exists>more. output_queue a' = ms @ more) \<and>
       (\<exists>k. input_queue b' = drop k (input_queue b @ [m1])))"
proof -
  obtain l1 where l1: "exchange split_up (a1, b) = Inr l1" "sending m1 (m2 # ms) (input_queue b) l1"
    using exchange_select [OF assms(1-9)] by blast
  obtain a2 b2 where l2: "exchange split_up l1 = Inr (a2, b2)" "sending m2 ms (input_queue b @ [m1]) (a2, b2)"
    using exchange_sending [OF assms(1) l1(2)] assms(5) by auto
  have "waits (no_response_timer a1) = 1"
    using assms(2,3,4,9,10)
    by (auto simp: poll_def Let_def at_rest_def state_op_defs async_wait_def expires_from_now_def)
  then have waits: "waits (no_response_timer a2) = 1" "waits (no_response_timer b2) = 0"
    using exchange_waits [of split_up "fst l1" "snd l1" a2 b2] exchange_waits [of split_up a1 b "fst l1" "snd l1"]
      l1(1) l2(1) assms(11) by auto
  let ?a3 = "a2\<lparr>no_response_timer := take_wait (no_response_timer a2)\<rparr>"
  have "stalled MASTER_INFO_ACK_RECEIVE SLAVE_INFO_RECEIVE (?a3\<lparr>port := []\<rparr>, b2)"
    using l2(2) waits by (simp add: stalled_def sending_def take_wait_def)
  then have "port a' = [] \<and> port b' = [] \<and> (\<exists>more. output_queue a' = ms @ more) \<and>
       (\<exists>k. input_queue b' = drop k (input_queue b @ [m1]))"
    if "link_reach split_up (?a3\<lparr>port := []\<rparr>, b2) (a', b')" for a' b'
    using stalled_forever [OF that] l2(2) by (auto simp: stalled_def queues_wait_def sending_def)
  moreover have "exchanges split_up 2 (a1, b) = Inr (a2, b2)" using l1(1) l2(1) by (simp add: numeral_2_eq_2)
  moreover have "port a2 = enc_msg m2" "input_queue b2 = input_queue b @ [m1]"
    using l2(2) by (simp_all add: sending_def)
  ultimately show ?thesis
    by (intro exI [of _ a2] exI [of _ ?a3] exI [of _ b2]) (simp add: on_master_select_no_response_timeout_def)
qed

theorem hd_lost_message_stalls_witness:
  "\<exists>a1 a2 a3 b2. poll (enqueue_message [] ''y'' (enqueue_message [] ''x'' (Half_duplex True))) = Inr a1 \<and>
    exchanges bytewise 2 (a1, Half_duplex False) = Inr (a2, b2) \<and>
    on_master_select_no_response_timeout True (a2\<lparr>no_response_timer := take_wait (no_response_timer a2)\<rparr>) = Inr a3 \<and>
    (\<forall>a' b'. link_reach bytewise (a3\<lparr>port := []\<rparr>, b2) (a', b') \<longrightarrow> port a' = [])"
proof -
  let ?a = "enqueue_message [] ''y'' (enqueue_message [] ''x'' (Half_duplex True))"
  have a: "controller ?a" "at_rest ?a" "output_queue ?a = info_msg [] ''x'' # info_msg [] ''y'' # []"
    "waits (no_response_timer ?a) = 0"
    by (simp_all add: enqueue_message_def Half_duplex_def at_rest_def idle_timer_def)
  obtain a1 where p: "poll ?a = Inr a1" using poll_total a(2) by blast
  from hd_lost_message_stalls [OF concat_bytewise a(1-3) _ _ accepting_init rest_init(1) p a(4) rest_init(4)] p
  show ?thesis using sendable_letter by (fastforce simp: rest_init)
qed

section \<open>Messages that arrive damaged\<close>

abbreviation NAK_msg :: Msg where "NAK_msg \<equiv> plain_msg MT_NAK []"

text \<open>Damage that leaves no message behind: the scanner takes everything that arrived for one malformed message.\<close>

definition garbled :: "string \<Rightarrow> bool" where
  "garbled d \<longleftrightarrow> (case parse_input d of Some (m, rest) \<Rightarrow> m_type m = MT_MALFORMED \<and> rest = [] | None \<Rightarrow> False)"

text \<open>What alpha wrote is lost and bravo reads \<open>d\<close> instead; bravo's answer goes to alpha.\<close>

definition garbled_exchange :: "(string \<Rightarrow> string list) \<Rightarrow> string \<Rightarrow> link \<Rightarrow> hd_error + link" where
  "garbled_exchange split_up d l =
     (case read_handler d (snd l) of
        Inl e \<Rightarrow> Inl e
      | Inr b \<Rightarrow>
          (case deliver split_up b ((fst l)\<lparr>port := []\<rparr>) of Inl e \<Rightarrow> Inl e | Inr (b', a') \<Rightarrow> Inr (a', b')))"

fun garbled_exchanges :: "(string \<Rightarrow> string list) \<Rightarrow> string list \<Rightarrow> link \<Rightarrow> hd_error + link" where
  "garbled_exchanges split_up [] l = Inr l"
| "garbled_exchanges split_up (d # ds) l =
     (case garbled_exchange split_up d l of Inl e \<Rightarrow> Inl e | Inr l' \<Rightarrow> garbled_exchanges split_up ds l')"

lemma bravo_garbled:
  assumes "garbled d" "hd_state b = SLAVE_INFO_RECEIVE" "input_unprocessed b = []"
  shows "\<exists>b'. read_handler d b = Inr b' \<and> hd_state b' = SLAVE_INFO_RECEIVE \<and> input_unprocessed b' = [] \<and>
    port b' = port b @ [NAK] \<and> input_queue b' = input_queue b"
proof -
  obtain m where "parse_input d = Some (m, [])" "m_type m = MT_MALFORMED"
    using assms(1) by (auto simp: garbled_def split: option.splits)
  then show ?thesis
    using assms(2,3)
    by (simp add: read_handler_def process_input_msg process_input_empty handle_message_def
        handle_message_slave_info_receive_state_def state_op_defs)
qed

lemma garbled_exchange_retransmits:
  assumes "\<And>d. concat (split_up d) = d" "garbled d" "sending m ms got l" "sendable m"
    "last_message (fst l) = Some m" "info_nak_count (fst l) + 1 < MAX_INFO_TRIES"
  shows "\<exists>l'. garbled_exchange split_up d l = Inr l' \<and> sending m ms got l' \<and>
    last_message (fst l') = Some m \<and> info_nak_count (fst l') = info_nak_count (fst l) + 1"
proof -
  obtain a b where ab: "l = (a, b)" by (cases l)
  note sd = assms(3) [unfolded sending_def ab fst_conv snd_conv]
  obtain b1 where b1: "read_handler d b = Inr b1" "hd_state b1 = SLAVE_INFO_RECEIVE" "input_unprocessed b1 = []"
    "port b1 = [NAK]" "input_queue b1 = got"
    using bravo_garbled [OF assms(2), of b] sd by auto
  let ?a = "a\<lparr>port := []\<rparr>"
  obtain a1 where a1: "run_msgs [NAK_msg] ?a = Inr a1" "hd_state a1 = MASTER_INFO_ACK_RECEIVE" "port a1 = enc_msg m"
    "output_queue a1 = ms" "last_message a1 = Some m" "info_nak_count a1 = info_nak_count a + 1"
    using sd assms(4-6) ab
    by (auto simp: handle_message_def handle_message_master_info_ack_receive_state_def retransmit_def
        asio_write_def sendable_def to_string_line_msg Let_def)
  have "deliver split_up b1 ?a = Inr (b1\<lparr>port := []\<rparr>,
      with_input [] (expires_from_now NO_ACTIVITY_TIMEOUT (no_activity_timer ?a)) True a1)"
    by (rule deliver_msgs [OF assms(1), of "[NAK_msg]"])
      (use sd b1 a1 in \<open>simp_all add: line_msg_def wf_msg_def enc_msg_def\<close>)
  then show ?thesis using ab b1 a1 by (simp add: garbled_exchange_def sending_def)
qed

lemma garbled_exchanges_retransmit:
  assumes "\<And>d. concat (split_up d) = d" "list_all garbled ds" "sending m ms got l" "sendable m"
    "last_message (fst l) = Some m" "info_nak_count (fst l) + length ds < MAX_INFO_TRIES"
  shows "\<exists>l'. garbled_exchanges split_up ds l = Inr l' \<and> sending m ms got l'"
  using assms(2-)
proof (induction ds arbitrary: l)
  case (Cons d ds)
  then obtain l1 where "garbled_exchange split_up d l = Inr l1" "sending m ms got l1"
    "last_message (fst l1) = Some m" "info_nak_count (fst l1) = info_nak_count (fst l) + 1"
    using garbled_exchange_retransmits [OF assms(1), of d m ms got l] by auto
  with Cons.IH [of l1] Cons.prems show ?case by simp
qed simp

text \<open>C19: Damaged messages are sent again.  While alpha transmits, a message may arrive several times in a
  row as something the scanner calls malformed; each time bravo answers NAK and alpha sends it again, as long as alpha
  has counted fewer than twenty NAKs since the last ACK of a message, those of earlier transmissions included.  When
  the message then gets through, it and all the messages behind it are delivered, once each and in order.  The
  messages are such as survive the wire: headers without STX and ETX, texts without ETX, together at most
  1548 characters.\<close>

theorem hd_damaged_sent_again:
  assumes "\<And>d. concat (split_up d) = d" "list_all garbled ds" "info_nak_count (fst l) + length ds < MAX_INFO_TRIES"
    "sending m ms got l" "list_all sendable (m # ms)" "last_message (fst l) = Some m"
  shows "\<exists>l' a b. garbled_exchanges split_up ds l = Inr l' \<and> exchanges split_up (length ms + 2) l' = Inr (a, b) \<and>
    input_queue b = got @ m # ms \<and> output_queue a = [] \<and> at_rest a \<and> at_rest b"
proof -
  obtain l' where "garbled_exchanges split_up ds l = Inr l'" "sending m ms got l'"
    using garbled_exchanges_retransmit [OF assms(1,2,4)] assms(3,5,6) by auto
  then show ?thesis using exchanges_sending [OF assms(1)] assms(5) by fastforce
qed

theorem hd_damaged_sent_again_witness:
  "let m = info_msg [] ''x'';
       l = ((Half_duplex True)\<lparr>hd_state := MASTER_INFO_ACK_RECEIVE, port := enc_msg m, last_message := Some m\<rparr>,
            (Half_duplex False)\<lparr>hd_state := SLAVE_INFO_RECEIVE\<rparr>)
   in \<exists>l' a b. garbled_exchanges bytewise (replicate 19 [CHR 0x07, STX, CHR ''x'', ETX, CHR 0x7C]) l = Inr l' \<and>
        exchanges bytewise 2 l' = Inr (a, b) \<and> input_queue b = [m]"
proof -
  let ?m = "info_msg [] ''x''"
  let ?l = "((Half_duplex True)\<lparr>hd_state := MASTER_INFO_ACK_RECEIVE, port := enc_msg ?m, last_message := Some ?m\<rparr>,
             (Half_duplex False)\<lparr>hd_state := SLAVE_INFO_RECEIVE\<rparr>)"
  have "garbled [CHR 0x07, STX, CHR ''x'', ETX, CHR 0x7C]" by code_simp
  then have "list_all garbled (replicate 19 [CHR 0x07, STX, CHR ''x'', ETX, CHR 0x7C])"
    by (simp add: list_all_iff)
  moreover have "sending ?m [] [] ?l" by (simp add: sending_def Half_duplex_def)
  ultimately have "\<exists>l' a b. garbled_exchanges bytewise (replicate 19 [CHR 0x07, STX, CHR ''x'', ETX, CHR 0x7C]) ?l = Inr l' \<and>
      exchanges bytewise (length ([] :: Msg list) + 2) l' = Inr (a, b) \<and> input_queue b = [] @ ?m # [] \<and>
      output_queue a = [] \<and> at_rest a \<and> at_rest b"
    by (intro hd_damaged_sent_again [OF concat_bytewise])
      (simp_all add: sendable_letter MAX_INFO_TRIES_def Half_duplex_def)
  then show ?thesis unfolding Let_def by (auto simp: numeral_2_eq_2)
qed

text \<open>Damage inside the text of a message: everything but ETX is taken as text.\<close>

lemma enc_info: "enc_msg (info_msg h x) = info_frame h [] @ x @ [ETX, bcc_char (bcc_sum (tl (info_frame h x) @ [ETX]) 0)]"
  by (simp add: enc_msg_def to_string_info) (simp add: info_frame_def)

lemma bravo_damaged:
  assumes "sendable (info_msg h x)" "hd_state b = SLAVE_INFO_RECEIVE" "input_unprocessed b = []" "k < length x" "c \<noteq> ETX"
  shows "\<exists>b'. read_handler ((enc_msg (info_msg h x))[length (info_frame h []) + k := c]) b = Inr b' \<and>
    hd_state b' = SLAVE_INFO_RECEIVE \<and> input_unprocessed b' = [] \<and>
    port b' = port b @ [ACK] \<and> input_queue b' = input_queue b @ [info_msg h (x[k := c])]"
proof -
  let ?m = "info_msg h (x[k := c])"
  let ?d = "(enc_msg (info_msg h x))[length (info_frame h []) + k := c]"
  obtain e where "?d = info_frame h (x[k := c]) @ ETX # e # []"
    using assms(4) by (auto simp: enc_info list_update_append info_frame_def)
  moreover have "STX \<notin> set h" "ETX \<notin> set h" "ETX \<notin> set (x[k := c])" "2 + length h + length (x[k := c]) \<le> MAX_MESSAGE_LEN"
    using assms(1,5) set_update_subset_insert [of x k c] by (auto simp: sendable_def line_msg_def wf_msg_def)
  ultimately have "parse_input ?d = Some (?m, [])"
    using parse_info_frame [of h "x[k := c]" e "[]"] by simp
  then show ?thesis
    using assms(2,3)
    by (simp add: read_handler_def process_input_msg process_input_empty handle_message_def
        handle_message_slave_info_receive_state_def state_op_defs)
qed

text \<open>C34: Damage to the text of a message goes unnoticed.  When a character of the text of a message arrives
  changed into any character but ETX, the block check, which no longer fits, is not looked at: bravo
  queues the altered message and acknowledges it, and alpha goes on with the next one.\<close>

theorem hd_damage_unnoticed:
  assumes "sending (info_msg h x) ms got (a, b)" "list_all sendable (info_msg h x # ms)" "k < length x" "c \<noteq> ETX"
  shows "\<exists>l'. exchange (\<lambda>d. [d]) (a\<lparr>port := (port a)[length (info_frame h []) + k := c]\<rparr>, b) = Inr l' \<and>
    (case ms of [] \<Rightarrow> finishing (got @ [info_msg h (x[k := c])]) l'
              | m # ms' \<Rightarrow> sending m ms' (got @ [info_msg h (x[k := c])]) l')"
proof -
  let ?m = "info_msg h x" and ?d = "(port a)[length (info_frame h []) + k := c]"
  note sd = assms(1) [unfolded sending_def fst_conv snd_conv]
  obtain b1 where b1: "read_handler ?d b = Inr b1" "hd_state b1 = SLAVE_INFO_RECEIVE" "input_unprocessed b1 = []"
    "port b1 = [ACK]" "input_queue b1 = got @ [info_msg h (x[k := c])]"
    using bravo_damaged [of h x b k c] assms(2-4) sd by auto
  let ?a = "a\<lparr>port := []\<rparr>"
  obtain a1 where a1: "run_msgs [ACK_msg] ?a = Inr a1"
    "case ms of [] \<Rightarrow> hd_state a1 = NEUTRAL \<and> port a1 = [EOT] \<and> output_queue a1 = []
     | m # ms \<Rightarrow> hd_state a1 = MASTER_INFO_ACK_RECEIVE \<and> port a1 = enc_msg m \<and> output_queue a1 = ms"
    using master_ack [of ?a] sd assms(2) by (auto simp del: run_msgs.simps cong: list.case_cong)
  have "?d \<noteq> []" using sd by (simp add: enc_info info_frame_def)
  then have "deliver (\<lambda>d. [d]) (a\<lparr>port := ?d\<rparr>) b = Inr (?a, b1)"
    using b1(1) by (simp add: deliver_def)
  moreover have "deliver (\<lambda>d. [d]) b1 ?a = Inr (b1\<lparr>port := []\<rparr>,
      with_input [] (expires_from_now NO_ACTIVITY_TIMEOUT (no_activity_timer ?a)) True a1)"
    by (rule deliver_msgs [of _ "[ACK_msg]"]) (use sd b1 a1 in simp_all)
  ultimately show ?thesis
    using a1(2) b1 by (auto simp: exchange_def sending_def finishing_def split: list.splits)
qed

theorem hd_damage_unnoticed_witness:
  "let m = info_msg [] ''x'';
       a = (Half_duplex True)\<lparr>hd_state := MASTER_INFO_ACK_RECEIVE, port := enc_msg m\<rparr>;
       b = (Half_duplex False)\<lparr>hd_state := SLAVE_INFO_RECEIVE\<rparr>
   in \<exists>l'. exchange (\<lambda>d. [d]) (a\<lparr>port := [STX, CHR ''z'', ETX, CHR 0x7C]\<rparr>, b) = Inr l' \<and>
        enc_msg m = [STX, CHR ''x'', ETX, CHR 0x7C] \<and> input_queue (snd l') = [info_msg [] ''z'']"
proof -
  let ?m = "info_msg [] ''x''"
  let ?a = "(Half_duplex True)\<lparr>hd_state := MASTER_INFO_ACK_RECEIVE, port := enc_msg ?m\<rparr>"
  let ?b = "(Half_duplex False)\<lparr>hd_state := SLAVE_INFO_RECEIVE\<rparr>"
  have e: "enc_msg ?m = [STX, CHR ''x'', ETX, CHR 0x7C]" by code_simp
  have "sending ?m [] [] (?a, ?b)" by (simp add: sending_def Half_duplex_def)
  from hd_damage_unnoticed [OF this, of 0 "CHR ''z''"] show ?thesis
    using sendable_letter by (auto simp: e Let_def info_frame_def finishing_def ETX_def Half_duplex_def)
qed

end
