(* ===== verification/Iso1745.thy ===== *)
theory Iso1745
  imports Hd_stream
begin

text \<open>
  The first form of the half-duplex protocol, \<^verbatim>\<open>udptoserial/iso1745.cpp\<close>: a peer whose tick does nothing, a
  classification of received messages and the block check.  The functions that would parse a classified
  message are declared nowhere; the classification is the result here.  Received bytes are characters, as
  in the later code.
\<close>

section \<open>The peer\<close>

datatype peer_state =
    Neutral
  | MASTER_SELECTING
  | MASTER_SELECTING_AWAITING_RESPONSE
  | SLAVE_SELECT_RESPONDING
  | MASTER_TRANSFER
  | MASTER_TRANSFER_AWAITING_RESPONSE
  | SLAVE_AWAITING_TRANSFER
  | SLAVE_RESPONDING
  | TERMINATING
  | DISCONNECTING
  | CLEARING

record peer =
  state_ :: peer_state
  outbox_ :: "string list"
  inbox_raw_ :: string
  inbox_ :: "string list"

definition Peer :: peer where
  "Peer = \<lparr>state_ = Neutral, outbox_ = [], inbox_raw_ = [], inbox_ = []\<rparr>"

definition peer_tick :: "peer \<Rightarrow> peer" where "peer_tick p = p"

section \<open>Classification\<close>

definition PREFIX_LEN_MAX :: nat where "PREFIX_LEN_MAX = 15"

definition SYN :: char where "SYN = CHR 0x16"

datatype next_message =
    Prefix_too_long
  | Information_msg
  | Supervisory_msg
  | Syn_msg
  | Invalid_msg

text \<open>The loop that extracts the prefix; \<open>at\<close> beyond the end throws, which is \<^const>\<open>None\<close>.\<close>

function prefix_loop :: "string \<Rightarrow> nat \<Rightarrow> nat option" where
  "prefix_loop msg i =
     (if i \<le> PREFIX_LEN_MAX then
        (if \<not> i < length msg then None
         else if isgraph (msg ! i) then prefix_loop msg (i + 1) else Some i)
      else Some i)"
  by pat_completeness auto
termination by (relation "measure (\<lambda>(msg, i). 16 - i)") (auto simp: PREFIX_LEN_MAX_def)

declare prefix_loop.simps [simp del]

definition peer_get_next_message :: "string \<Rightarrow> next_message option" where
  "peer_get_next_message msg =
     (case prefix_loop msg 0 of
        None \<Rightarrow> None
      | Some i \<Rightarrow>
          if i > PREFIX_LEN_MAX then Some Prefix_too_long
          else if \<not> i < length msg then None
          else
            (let c = msg ! i
             in Some (if c \<in> {SOH, STX} then Information_msg
                      else if c \<in> {EOT, ENQ, ACK, NAK, DLE} then Supervisory_msg
                      else if c = SYN then Syn_msg else Invalid_msg)))"

section \<open>The block check\<close>


section \<open>Agreement with the later code\<close>

lemma prefix_loop_eq:
  "i \<le> 16 \<Longrightarrow> prefix_loop (p @ s) i = (if length p < 16 then prefix_loop (p @ s) (length p) else Some 16)"
  if "list_all isgraph p" "i \<le> length p" for p
  using that
proof (induction "length p - i" arbitrary: i)
  case 0
  then show ?case by (auto simp: prefix_loop.simps [of _ 16] PREFIX_LEN_MAX_def)
next
  case (Suc n)
  then have i: "i < length p" "isgraph (p ! i)" by (auto simp: list_all_length)
  show ?case
  proof (cases "i = 16")
    case True
    then show ?thesis using i by (simp add: prefix_loop.simps [of _ 16] PREFIX_LEN_MAX_def)
  next
    case False
    then have "prefix_loop (p @ s) i = prefix_loop (p @ s) (i + 1)"
      using i Suc.prems by (subst prefix_loop.simps) (simp add: PREFIX_LEN_MAX_def nth_append)
    then show ?thesis using Suc.hyps(1) [of "i + 1"] Suc.hyps(2) Suc.prems False i by simp
  qed
qed






text \<open>A message that ends within the prefix makes the function throw, and a longer prefix is refused.\<close>

lemma classify_short: "list_all isgraph p \<Longrightarrow> length p \<le> PREFIX_LEN_MAX \<Longrightarrow> peer_get_next_message p = None"
proof -
  assume p: "list_all isgraph p" "length p \<le> PREFIX_LEN_MAX"
  then have "prefix_loop p 0 = prefix_loop p (length p)"
    using prefix_loop_eq [OF p(1), of 0 "[]"] by (simp add: PREFIX_LEN_MAX_def)
  then show ?thesis using p(2) by (simp add: peer_get_next_message_def prefix_loop.simps [of p "length p"])
qed

end
