(* ===== verification/Slip.thy ===== *)
theory Slip
  imports Prelude
begin

text \<open>
  The RFC 1055 SLIP framing of \<^verbatim>\<open>libhorizr/slip.cpp\<close> and the byte-vector comparison of
  \<^verbatim>\<open>libhorizr/bytevector.cpp\<close>.  The two index loops of \<open>slip_decode\<close> are kept as index loops; the
  reference definitions \<open>frame_len\<close> and \<open>unstuff\<close> say on plain lists what they compute, and
  \<open>slip_decode_eq\<close> is the equivalence of the two.
\<close>

section \<open>The code\<close>

definition SLIP_END :: u8 where "SLIP_END = 192"
definition SLIP_ESC :: u8 where "SLIP_ESC = 219"
definition SLIP_ESC_END :: u8 where "SLIP_ESC_END = 220"
definition SLIP_ESC_ESC :: u8 where "SLIP_ESC_ESC = 221"

lemmas slip_chars = SLIP_END_def SLIP_ESC_def SLIP_ESC_END_def SLIP_ESC_ESC_def

datatype slip_error = Slip_runtime_error | Slip_abort

text \<open>
  The first loop of \<open>slip_decode\<close>, the search for proper termination, from index \<open>i\<close>: the values
  of \<open>is_initiated\<close> and \<open>is_terminated\<close> it ends with.
\<close>

function slip_scan :: "bytes \<Rightarrow> nat \<Rightarrow> bool \<Rightarrow> bool \<times> bool" where
  "slip_scan source i is_initiated =
     (if i < length source then
        (let c = source ! i in
         if c \<noteq> SLIP_END \<and> c \<noteq> SLIP_ESC then slip_scan source (i + 1) is_initiated
         else if c = SLIP_ESC then
           (if i + 1 < length source then slip_scan source (i + 2) is_initiated
            else (is_initiated, False))
         else
           (if i = 0 then slip_scan source (i + 1) True
            else (is_initiated, True)))
      else (is_initiated, False))"
  by pat_completeness auto
termination
  by (relation "measure (\<lambda>(source, i, _). length source - i)") auto

text \<open>
  The second loop of \<open>slip_decode\<close>: \<open>dest\<close> is the vector passed by reference, so its contents
  are part of the outcome also when the loop throws.
\<close>

function slip_copy :: "bool \<Rightarrow> bool \<Rightarrow> bytes \<Rightarrow> nat \<Rightarrow> bytes \<Rightarrow> bytes \<times> (slip_error + nat)" where
  "slip_copy strict is_initiated source i dest =
     (if i < length source then
        (let c = source ! i in
         if i = 0 \<and> is_initiated then slip_copy strict is_initiated source (i + 1) dest
         else if c \<noteq> SLIP_END \<and> c \<noteq> SLIP_ESC then
           slip_copy strict is_initiated source (i + 1) (dest @ [c])
         else if c = SLIP_ESC then
           (if i + 1 < length source then
              (let c2 = source ! (i + 1) in
               if c2 = SLIP_ESC_END then
                 slip_copy strict is_initiated source (i + 2) (dest @ [SLIP_END])
               else if c2 = SLIP_ESC_ESC then
                 slip_copy strict is_initiated source (i + 2) (dest @ [SLIP_ESC])
               else if strict then (dest, Inl Slip_runtime_error)
               else slip_copy strict is_initiated source (i + 2) (dest @ [c2]))
            else (dest, Inr i))
         else if c = SLIP_END then (dest, Inr i)
         else (dest, Inl Slip_abort))
      else (dest, Inr i))"
  by pat_completeness auto
termination
  by (relation "measure (\<lambda>(_, _, source, i, _). length source - i)") auto

declare slip_scan.simps [simp del] slip_copy.simps [simp del]

definition slip_decode :: "bytes \<Rightarrow> bytes \<Rightarrow> bool \<Rightarrow> bytes \<times> (slip_error + nat)" where
  "slip_decode dest source strict =
     (case slip_scan source 0 False of
        (is_initiated, is_terminated) \<Rightarrow>
          if \<not> is_terminated then (dest, Inr 0)
          else slip_copy strict is_initiated source 0 dest)"

text \<open>The encoder: the loop over \<open>source\<close> with its counter \<open>i\<close>, then the whole function.\<close>

fun slip_encode_loop :: "bytes \<Rightarrow> nat \<Rightarrow> bytes \<Rightarrow> bytes \<times> nat" where
  "slip_encode_loop [] i dest = (dest, i)"
| "slip_encode_loop (x # xs) i dest =
     slip_encode_loop xs (i + 1)
       (if x = SLIP_END then dest @ [SLIP_ESC] @ [SLIP_ESC_END]
        else if x = SLIP_ESC then dest @ [SLIP_ESC] @ [SLIP_ESC_ESC]
        else dest @ [x])"

definition slip_encode :: "bytes \<Rightarrow> bytes \<Rightarrow> bool \<Rightarrow> bytes \<times> nat" where
  "slip_encode dest source introduce =
     (if length source = 0 then (dest @ [SLIP_END], 0)
      else
        (let dest1 = (if introduce then dest @ [SLIP_END] else dest);
             (dest2, i) = slip_encode_loop source 0 dest1
         in (dest2 @ [SLIP_END], i)))"

text \<open>\<open>bytevector_compare\<close>: the loop over the common length, then the comparison of the sizes.\<close>

fun bytevector_compare :: "bytes \<Rightarrow> bytes \<Rightarrow> int" where
  "bytevector_compare (a # A) (b # B) =
     (if a \<noteq> b then (if a < b then - 1 else 1) else bytevector_compare A B)"
| "bytevector_compare A B =
     (if length A < length B then 1 else if length A > length B then - 1 else 0)"

lemma slip_chars_distinct [simp]:
  "SLIP_END \<noteq> SLIP_ESC" "SLIP_ESC \<noteq> SLIP_END"
  "SLIP_ESC_END \<noteq> SLIP_ESC" "SLIP_ESC_ESC \<noteq> SLIP_ESC" "SLIP_ESC_ESC \<noteq> SLIP_ESC_END"
  "SLIP_ESC_END \<noteq> SLIP_END" "SLIP_ESC_ESC \<noteq> SLIP_END"
  "SLIP_END \<noteq> SLIP_ESC_END" "SLIP_END \<noteq> SLIP_ESC_ESC"
  by (simp_all add: slip_chars)

section \<open>Reference definitions\<close>

text \<open>The bytes before the first \<open>END\<close> that is not the second half of an escape pair.\<close>

fun frame_len :: "bytes \<Rightarrow> nat option" where
  "frame_len [] = None"
| "frame_len [c] = (if c = SLIP_END then Some 0 else None)"
| "frame_len (c # d # cs) =
     (if c = SLIP_END then Some 0
      else if c = SLIP_ESC then map_option (\<lambda>n. n + 2) (frame_len cs)
      else map_option (\<lambda>n. n + 1) (frame_len (d # cs)))"

definition escape_of :: "u8 \<Rightarrow> u8" where
  "escape_of c = (if c = SLIP_ESC_END then SLIP_END else if c = SLIP_ESC_ESC then SLIP_ESC else c)"

definition valid_escape :: "u8 \<Rightarrow> bool" where
  "valid_escape c \<longleftrightarrow> c = SLIP_ESC_END \<or> c = SLIP_ESC_ESC"

text \<open>
  The payload of a frame body, up to the first invalid escape when \<open>strict\<close>; the flag says that
  there was none.
\<close>

fun unstuff :: "bool \<Rightarrow> bytes \<Rightarrow> bytes \<times> bool" where
  "unstuff strict [] = ([], True)"
| "unstuff strict [c] = (if c = SLIP_ESC then ([], True) else ([c], True))"
| "unstuff strict (c # d # cs) =
     (if c = SLIP_ESC then
        (if strict \<and> \<not> valid_escape d then ([], False)
         else map_prod ((#) (escape_of d)) id (unstuff strict cs))
      else map_prod ((#) c) id (unstuff strict (d # cs)))"

definition stuff_byte :: "u8 \<Rightarrow> bytes" where
  "stuff_byte x =
     (if x = SLIP_END then [SLIP_ESC, SLIP_ESC_END]
      else if x = SLIP_ESC then [SLIP_ESC, SLIP_ESC_ESC] else [x])"

definition stuff :: "bytes \<Rightarrow> bytes" where
  "stuff xs = concat (map stuff_byte xs)"

text \<open>\<open>starts_with_end\<close>: does an introducing \<open>END\<close> open the buffer?\<close>

definition starts_with_end :: "bytes \<Rightarrow> bool" where
  "starts_with_end source \<longleftrightarrow> (\<exists>cs. source = SLIP_END # cs)"

section \<open>The loops compute the reference definitions\<close>

lemma frame_len_drop:
  "i < length source \<Longrightarrow>
   frame_len (drop i source) =
     (if source ! i = SLIP_END then Some 0
      else if source ! i = SLIP_ESC then
        (if i + 1 < length source then map_option (\<lambda>n. n + 2) (frame_len (drop (i + 2) source))
         else None)
      else map_option (\<lambda>n. n + 1) (frame_len (drop (i + 1) source)))"
  by (cases "i + 1 < length source") (auto simp: drop_two Cons_nth_drop_Suc [symmetric])

lemma slip_scan_eq:
  "0 < i \<Longrightarrow> slip_scan source i ini = (ini, frame_len (drop i source) \<noteq> None)"
proof (induction source i ini rule: slip_scan.induct)
  case (1 source i ini)
  then show ?case
    by (subst slip_scan.simps) (auto simp: frame_len_drop Let_def)
qed

lemma frame_len_bound: "frame_len xs = Some n \<Longrightarrow> n < length xs \<and> xs ! n = SLIP_END"
  by (induction xs arbitrary: n rule: frame_len.induct) (auto split: if_splits)

lemma unstuff_plain [simp]:
  "c \<noteq> SLIP_ESC \<Longrightarrow> unstuff strict (c # cs) = map_prod ((#) c) id (unstuff strict cs)"
  by (cases cs) auto

text \<open>What the second loop makes of a frame body that ends at distance \<open>n\<close>.\<close>

definition copy_result :: "nat \<Rightarrow> bytes \<Rightarrow> bytes \<times> bool \<Rightarrow> bytes \<times> (slip_error + nat)" where
  "copy_result j dest r =
     (dest @ fst r, if snd r then Inr j else Inl Slip_runtime_error)"

lemma copy_result_Cons [simp]:
  "copy_result j dest (map_prod ((#) c) id r) = copy_result j (dest @ [c]) r"
  by (simp add: copy_result_def)

lemma slip_copy_eq:
  "0 < i \<or> \<not> ini \<Longrightarrow> frame_len (drop i source) = Some n \<Longrightarrow>
   slip_copy strict ini source i dest =
     copy_result (i + n) dest (unstuff strict (take n (drop i source)))"
proof (induction strict ini source i dest arbitrary: n rule: slip_copy.induct)
  case (1 strict ini source i dest)
  have i: "i < length source"
    using "1.prems"(2) by (cases "i < length source") auto
  consider (fin) "source ! i = SLIP_END" "n = 0"
    | (esc) m where "source ! i = SLIP_ESC" "i + 1 < length source" "n = m + 2"
        "frame_len (drop (i + 2) source) = Some m"
    | (plain) m where "source ! i \<noteq> SLIP_END" "source ! i \<noteq> SLIP_ESC" "n = m + 1"
        "frame_len (drop (i + 1) source) = Some m"
    using "1.prems"(2) i by (auto simp: frame_len_drop split: if_splits)
  then show ?case
  proof cases
    case fin
    then show ?thesis
      using i "1.prems"(1) by (subst slip_copy.simps) (auto simp: copy_result_def)
  next
    case esc
    have tk: "take n (drop i source) = SLIP_ESC # source ! (i + 1) # take m (drop (i + 2) source)"
      using esc drop_two [of i source] by simp
    let ?d = "source ! (i + 1)"
    have unfold: "slip_copy strict ini source i dest =
        (if strict \<and> \<not> valid_escape ?d then (dest, Inl Slip_runtime_error)
         else slip_copy strict ini source (i + 2) (dest @ [escape_of ?d]))"
      using esc i "1.prems"(1)
      by (subst slip_copy.simps, cases "i = 0") (simp_all add: valid_escape_def escape_of_def)
    have IH: "slip_copy strict ini source (i + 2) (dest @ [escape_of ?d]) =
        copy_result (i + 2 + m) (dest @ [escape_of ?d])
          (unstuff strict (take m (drop (i + 2) source)))"
      if "\<not> (strict \<and> \<not> valid_escape ?d)"
    proof -
      have "\<not> (i = 0 \<and> ini)" using "1.prems"(1) by simp
      moreover have "\<not> (source ! i \<noteq> SLIP_END \<and> source ! i \<noteq> SLIP_ESC)" using esc by simp
      ultimately show ?thesis
        using "1.IH"(3-5) [OF i refl _ _ esc(1,2) refl] esc(4) that
        by (auto simp: valid_escape_def escape_of_def)
    qed
    show ?thesis
    proof (cases "strict \<and> \<not> valid_escape ?d")
      case True
      then show ?thesis unfolding tk unfold by (simp add: copy_result_def)
    next
      case False
      then show ?thesis
        unfolding tk unfold using IH [OF False] esc(3) by (auto simp: add_ac)
    qed
  next
    case plain
    have tk: "take n (drop i source) = source ! i # take m (drop (i + 1) source)"
      using plain i by (simp add: Cons_nth_drop_Suc [symmetric])
    show ?thesis
      unfolding tk using plain i "1.prems"(1) "1.IH"(2) [of "source ! i" m]
      by (subst slip_copy.simps) (auto simp: Let_def)
  qed
qed

text \<open>
  The whole decoder against the reference: strip an introducing \<open>END\<close>, find the frame, unstuff it.
\<close>

definition slip_decode_ref :: "bytes \<Rightarrow> bytes \<Rightarrow> bool \<Rightarrow> bytes \<times> (slip_error + nat)" where
  "slip_decode_ref dest source strict =
     (let k = (if starts_with_end source then 1 else 0); body = drop k source
      in case frame_len body of
           None \<Rightarrow> (dest, Inr 0)
         | Some n \<Rightarrow> copy_result (k + n) dest (unstuff strict (take n body)))"

lemma starts_with_end_iff:
  "starts_with_end source \<longleftrightarrow> 0 < length source \<and> source ! 0 = SLIP_END"
  by (cases source) (auto simp: starts_with_end_def)

lemma slip_decode_eq: "slip_decode dest source strict = slip_decode_ref dest source strict"
proof (cases "starts_with_end source")
  case True
  then have s: "0 < length source" "source ! 0 = SLIP_END"
    by (simp_all add: starts_with_end_iff)
  have "slip_scan source 0 False = slip_scan source 1 True"
    using s by (subst slip_scan.simps) simp
  moreover have "slip_copy strict True source 0 dest = slip_copy strict True source 1 dest"
    using s by (subst slip_copy.simps) simp
  ultimately show ?thesis
    using True by (auto simp: slip_decode_def slip_decode_ref_def slip_scan_eq
        slip_copy_eq [of "Suc 0"] split: option.splits)
next
  case False
  have scan: "slip_scan source 0 False = (False, frame_len source \<noteq> None)"
  proof (cases source)
    case Nil
    then show ?thesis by (subst slip_scan.simps) simp
  next
    case (Cons c cs)
    with False have "source ! 0 \<noteq> SLIP_END" by (simp add: starts_with_end_iff)
    with Cons show ?thesis
      using frame_len_drop [of 0 source]
      by (subst slip_scan.simps) (auto simp: slip_scan_eq)
  qed
  show ?thesis
    using False slip_copy_eq [of 0 False source _ strict dest]
    by (auto simp: slip_decode_def slip_decode_ref_def scan split: option.splits)
qed

text \<open>Without an \<open>END\<close> nothing is decoded.\<close>

lemma frame_len_no_end: "SLIP_END \<notin> set xs \<Longrightarrow> frame_len xs = None"
  by (induction xs rule: frame_len.induct) auto

lemma decode_no_end:
  assumes "SLIP_END \<notin> set xs"
  shows "slip_decode [] xs False = ([], Inr 0)" "slip_decode [] (SLIP_END # xs) False = ([], Inr 0)"
proof -
  have "\<not> starts_with_end xs" using assms by (cases xs) (auto simp: starts_with_end_iff)
  moreover have "starts_with_end (SLIP_END # xs)" by (simp add: starts_with_end_iff)
  ultimately show "slip_decode [] xs False = ([], Inr 0)" "slip_decode [] (SLIP_END # xs) False = ([], Inr 0)"
    using frame_len_no_end [OF assms] by (simp_all add: slip_decode_eq slip_decode_ref_def)
qed

section \<open>The encoder\<close>

lemma stuff_simps [simp]:
  "stuff [] = []" "stuff (x # xs) = stuff_byte x @ stuff xs" "stuff (xs @ ys) = stuff xs @ stuff ys"
  by (simp_all add: stuff_def)

lemma slip_encode_loop_eq: "slip_encode_loop xs i dest = (dest @ stuff xs, i + length xs)"
  by (induction xs arbitrary: i dest) (auto simp: stuff_byte_def)

lemma slip_encode_eq:
  "source \<noteq> [] \<Longrightarrow>
   slip_encode dest source introduce =
     (dest @ (if introduce then [SLIP_END] else []) @ stuff source @ [SLIP_END], length source)"
  by (simp add: slip_encode_def slip_encode_loop_eq)

lemma stuff_Nil [simp]: "stuff xs = [] \<longleftrightarrow> xs = []"
  by (cases xs) (auto simp: stuff_byte_def)

lemma hd_stuff: "xs \<noteq> [] \<Longrightarrow> \<exists>c cs. stuff xs = c # cs \<and> c \<noteq> SLIP_END"
  by (cases xs) (auto simp: stuff_byte_def)

lemma SLIP_END_notin_stuff [simp]: "SLIP_END \<notin> set (stuff xs)"
  by (induction xs) (auto simp: stuff_byte_def)

lemma frame_len_plain:
  "c \<noteq> SLIP_END \<Longrightarrow> c \<noteq> SLIP_ESC \<Longrightarrow> frame_len (c # cs) = map_option (\<lambda>n. n + 1) (frame_len cs)"
  by (cases cs) auto

lemma frame_len_END [simp]: "frame_len (SLIP_END # cs) = Some 0"
  by (cases cs) auto

lemma frame_len_stuff: "frame_len (stuff xs @ SLIP_END # rest) = Some (length (stuff xs))"
  by (induction xs) (auto simp: stuff_byte_def frame_len_plain)

lemma unstuff_stuff: "unstuff strict (stuff xs) = (xs, True)"
  by (induction xs) (auto simp: stuff_byte_def valid_escape_def escape_of_def)

lemma unstuff_strict_stuff:
  "frame_len xs = Some n \<Longrightarrow> unstuff True (take n xs) = (p, True) \<Longrightarrow> take n xs = stuff p"
proof (induction xs arbitrary: n p rule: frame_len.induct)
  case (3 c d cs)
  show ?case
  proof (cases "c = SLIP_END \<or> c = SLIP_ESC")
    case False
    with 3 obtain m p' where "frame_len (d # cs) = Some m" "n = Suc m"
      "unstuff True (take m (d # cs)) = (p', True)" "p = c # p'"
      by (auto simp: map_prod_def split: prod.splits)
    with 3 False show ?thesis by (simp add: stuff_byte_def)
  next
    case True
    with 3 show ?thesis
      by (auto simp: map_prod_def valid_escape_def escape_of_def stuff_byte_def
          split: prod.splits if_splits)
  qed
qed (auto split: if_splits)

lemma length_stuff:
  "length (stuff xs) = length xs + length (filter (\<lambda>x. x = SLIP_END \<or> x = SLIP_ESC) xs)"
  by (induction xs) (auto simp: stuff_byte_def)

section \<open>Bounds and prefixes of frames\<close>

lemma frame_len_append: "frame_len xs = Some n \<Longrightarrow> frame_len (xs @ ys) = Some n"
proof (induction xs arbitrary: n rule: frame_len.induct)
  case (3 c d cs)
  then show ?case by (auto split: if_splits)
qed (auto split: if_splits)

lemma length_unstuff: "length (fst (unstuff strict xs)) \<le> length xs"
  by (induction strict xs rule: unstuff.induct) auto

lemma unstuff_lenient: "snd (unstuff False xs)"
  by (induction "False" xs rule: unstuff.induct) auto

lemma frame_len_pos: "frame_len xs = Some n \<Longrightarrow> \<not> starts_with_end xs \<Longrightarrow> 0 < n"
  using frame_len_bound [of xs n] by (cases n) (auto simp: starts_with_end_iff)

lemma slip_decode_frameI:
  assumes "k = (if starts_with_end source then 1 else 0)" "frame_len (drop k source) = Some m"
    "unstuff strict (take m (drop k source)) = (out, ok)"
  shows "slip_decode dest source strict =
           (dest @ out, if ok then Inr (k + m) else Inl Slip_runtime_error)"
  unfolding slip_decode_eq slip_decode_ref_def Let_def assms(1) [symmetric]
  using assms(2,3) by (simp add: copy_result_def)

text \<open>The cases of a decoding: nothing complete, or a frame that ends at index \<open>n\<close>.\<close>

lemma slip_decode_cases:
  obtains (incomplete) "slip_decode dest source strict = (dest, Inr 0)"
  | (frame) n k out ok where "0 < n" "n < length source" "source ! n = SLIP_END" "k \<le> n"
      "k = (if starts_with_end source then 1 else 0)"
      "frame_len (drop k source) = Some (n - k)"
      "unstuff strict (take (n - k) (drop k source)) = (out, ok)"
      "slip_decode dest source strict = (dest @ out, if ok then Inr n else Inl Slip_runtime_error)"
proof (cases "frame_len (drop (if starts_with_end source then 1 else 0) source)")
  case None
  then show thesis
    by (intro incomplete) (simp add: slip_decode_eq slip_decode_ref_def)
next
  case (Some m)
  let ?k = "if starts_with_end source then 1 else 0 :: nat"
  obtain out ok where u: "unstuff strict (take m (drop ?k source)) = (out, ok)"
    by (cases "unstuff strict (take m (drop ?k source))")
  have b: "m < length (drop ?k source)" "drop ?k source ! m = SLIP_END"
    using frame_len_bound [OF Some] by auto
  have "0 < ?k + m"
    using frame_len_pos [of source m] Some by auto
  moreover have "slip_decode dest source strict =
      (dest @ out, if ok then Inr (?k + m) else Inl Slip_runtime_error)"
    by (rule slip_decode_frameI [OF refl Some u])
  ultimately show thesis
    using b Some u by (intro frame [of "?k + m" ?k out ok]) (auto split: if_splits)
qed

section \<open>Properties\<close>

lemma slip_decode_encoded:
  assumes "source \<noteq> []"
  shows "slip_decode dest (fst (slip_encode [] source introduce) @ rest) strict =
           (dest @ source, Inr (length (fst (slip_encode [] source introduce)) - 1))"
proof -
  obtain c cs where hd: "stuff source = c # cs" "c \<noteq> SLIP_END"
    using hd_stuff [OF assms] by blast
  have enc: "fst (slip_encode [] source introduce) =
      (if introduce then [SLIP_END] else []) @ stuff source @ [SLIP_END]"
    using assms by (simp add: slip_encode_eq)
  have "\<not> starts_with_end (stuff source @ SLIP_END # rest)"
    using hd by (simp add: starts_with_end_def)
  then show ?thesis
    by (simp add: enc slip_decode_eq slip_decode_ref_def frame_len_stuff unstuff_stuff
        copy_result_def starts_with_end_def)
qed

text \<open>
  C16: Decoding inverts encoding.  For a payload of at least one byte, whatever follows on the wire, and
  whether or not the frame was introduced by an \<open>END\<close>, \<open>slip_decode\<close> appends exactly the encoded payload
  to \<open>dest\<close>, in strict and in lenient mode, and returns the position of the \<open>END\<close> that terminates the
  frame.  That is one less than the length of the frame: the comment on the function calls the result the
  number of bytes processed, but the terminating \<open>END\<close> is left out of it and stays in the buffer.  The
  empty payload is excluded because its \<open>END\<close> is taken for the introduction of the frame behind it.
\<close>

theorem slip_roundtrip:
  assumes "source \<noteq> []"
  shows "slip_decode dest (fst (slip_encode [] source introduce) @ rest) strict =
           (dest @ source, Inr (length (fst (slip_encode [] source introduce)) - 1))"
  using assms by (rule slip_decode_encoded)

theorem slip_roundtrip_witness:
  "slip_decode [7] (fst (slip_encode [] [1, 192, 219, 2] True) @ [9, 9]) True =
     ([7] @ [1, 192, 219, 2], Inr (length (fst (slip_encode [] [1, 192, 219, 2] True)) - 1))"
  by (rule slip_roundtrip) simp

text \<open>
  What the returned count means.  Either no complete frame was found: the count is 0 and
  \<open>dest\<close> is untouched; or the count is the index of the \<open>END\<close> that terminates the first frame,
  inside the buffer, and at most that many bytes were appended.
\<close>

theorem slip_decode_count:
  assumes "slip_decode dest source strict = (dest', Inr n)"
  shows "n = 0 \<and> dest' = dest \<or>
         0 < n \<and> n < length source \<and> source ! n = SLIP_END \<and>
         (\<exists>out. dest' = dest @ out \<and> length out \<le> n)"
proof (cases rule: slip_decode_cases [of dest source strict])
  case (frame m k out ok)
  have "length out \<le> length (take (m - k) (drop k source))"
    using length_unstuff [of strict "take (m - k) (drop k source)"] frame(7) by simp
  also have "\<dots> \<le> m" by simp
  finally have "length out \<le> m" .
  with assms frame show ?thesis by (auto split: if_splits)
qed (use assms in simp)

theorem slip_decode_count_witness:
  "0 < (3::nat) \<and> (3::nat) < length [192, 5, 6, 192, 8] \<and> [192, 5, 6, 192, 8] ! 3 = SLIP_END"
proof -
  have "slip_decode [] [192, 5, 6, 192, 8] False = ([5, 6], Inr 3)"
    by (simp add: slip_decode_eq slip_decode_ref_def starts_with_end_def copy_result_def slip_chars)
  from slip_decode_count [OF this] show ?thesis by simp
qed

text \<open>
  A complete frame is decoded the same however much more has been received behind it: bytes
  that arrive later never change the outcome of a decoding that found a frame.
\<close>

theorem slip_decode_prefix_stable:
  assumes "snd (slip_decode dest source strict) \<noteq> Inr 0"
  shows "slip_decode dest (source @ more) strict = slip_decode dest source strict"
proof (cases rule: slip_decode_cases [of dest source strict])
  case (frame n k out ok)
  have len: "k \<le> length source" "n - k \<le> length source - k" using frame(2,4) by simp_all
  have st: "starts_with_end (source @ more) = starts_with_end source"
    using frame(2) by (cases source) (auto simp: starts_with_end_def)
  have "frame_len (drop k (source @ more)) = Some (n - k)"
    using frame_len_append [OF frame(6)] len by simp
  moreover have "unstuff strict (take (n - k) (drop k (source @ more))) = (out, ok)"
    using len frame(7) by simp
  ultimately have "slip_decode dest (source @ more) strict =
      (dest @ out, if ok then Inr (k + (n - k)) else Inl Slip_runtime_error)"
    using frame(5) st by (intro slip_decode_frameI) auto
  with frame(4,8) show ?thesis by simp
qed (use assms in simp)

theorem slip_decode_prefix_stable_witness:
  "slip_decode [] ([1, 192] @ [3, 192]) True = slip_decode [] [1, 192] True"
  by (rule slip_decode_prefix_stable)
    (simp add: slip_decode_eq slip_decode_ref_def starts_with_end_def copy_result_def slip_chars)

text \<open>
  C32: Strict decoding accepts exactly the frames the encoder produces.  Where the lenient decoder
  finds a frame of \<open>n\<close> bytes, the strict one succeeds with the same count if those bytes are the
  stuffing of some payload (behind an introducing \<open>END\<close>, if there is one) and throws otherwise.
\<close>

theorem slip_strict_exact:
  assumes "slip_decode dest source False = (dest', Inr n)" "0 < n"
  shows "snd (slip_decode dest source True) =
           (if \<exists>p. take n source = (if starts_with_end source then [SLIP_END] else []) @ stuff p
            then Inr n else Inl Slip_runtime_error)"
proof (cases rule: slip_decode_cases [of dest source False])
  case (frame m k out ok)
  have n: "n = m" using assms(1) frame(8) by (auto split: if_splits)
  let ?body = "take (n - k) (drop k source)"
  obtain p ok' where u: "unstuff True ?body = (p, ok')"
    by (cases "unstuff True ?body")
  have dec: "slip_decode dest source True =
      (dest @ p, if ok' then Inr (k + (n - k)) else Inl Slip_runtime_error)"
    using frame(5,6) u n by (intro slip_decode_frameI) auto
  have split: "take n source = (if starts_with_end source then [SLIP_END] else []) @ ?body"
    using frame(1,4,5) n by (auto simp: starts_with_end_def take_Cons')
  have "ok' \<longleftrightarrow> (\<exists>p. ?body = stuff p)"
  proof
    assume ok'
    with unstuff_strict_stuff [OF frame(6) [folded n]] u show "\<exists>p. ?body = stuff p" by auto
  next
    assume "\<exists>p. ?body = stuff p"
    with u unstuff_stuff [of True] show ok' by auto
  qed
  with dec split frame(4) n show ?thesis by simp
qed (use assms in simp)

theorem slip_strict_exact_witness:
  "snd (slip_decode [] [1, 219, 7, 192] True) = Inl Slip_runtime_error"
proof -
  have "slip_decode [] [1, 219, 7, 192] False = ([1, 7], Inr 3)"
    by (simp add: slip_decode_eq slip_decode_ref_def starts_with_end_def copy_result_def slip_chars
        escape_of_def)
  from slip_strict_exact [OF this]
  have "snd (slip_decode [] [1, 219, 7, 192] True) =
      (if \<exists>p. take 3 [1, 219, 7, 192] = stuff p then Inr 3 else Inl Slip_runtime_error)"
    by (simp add: starts_with_end_def slip_chars)
  moreover have "\<not> (\<exists>p. take 3 [1, 219, 7, 192] = stuff p)"
  proof
    assume "\<exists>p. take 3 [1, 219, 7, 192] = stuff p"
    then obtain p where "stuff p = [1, 219, 7]" by auto
    from unstuff_stuff [of True p] this show False
      by (simp add: slip_chars valid_escape_def)
  qed
  ultimately show ?thesis by simp
qed

text \<open>
  Lenient decoding, the mode the serial reader uses, never fails on any input.
\<close>

lemma slip_lenient_total: "\<exists>out n. slip_decode dest source False = (dest @ out, Inr n)"
proof (cases rule: slip_decode_cases [of dest source False])
  case (frame n k out ok)
  then show ?thesis using unstuff_lenient [of "take (n - k) (drop k source)"] by auto
qed simp

text \<open>
  The shape of an encoded frame.  The encoder reports the payload's length, \<open>END\<close> occurs in
  the frame only as its delimiters, and byte stuffing at most doubles the payload.
\<close>

theorem slip_encode_frame:
  assumes "source \<noteq> []"
  shows "\<exists>body. slip_encode dest source introduce =
             (dest @ (if introduce then [SLIP_END] else []) @ body @ [SLIP_END], length source) \<and>
           SLIP_END \<notin> set body \<and> length source \<le> length body \<and> length body \<le> 2 * length source"
proof (intro exI conjI)
  show "slip_encode dest source introduce =
      (dest @ (if introduce then [SLIP_END] else []) @ stuff source @ [SLIP_END], length source)"
    by (rule slip_encode_eq [OF assms])
  show "length (stuff source) \<le> 2 * length source"
    using length_filter_le [of "\<lambda>x. x = SLIP_END \<or> x = SLIP_ESC" source]
    by (simp add: length_stuff)
qed (simp_all add: length_stuff)

theorem slip_encode_frame_witness:
  "\<exists>body. slip_encode [3] [192, 5] True =
             ([3] @ (if True then [SLIP_END] else []) @ body @ [SLIP_END], length [192, 5 :: u8]) \<and>
           SLIP_END \<notin> set body \<and> length [192, 5 :: u8] \<le> length body \<and>
           length body \<le> 2 * length [192, 5 :: u8]"
  by (rule slip_encode_frame) simp

text \<open>
  \<open>bytevector_compare\<close> returns 0 exactly for equal vectors, and swapping its arguments
  negates its result.
\<close>

lemma bytevector_compare_sound:
  "(bytevector_compare A B = 0 \<longleftrightarrow> A = B) \<and> bytevector_compare B A = - bytevector_compare A B"
  by (induction A B rule: bytevector_compare.induct) auto

end
