(* ===== verification/Ip.thy ===== *)
theory Ip
  imports Prelude
begin

text \<open>
  The IPv4 header helpers of \<^verbatim>\<open>libhorizr/ip.cpp\<close> and the packed structures of \<^verbatim>\<open>libhorizr/ip.h\<close>.

  A structure is a record; its byte image is what \<open>memcpy\<close> copies.  A pointer to memory is the list
  of bytes that can be read through it, and reading past its end is the error
  \<open>Ip_out_of_bounds\<close>.  The function-local \<open>static uint16_t id\<close> of \<open>ip_headers_default_set\<close> is the
  parameter \<open>ident\<close> and a result.  When a function throws, the structures it was filling belong to a caller
  that is unwound too, so only the error is kept.
\<close>

section \<open>Structures and their layout\<close>

record ip_hdr =
  ih_ihl :: u4
  ih_version :: u4
  ih_type_of_service :: u8
  ih_total_length :: u16
  ih_identification :: u16
  ih_frag_off :: u16
  ih_time_to_live :: u8
  ih_protocol :: u8
  ih_cksum :: u16
  ih_saddr :: u32
  ih_daddr :: u32

record udp_hdr =
  uh_source :: u16
  uh_dest :: u16
  uh_len :: u16
  uh_cksum :: u16

record tcp_hdr =
  th_source_port :: u16
  th_destination_port :: u16
  th_sequence_number :: u32
  th_acknowledgement_number :: u32
  th_data_offset :: u16
  th_window :: u16
  th_checksum :: u16
  th_urgent_pointer :: u16

record udp_cksum_pseudohdr =
  up_saddr :: u32
  up_daddr :: u32
  up_zero :: u8
  up_protocol :: u8
  up_udplen :: u16
  up_sport :: u16
  up_dport :: u16
  up_len :: u16
  up_cksum :: u16

record tcp_cksum_pseudohdr =
  tp_saddr :: u32
  tp_daddr :: u32
  tp_zero :: u8
  tp_protocol :: u8
  tp_tcp_segment_length :: u16

definition ip_hdr_bytes :: "ip_hdr \<Rightarrow> bytes" where
  "ip_hdr_bytes h =
     [ucast (ih_ihl h) OR push_bit 4 (ucast (ih_version h)), ih_type_of_service h] @
     le16 (ih_total_length h) @ le16 (ih_identification h) @ le16 (ih_frag_off h) @
     [ih_time_to_live h, ih_protocol h] @ le16 (ih_cksum h) @ le32 (ih_saddr h) @ le32 (ih_daddr h)"

definition udp_hdr_bytes :: "udp_hdr \<Rightarrow> bytes" where
  "udp_hdr_bytes h =
     le16 (uh_source h) @ le16 (uh_dest h) @ le16 (uh_len h) @ le16 (uh_cksum h)"

definition tcp_hdr_bytes :: "tcp_hdr \<Rightarrow> bytes" where
  "tcp_hdr_bytes h =
     le16 (th_source_port h) @ le16 (th_destination_port h) @ le32 (th_sequence_number h) @
     le32 (th_acknowledgement_number h) @ le16 (th_data_offset h) @ le16 (th_window h) @
     le16 (th_checksum h) @ le16 (th_urgent_pointer h)"

definition udp_cksum_pseudohdr_bytes :: "udp_cksum_pseudohdr \<Rightarrow> bytes" where
  "udp_cksum_pseudohdr_bytes p =
     le32 (up_saddr p) @ le32 (up_daddr p) @ [up_zero p, up_protocol p] @ le16 (up_udplen p) @
     le16 (up_sport p) @ le16 (up_dport p) @ le16 (up_len p) @ le16 (up_cksum p)"

definition tcp_cksum_pseudohdr_bytes :: "tcp_cksum_pseudohdr \<Rightarrow> bytes" where
  "tcp_cksum_pseudohdr_bytes p =
     le32 (tp_saddr p) @ le32 (tp_daddr p) @ [tp_zero p, tp_protocol p] @
     le16 (tp_tcp_segment_length p)"

text \<open>
  Sizes: no structure has padding.  \<open>sizeof_pointer\<close> is the size of a pointer on the 64-bit targets;
  the header functions take \<open>sizeof\<close> of a pointer parameter that shadows a structure's name.
\<close>

definition sizeof_ip_hdr :: nat where "sizeof_ip_hdr = 20"
definition sizeof_udp_hdr :: nat where "sizeof_udp_hdr = 8"
definition sizeof_tcp_hdr :: nat where "sizeof_tcp_hdr = 20"
definition sizeof_ip_udp_hdr :: nat where "sizeof_ip_udp_hdr = sizeof_ip_hdr + sizeof_udp_hdr"
definition sizeof_ip_tcp_hdr :: nat where "sizeof_ip_tcp_hdr = sizeof_ip_hdr + sizeof_tcp_hdr"
definition sizeof_pointer :: nat where "sizeof_pointer = 8"

lemmas sizeof_defs [layout_simps] =
  sizeof_ip_hdr_def sizeof_udp_hdr_def sizeof_tcp_hdr_def sizeof_ip_udp_hdr_def
  sizeof_ip_tcp_hdr_def sizeof_pointer_def

definition IPV4_PROTOCOL_UDP :: u8 where "IPV4_PROTOCOL_UDP = 17"
definition IPV4_PROTOCOL_TCP :: u8 where "IPV4_PROTOCOL_TCP = 6"

lemmas ip_protocols = IPV4_PROTOCOL_UDP_def IPV4_PROTOCOL_TCP_def

text \<open>Reading a structure through a cast pointer.\<close>

definition ip_hdr_at :: "bytes \<Rightarrow> ip_hdr option" where
  "ip_hdr_at m =
     (if length m < sizeof_ip_hdr then None
      else Some
        \<lparr>ih_ihl = ucast (m ! 0), ih_version = ucast (drop_bit 4 (m ! 0)),
         ih_type_of_service = m ! 1, ih_total_length = of_le16 (m ! 2) (m ! 3),
         ih_identification = of_le16 (m ! 4) (m ! 5), ih_frag_off = of_le16 (m ! 6) (m ! 7),
         ih_time_to_live = m ! 8, ih_protocol = m ! 9, ih_cksum = of_le16 (m ! 10) (m ! 11),
         ih_saddr = of_le32 (m ! 12) (m ! 13) (m ! 14) (m ! 15),
         ih_daddr = of_le32 (m ! 16) (m ! 17) (m ! 18) (m ! 19)\<rparr>)"

definition tcp_hdr_at :: "bytes \<Rightarrow> tcp_hdr option" where
  "tcp_hdr_at m =
     (if length m < sizeof_tcp_hdr then None
      else Some
        \<lparr>th_source_port = of_le16 (m ! 0) (m ! 1), th_destination_port = of_le16 (m ! 2) (m ! 3),
         th_sequence_number = of_le32 (m ! 4) (m ! 5) (m ! 6) (m ! 7),
         th_acknowledgement_number = of_le32 (m ! 8) (m ! 9) (m ! 10) (m ! 11),
         th_data_offset = of_le16 (m ! 12) (m ! 13), th_window = of_le16 (m ! 14) (m ! 15),
         th_checksum = of_le16 (m ! 16) (m ! 17), th_urgent_pointer = of_le16 (m ! 18) (m ! 19)\<rparr>)"

section \<open>Inspecting a received byte vector\<close>

datatype ip_error = Ip_out_of_bounds | Ip_not_tcp_udp | Ip_oversize_payload | Ip_heap_overflow

definition ip_hdr_valid :: "ip_hdr \<Rightarrow> bool" where
  "ip_hdr_valid ih = True"

definition ip_hdr_len :: "ip_hdr \<Rightarrow> nat" where
  "ip_hdr_len ih = unat (ih_ihl ih) * 4"

definition ip_bytevector_validate :: "bytes \<Rightarrow> bool" where
  "ip_bytevector_validate bv =
     (if length bv < sizeof_ip_hdr then False
      else case ip_hdr_at bv of None \<Rightarrow> False | Some ih \<Rightarrow> (if \<not> ip_hdr_valid ih then False else True))"

text \<open>The protocol byte is read at its offset, whether or not a whole header is there.\<close>

definition ip_bytevector_is_udp :: "bytes \<Rightarrow> ip_error + bool" where
  "ip_bytevector_is_udp bv =
     (if 9 < length bv then Inr (bv ! 9 = 0x11) else Inl Ip_out_of_bounds)"

definition ip_bytevector_is_tcp :: "bytes \<Rightarrow> ip_error + bool" where
  "ip_bytevector_is_tcp bv =
     (if 9 < length bv then Inr (bv ! 9 = 0x6) else Inl Ip_out_of_bounds)"

definition ip_bytevector_tcp_data_start :: "bytes \<Rightarrow> nat" where
  "ip_bytevector_tcp_data_start bv = sizeof_ip_tcp_hdr"

definition ip_bytevector_udp_data_start :: "bytes \<Rightarrow> nat" where
  "ip_bytevector_udp_data_start bv = sizeof_ip_udp_hdr"

definition ip_bytevector_data_start :: "bytes \<Rightarrow> ip_error + nat" where
  "ip_bytevector_data_start bv =
     (case ip_bytevector_is_udp bv of
        Inl e \<Rightarrow> Inl e
      | Inr True \<Rightarrow> Inr (ip_bytevector_udp_data_start bv)
      | Inr False \<Rightarrow>
          (case ip_bytevector_is_tcp bv of
             Inl e \<Rightarrow> Inl e
           | Inr True \<Rightarrow> Inr (ip_bytevector_tcp_data_start bv)
           | Inr False \<Rightarrow> Inl Ip_not_tcp_udp))"

section \<open>Checksums\<close>

text \<open>The read \<open>u16[i]\<close> of an array of 16-bit integers, and the summation loop.\<close>

definition u16_at :: "bytes \<Rightarrow> nat \<Rightarrow> u16 option" where
  "u16_at m i = (if 2 * i + 1 < length m then Some (of_le16 (m ! (2 * i)) (m ! (2 * i + 1))) else None)"

function cksum_loop :: "bytes \<Rightarrow> nat \<Rightarrow> nat \<Rightarrow> u32 \<Rightarrow> u32 option" where
  "cksum_loop u16 i u16len s =
     (if i < u16len then
        (case u16_at u16 i of
           None \<Rightarrow> None
         | Some w \<Rightarrow> cksum_loop u16 (i + 1) u16len (s + ucast w))
      else Some s)"
  by pat_completeness auto
termination
  by (relation "measure (\<lambda>(_, i, u16len, _). u16len - i)") auto

declare cksum_loop.simps [simp del]

definition u16len_of :: "nat \<Rightarrow> nat" where
  "u16len_of len = (if len mod 2 = 1 then len div 2 + 1 else len div 2)"

text \<open>The value returned from the sum: the carry is shifted right by 8, not by 16.\<close>

definition cksum_final :: "u32 \<Rightarrow> u16" where
  "cksum_final s = NOT (ucast ((s AND 0xFFFF) + drop_bit 8 (s AND 0xFFFF0000)))"

definition ip_cksum :: "bytes \<Rightarrow> nat \<Rightarrow> u16 option" where
  "ip_cksum u8 len = map_option cksum_final (cksum_loop u8 0 (u16len_of len) 0)"

definition ip_hdr_cksum_set :: "ip_hdr \<Rightarrow> ip_error + ip_hdr" where
  "ip_hdr_cksum_set ih =
     (let ih1 = ih\<lparr>ih_cksum := 0\<rparr>
      in case ip_cksum (ip_hdr_bytes ih1) (ip_hdr_len ih1) of
           None \<Rightarrow> Inl Ip_out_of_bounds
         | Some _ \<Rightarrow> Inr ih1)"

fun cksum_parts :: "(bytes \<times> nat) list \<Rightarrow> u32 \<Rightarrow> u32 option" where
  "cksum_parts [] s = Some s"
| "cksum_parts ((u8, len) # parts) s =
     (case cksum_loop u8 0 (u16len_of len) s of
        None \<Rightarrow> None
      | Some s' \<Rightarrow> cksum_parts parts s')"

definition ip_cksum_multi :: "(bytes \<times> nat) list \<Rightarrow> u16 option" where
  "ip_cksum_multi parts = map_option cksum_final (cksum_parts parts 0)"

definition udp_hdr_cksum_set ::
    "u32 \<Rightarrow> u32 \<Rightarrow> udp_hdr \<Rightarrow> bytes \<Rightarrow> nat \<Rightarrow> ip_error + udp_hdr \<times> u16" where
  "udp_hdr_cksum_set saddr daddr hdr data data_len =
     (let phdr = \<lparr>up_saddr = saddr, up_daddr = daddr, up_zero = 0, up_protocol = 0x11,
                  up_udplen = of_nat (sizeof_udp_hdr + data_len), up_sport = uh_source hdr,
                  up_dport = uh_dest hdr, up_len = uh_len hdr, up_cksum = 0\<rparr>;
          phdr_bytes = udp_cksum_pseudohdr_bytes phdr
      in case ip_cksum_multi [(phdr_bytes, length phdr_bytes), (data, data_len)] of
           None \<Rightarrow> Inl Ip_out_of_bounds
         | Some c \<Rightarrow>
             (let hdr1 = hdr\<lparr>uh_cksum := c\<rparr>;
                  hdr2 = (if uh_cksum hdr1 = 0 then hdr1\<lparr>uh_cksum := 0xFFFF\<rparr> else hdr1)
              in Inr (hdr2, uh_cksum hdr2)))"

definition tcp_hdr_cksum_set ::
    "u32 \<Rightarrow> u32 \<Rightarrow> tcp_hdr \<Rightarrow> bytes \<Rightarrow> nat \<Rightarrow> ip_error + tcp_hdr \<times> u16" where
  "tcp_hdr_cksum_set saddr daddr hdr data data_len =
     (let phdr = \<lparr>tp_saddr = saddr, tp_daddr = daddr, tp_zero = 0, tp_protocol = 0x06,
                  tp_tcp_segment_length = of_nat (sizeof_tcp_hdr + data_len)\<rparr>;
          phdr_bytes = tcp_cksum_pseudohdr_bytes phdr
      in case ip_cksum_multi [(phdr_bytes, length phdr_bytes), (data, data_len)] of
           None \<Rightarrow> Inl Ip_out_of_bounds
         | Some c \<Rightarrow>
             (let hdr1 = hdr\<lparr>th_checksum := c\<rparr>;
                  hdr2 = (if th_checksum hdr1 = 0 then hdr1\<lparr>th_checksum := 0xFFFF\<rparr> else hdr1)
              in Inr (hdr2, th_checksum hdr2)))"

section \<open>Filling in default headers\<close>

definition ip_headers_default_set ::
    "u16 \<Rightarrow> ip_hdr \<Rightarrow> u8 \<Rightarrow> u32 \<Rightarrow> u32 \<Rightarrow> nat \<Rightarrow> ip_error + ip_hdr \<times> u16" where
  "ip_headers_default_set ident hdr protocol saddr daddr data_len =
     (let hdr1 = hdr\<lparr>ih_version := 0x4, ih_ihl := 0x5, ih_type_of_service := 0x00\<rparr>
      in if data_len + sizeof_ip_hdr > 65535 then Inl Ip_oversize_payload
         else
           (let hdr2 = hdr1\<lparr>ih_total_length := of_nat (sizeof_ip_udp_hdr + data_len),
                            ih_identification := htons ident,
                            ih_frag_off := htons 0x0000,
                            ih_time_to_live := 64,
                            ih_protocol := protocol,
                            ih_cksum := htons 0x0000,
                            ih_saddr := saddr,
                            ih_daddr := daddr\<rparr>
            in case ip_hdr_cksum_set hdr2 of
                 Inl e \<Rightarrow> Inl e
               | Inr hdr3 \<Rightarrow> Inr (hdr3, ident + 1)))"

text \<open>
  \<open>memcpy\<close> of \<open>n\<close> bytes to offset \<open>off\<close> of a heap block of \<open>blk\<close> bytes stays inside the block.
\<close>

definition heap_write_ok :: "nat \<Rightarrow> nat \<Rightarrow> nat \<Rightarrow> bool" where
  "heap_write_ok blk off n \<longleftrightarrow> off + n \<le> blk"

definition ip_udp_headers_default_set ::
    "u16 \<Rightarrow> ip_hdr \<Rightarrow> u32 \<Rightarrow> u16 \<Rightarrow> u32 \<Rightarrow> u16 \<Rightarrow> bytes \<Rightarrow> nat \<Rightarrow>
     ip_error + ip_hdr \<times> udp_hdr \<times> u16" where
  "ip_udp_headers_default_set ident hdr saddr sport daddr dport data data_len =
     (let udp1 = \<lparr>uh_source = sport, uh_dest = dport,
                  uh_len = of_nat (data_len + sizeof_pointer), uh_cksum = 0\<rparr>
      in case udp_hdr_cksum_set saddr daddr udp1 data data_len of
           Inl e \<Rightarrow> Inl e
         | Inr (udp2, _) \<Rightarrow>
             (let blk = data_len + sizeof_pointer
              in if \<not> heap_write_ok blk 0 sizeof_udp_hdr then Inl Ip_heap_overflow
                 else if length data < data_len then Inl Ip_out_of_bounds
                 else if \<not> heap_write_ok blk sizeof_pointer data_len then Inl Ip_heap_overflow
                 else case ip_headers_default_set ident hdr IPV4_PROTOCOL_UDP saddr daddr
                             (data_len + sizeof_pointer) of
                        Inl e \<Rightarrow> Inl e
                      | Inr (hdr', ident') \<Rightarrow> Inr (hdr', udp2, ident')))"

definition ip_tcp_headers_default_set ::
    "u16 \<Rightarrow> ip_hdr \<Rightarrow> u32 \<Rightarrow> u16 \<Rightarrow> u32 \<Rightarrow> u16 \<Rightarrow> bytes \<Rightarrow> nat \<Rightarrow>
     ip_error + ip_hdr \<times> tcp_hdr \<times> u16" where
  "ip_tcp_headers_default_set ident hdr saddr sport daddr dport data data_len =
     (let tcp1 = \<lparr>th_source_port = sport, th_destination_port = dport,
                  th_sequence_number = 0, th_acknowledgement_number = 0, th_data_offset = 0,
                  th_window = 65535, th_checksum = 0, th_urgent_pointer = 0\<rparr>
      in case tcp_hdr_cksum_set saddr daddr tcp1 data data_len of
           Inl e \<Rightarrow> Inl e
         | Inr (tcp2, _) \<Rightarrow>
             (let blk = data_len + sizeof_pointer
              in if \<not> heap_write_ok blk 0 sizeof_tcp_hdr then Inl Ip_heap_overflow
                 else if length data < data_len then Inl Ip_out_of_bounds
                 else if \<not> heap_write_ok blk sizeof_pointer data_len then Inl Ip_heap_overflow
                 else case ip_headers_default_set ident hdr IPV4_PROTOCOL_TCP saddr daddr
                             (data_len + sizeof_udp_hdr) of
                        Inl e \<Rightarrow> Inl e
                      | Inr (hdr', ident') \<Rightarrow> Inr (hdr', tcp2, ident')))"

section \<open>Layout lemmas\<close>

lemma length_hdr_bytes [layout_simps, simp]:
  "length (ip_hdr_bytes h) = 20" "length (udp_hdr_bytes u) = 8" "length (tcp_hdr_bytes t) = 20"
  "length (udp_cksum_pseudohdr_bytes p) = 20" "length (tcp_cksum_pseudohdr_bytes q) = 12"
  by (simp_all add: ip_hdr_bytes_def udp_hdr_bytes_def tcp_hdr_bytes_def
      udp_cksum_pseudohdr_bytes_def tcp_cksum_pseudohdr_bytes_def)

lemma nibbles:
  fixes a b :: u4
  shows "ucast (ucast a OR push_bit 4 (ucast b) :: u8) = a"
    and "ucast (drop_bit 4 (ucast a :: u8) OR drop_bit 4 (push_bit 4 (ucast b :: u8))) = b"
  by (rule bit_eqI, auto simp: bit_or_iff bit_push_bit_iff bit_ucast_iff bit_drop_bit_eq
      dest: bit_imp_le_length)+

lemma ip_hdr_at_bytes [layout_simps]: "ip_hdr_at (ip_hdr_bytes h @ rest) = Some h"
  by (simp add: ip_hdr_at_def ip_hdr_bytes_def le16_def le32_def nibbles layout_simps)

lemma tcp_hdr_at_bytes [layout_simps]: "tcp_hdr_at (tcp_hdr_bytes t @ rest) = Some t"
  by (simp add: tcp_hdr_at_def tcp_hdr_bytes_def le16_def le32_def layout_simps)

lemma protocol_byte [layout_simps]: "(ip_hdr_bytes h @ rest) ! 9 = ih_protocol h"
  by (simp add: ip_hdr_bytes_def le16_def)

section \<open>The summation loop\<close>

text \<open>The memory as an array of little-endian 16-bit integers.\<close>

fun words16 :: "bytes \<Rightarrow> u16 list" where
  "words16 (a # b # m) = of_le16 a b # words16 m"
| "words16 m = []"

lemma length_words16 [simp]: "length (words16 m) = length m div 2"
  by (induction m rule: words16.induct) auto

lemma words16_nth: "2 * i + 1 < length m \<Longrightarrow> words16 m ! i = of_le16 (m ! (2 * i)) (m ! (2 * i + 1))"
proof (induction m arbitrary: i rule: words16.induct)
  case (1 a b m)
  then show ?case by (cases i) auto
qed auto

lemma u16_at_eq: "u16_at m i = (if i < length (words16 m) then Some (words16 m ! i) else None)"
  using words16_nth [of i m] by (auto simp: u16_at_def)

lemma cksum_loop_eq:
  "cksum_loop m i n s =
     (if n \<le> length (words16 m) \<or> n \<le> i
      then Some (s + sum_list (map ucast (take (n - i) (drop i (words16 m))))) else None)"
proof (induction m i n s rule: cksum_loop.induct)
  case (1 m i n s)
  show ?case
  proof (cases "i < n \<and> i < length (words16 m)")
    case True
    then have "take (n - i) (drop i (words16 m)) =
        words16 m ! i # take (n - (i + 1)) (drop (i + 1) (words16 m))"
      by (metis Cons_nth_drop_Suc Suc_diff_Suc Suc_eq_plus1 take_Suc_Cons)
    with True 1 show ?thesis
      by (subst cksum_loop.simps) (auto simp: u16_at_eq add.assoc)
  next
    case False
    then show ?thesis by (subst cksum_loop.simps) (auto simp: u16_at_eq)
  qed
qed

lemma cksum_loop_ok [simp]:
  "2 * n \<le> length m \<Longrightarrow>
   cksum_loop m 0 n s = Some (s + sum_list (map ucast (take n (words16 m))))"
  by (auto simp: cksum_loop_eq less_eq_div_iff_mult_less_eq)

lemma u16len_of_even [simp]: "u16len_of (2 * n) = n"
  by (simp add: u16len_of_def)

lemma u16len_of_numeral [simp]: "u16len_of 20 = 10" "u16len_of 12 = 6"
  by (simp_all add: u16len_of_def)

text \<open>The memory a payload pointer must give access to: an odd length reads one byte more.\<close>

definition readable16 :: "bytes \<Rightarrow> nat \<Rightarrow> bool" where
  "readable16 data data_len \<longleftrightarrow> 2 * u16len_of data_len \<le> length data"

lemma readable16_length: "readable16 data data_len \<Longrightarrow> data_len \<le> length data"
  by (auto simp: readable16_def u16len_of_def split: if_splits)

lemma readable16_c_str: "readable16 (data @ [0]) (length data)"
  unfolding readable16_def u16len_of_def length_append by (auto, presburger)

lemma ip_cksum_multi_ok:
  "readable16 data data_len \<Longrightarrow> length p = 20 \<or> length p = 12 \<Longrightarrow>
   \<exists>c. ip_cksum_multi [(p, length p), (data, data_len)] = Some c"
  by (auto simp: ip_cksum_multi_def readable16_def)

lemma ip_hdr_cksum_set_ok:
  "ih_ihl ih = 5 \<Longrightarrow> ip_hdr_cksum_set ih = Inr (ih\<lparr>ih_cksum := 0\<rparr>)"
  by (simp add: ip_hdr_cksum_set_def ip_cksum_def ip_hdr_len_def Let_def)

section \<open>What the header functions compute\<close>

text \<open>The header \<open>ip_headers_default_set\<close> leaves behind, and its only failure.\<close>

definition default_ip_hdr :: "u16 \<Rightarrow> u8 \<Rightarrow> u32 \<Rightarrow> u32 \<Rightarrow> nat \<Rightarrow> ip_hdr" where
  "default_ip_hdr ident protocol saddr daddr data_len =
     \<lparr>ih_ihl = 5, ih_version = 4, ih_type_of_service = 0,
      ih_total_length = of_nat (28 + data_len), ih_identification = htons ident, ih_frag_off = 0,
      ih_time_to_live = 64, ih_protocol = protocol, ih_cksum = 0, ih_saddr = saddr,
      ih_daddr = daddr\<rparr>"

lemma htons_0 [simp]: "htons 0 = 0"
  by (simp add: htons_def)

lemma ip_headers_default_set_eq:
  "ip_headers_default_set ident hdr protocol saddr daddr data_len =
     (if data_len + 20 > 65535 then Inl Ip_oversize_payload
      else Inr (default_ip_hdr ident protocol saddr daddr data_len, ident + 1))"
  by (simp add: ip_headers_default_set_def ip_hdr_cksum_set_ok default_ip_hdr_def layout_simps)

lemma udp_hdr_cksum_set_ok:
  assumes "readable16 data data_len"
  obtains c where "c \<noteq> 0"
    "udp_hdr_cksum_set saddr daddr hdr data data_len = Inr (hdr\<lparr>uh_cksum := c\<rparr>, c)"
proof -
  let ?p = "udp_cksum_pseudohdr_bytes
    \<lparr>up_saddr = saddr, up_daddr = daddr, up_zero = 0, up_protocol = 0x11,
     up_udplen = of_nat (sizeof_udp_hdr + data_len), up_sport = uh_source hdr,
     up_dport = uh_dest hdr, up_len = uh_len hdr, up_cksum = 0\<rparr>"
  obtain c where "ip_cksum_multi [(?p, length ?p), (data, data_len)] = Some c"
    using ip_cksum_multi_ok [OF assms, of ?p] by auto
  then show thesis
    using that [of "if c = 0 then 0xFFFF else c"]
    by (auto simp: udp_hdr_cksum_set_def Let_def split: if_splits)
qed

lemma tcp_hdr_cksum_set_ok:
  assumes "readable16 data data_len"
  obtains c where "c \<noteq> 0"
    "tcp_hdr_cksum_set saddr daddr hdr data data_len = Inr (hdr\<lparr>th_checksum := c\<rparr>, c)"
proof -
  let ?p = "tcp_cksum_pseudohdr_bytes
    \<lparr>tp_saddr = saddr, tp_daddr = daddr, tp_zero = 0, tp_protocol = 0x06,
     tp_tcp_segment_length = of_nat (sizeof_tcp_hdr + data_len)\<rparr>"
  obtain c where "ip_cksum_multi [(?p, length ?p), (data, data_len)] = Some c"
    using ip_cksum_multi_ok [OF assms, of ?p] by auto
  then show thesis
    using that [of "if c = 0 then 0xFFFF else c"]
    by (auto simp: tcp_hdr_cksum_set_def Let_def split: if_splits)
qed

lemma tcp_classified:
  assumes "9 < length bv" "bv ! 9 = IPV4_PROTOCOL_TCP"
  shows "ip_bytevector_is_udp bv = Inr False" "ip_bytevector_is_tcp bv = Inr True"
    "ip_bytevector_data_start bv = Inr 40"
  using assms
  by (simp_all add: ip_bytevector_is_udp_def ip_bytevector_is_tcp_def ip_bytevector_data_start_def
      ip_bytevector_tcp_data_start_def layout_simps ip_protocols)

section \<open>Checksum arithmetic\<close>

lemma unat_bound: "unat (w :: u16) < 65536"
  using unsigned_less [of w, where ?'a = nat] by simp

lemma unat_sum_list_ucast:
  fixes ws :: "u16 list"
  shows "sum_list (map unat ws) < 2 ^ 32 \<Longrightarrow>
    unat (sum_list (map ucast ws) :: u32) = sum_list (map unat ws)"
proof (induction ws)
  case (Cons w ws)
  have "unat (ucast w :: u32) = unat w"
    using unat_bound [of w] by (simp add: unsigned_ucast_eq take_bit_nat_eq_self)
  with Cons show ?case by (simp add: unat_add_lem [THEN iffD1])
qed simp

lemma low_half_mask: "(0xFFFF :: u32) = mask 16" "(0xFFFF0000 :: u32) = push_bit 16 (mask 16)"
  by (simp_all add: mask_eq_exp_minus_1)

lemma unat_not:
  fixes w :: u16
  shows "unat w + unat (NOT w) = 65535"
proof -
  have "NOT w = - 1 - w" by (simp add: not_eq_complement)
  moreover have "unat (- 1 - w) = unat (- 1 :: u16) - unat w"
    by (rule unat_sub) simp
  ultimately show ?thesis
    using unat_bound [of w] by (simp add: unsigned_minus_1_eq_mask mask_eq_exp_minus_1)
qed

section \<open>Properties\<close>

text \<open>
  The outcome of \<open>ip_udp_headers_default_set\<close> on every payload that is readable (for an odd
  length, with its terminating byte).  It fails exactly when the payload is longer than 65507
  bytes; otherwise it fills both headers, bumps the identification counter, and never leaves the
  UDP checksum 0.  The total length it stores is the size of the packet plus 8, because the UDP
  header is counted twice, and it wraps from 65500 payload bytes on.
\<close>

theorem ip_udp_headers_outcome:
  assumes "readable16 data data_len"
  shows "\<exists>c. c \<noteq> 0 \<and>
    ip_udp_headers_default_set ident hdr saddr sport daddr dport data data_len =
      (if 65507 < data_len then Inl Ip_oversize_payload
       else Inr (default_ip_hdr ident IPV4_PROTOCOL_UDP saddr daddr (data_len + 8),
                 \<lparr>uh_source = sport, uh_dest = dport, uh_len = of_nat (data_len + 8), uh_cksum = c\<rparr>,
                 ident + 1)) \<and>
    unat (ih_total_length (default_ip_hdr ident IPV4_PROTOCOL_UDP saddr daddr (data_len + 8))) =
      (28 + data_len + 8) mod 65536"
proof -
  obtain c where c: "c \<noteq> 0"
    "udp_hdr_cksum_set saddr daddr
       \<lparr>uh_source = sport, uh_dest = dport, uh_len = of_nat (data_len + sizeof_pointer), uh_cksum = 0\<rparr>
       data data_len =
     Inr (\<lparr>uh_source = sport, uh_dest = dport, uh_len = of_nat (data_len + sizeof_pointer),
           uh_cksum = 0\<rparr>\<lparr>uh_cksum := c\<rparr>, c)"
    by (rule udp_hdr_cksum_set_ok [OF assms])
  have "unat (ih_total_length (default_ip_hdr ident IPV4_PROTOCOL_UDP saddr daddr (data_len + 8))) =
      (28 + data_len + 8) mod 65536"
    by (simp add: default_ip_hdr_def unat_of_nat del: of_nat_add)
  moreover have "ip_udp_headers_default_set ident hdr saddr sport daddr dport data data_len =
      (if 65507 < data_len then Inl Ip_oversize_payload
       else Inr (default_ip_hdr ident IPV4_PROTOCOL_UDP saddr daddr (data_len + 8),
                 \<lparr>uh_source = sport, uh_dest = dport, uh_len = of_nat (data_len + 8), uh_cksum = c\<rparr>,
                 ident + 1))"
    using readable16_length [OF assms]
    by (simp only: ip_udp_headers_default_set_def Let_def c)
      (auto simp: ip_headers_default_set_eq heap_write_ok_def layout_simps)
  ultimately show ?thesis using c(1) by blast
qed

theorem ip_udp_headers_outcome_witness:
  "\<exists>c. c \<noteq> 0 \<and>
    ip_udp_headers_default_set 7 (default_ip_hdr 0 0 0 0 0) 1 2 3 4 [5, 0] 1 =
      (if 65507 < (1::nat) then Inl Ip_oversize_payload
       else Inr (default_ip_hdr 7 IPV4_PROTOCOL_UDP 1 3 (1 + 8),
                 \<lparr>uh_source = 2, uh_dest = 4, uh_len = of_nat (1 + 8), uh_cksum = c\<rparr>, 7 + 1)) \<and>
    unat (ih_total_length (default_ip_hdr 7 IPV4_PROTOCOL_UDP 1 3 (1 + 8))) =
      (28 + 1 + 8) mod 65536"
  by (rule ip_udp_headers_outcome) (simp add: readable16_def u16len_of_def)

lemma tcp_headers_result:
  assumes "readable16 data data_len"
  shows "\<exists>c. c \<noteq> 0 \<and>
    ip_tcp_headers_default_set ident hdr saddr sport daddr dport data data_len =
      (if data_len < 12 then Inl Ip_heap_overflow
       else if 65507 < data_len then Inl Ip_oversize_payload
       else Inr (default_ip_hdr ident IPV4_PROTOCOL_TCP saddr daddr (data_len + 8),
                 \<lparr>th_source_port = sport, th_destination_port = dport, th_sequence_number = 0,
                  th_acknowledgement_number = 0, th_data_offset = 0, th_window = 65535,
                  th_checksum = c, th_urgent_pointer = 0\<rparr>,
                 ident + 1)) \<and>
    unat (ih_total_length (default_ip_hdr ident IPV4_PROTOCOL_TCP saddr daddr (data_len + 8))) =
      (40 + data_len - 4) mod 65536"
proof -
  let ?t = "\<lparr>th_source_port = sport, th_destination_port = dport, th_sequence_number = 0,
    th_acknowledgement_number = 0, th_data_offset = 0, th_window = 65535, th_checksum = 0,
    th_urgent_pointer = 0\<rparr>"
  obtain c where c: "c \<noteq> 0"
    "tcp_hdr_cksum_set saddr daddr ?t data data_len = Inr (?t\<lparr>th_checksum := c\<rparr>, c)"
    by (rule tcp_hdr_cksum_set_ok [OF assms])
  have "unat (ih_total_length (default_ip_hdr ident IPV4_PROTOCOL_TCP saddr daddr (data_len + 8))) =
      (40 + data_len - 4) mod 65536"
    by (simp add: default_ip_hdr_def unat_of_nat del: of_nat_add)
  moreover have "ip_tcp_headers_default_set ident hdr saddr sport daddr dport data data_len =
      (if data_len < 12 then Inl Ip_heap_overflow
       else if 65507 < data_len then Inl Ip_oversize_payload
       else Inr (default_ip_hdr ident IPV4_PROTOCOL_TCP saddr daddr (data_len + 8),
                 ?t\<lparr>th_checksum := c\<rparr>, ident + 1))"
    using readable16_length [OF assms]
    by (simp only: ip_tcp_headers_default_set_def Let_def c)
      (auto simp: ip_headers_default_set_eq heap_write_ok_def layout_simps)
  ultimately show ?thesis using c(1) by (intro exI [of _ c]) simp
qed

text \<open>
  The outcome of \<open>ip_tcp_headers_default_set\<close> on every readable payload.  A payload shorter
  than 12 bytes makes it write past its heap block, which was sized with the size of a pointer; one
  longer than 65507 bytes is refused; otherwise both headers are filled in.  The stored total
  length is 4 less than the size of the packet.
\<close>

theorem ip_tcp_headers_outcome:
  assumes "readable16 data data_len"
  shows "\<exists>c. c \<noteq> 0 \<and>
    ip_tcp_headers_default_set ident hdr saddr sport daddr dport data data_len =
      (if data_len < 12 then Inl Ip_heap_overflow
       else if 65507 < data_len then Inl Ip_oversize_payload
       else Inr (default_ip_hdr ident IPV4_PROTOCOL_TCP saddr daddr (data_len + 8),
                 \<lparr>th_source_port = sport, th_destination_port = dport, th_sequence_number = 0,
                  th_acknowledgement_number = 0, th_data_offset = 0, th_window = 65535,
                  th_checksum = c, th_urgent_pointer = 0\<rparr>,
                 ident + 1)) \<and>
    unat (ih_total_length (default_ip_hdr ident IPV4_PROTOCOL_TCP saddr daddr (data_len + 8))) =
      (40 + data_len - 4) mod 65536"
  using assms by (rule tcp_headers_result)

theorem ip_tcp_headers_outcome_witness:
  "ip_tcp_headers_default_set 7 (default_ip_hdr 0 0 0 0 0) 1 2 3 4 [5, 0] 1 = Inl Ip_heap_overflow"
proof -
  have "readable16 [5, 0] 1" by (simp add: readable16_def u16len_of_def)
  from ip_tcp_headers_outcome [OF this, of 7 "default_ip_hdr 0 0 0 0 0" 1 2 3 4]
  show ?thesis by auto
qed

lemma tcp_packet_layout:
  assumes "ip_tcp_headers_default_set ident hdr saddr sport daddr dport data data_len =
             Inr (ih, th, ident')"
    and "pkt = ip_hdr_bytes ih @ tcp_hdr_bytes th @ payload"
  shows "ip_bytevector_validate pkt \<and> ip_bytevector_is_udp pkt = Inr False \<and>
         ip_bytevector_is_tcp pkt = Inr True \<and>
         ip_bytevector_data_start pkt = Inr (length pkt - length payload) \<and>
         drop (length pkt - length payload) pkt = payload \<and>
         ip_hdr_at pkt = Some ih \<and> tcp_hdr_at (drop sizeof_ip_hdr pkt) = Some th \<and>
         ih_saddr ih = saddr \<and> ih_daddr ih = daddr \<and>
         th_source_port th = sport \<and> th_destination_port th = dport"
proof -
  have ih: "ih = default_ip_hdr ident IPV4_PROTOCOL_TCP saddr daddr (data_len + 8)"
    using assms(1) by (auto simp: ip_tcp_headers_default_set_def Let_def ip_headers_default_set_eq
        layout_simps split: sum.splits if_splits)
  have th: "th_source_port th = sport" "th_destination_port th = dport"
    using assms(1) by (auto simp: ip_tcp_headers_default_set_def tcp_hdr_cksum_set_def Let_def
        split: sum.splits if_splits option.splits)
  have "ih_protocol ih = IPV4_PROTOCOL_TCP" by (simp add: ih default_ip_hdr_def)
  then have proto: "9 < length pkt" "pkt ! 9 = IPV4_PROTOCOL_TCP"
    by (simp_all add: assms(2) protocol_byte)
  have "drop sizeof_ip_hdr pkt = tcp_hdr_bytes th @ payload"
    by (simp add: assms(2) layout_simps)
  then have "tcp_hdr_at (drop sizeof_ip_hdr pkt) = Some th"
    by (simp add: tcp_hdr_at_bytes)
  moreover have "ip_hdr_at pkt = Some ih"
    by (simp add: assms(2) ip_hdr_at_bytes)
  moreover have "ip_bytevector_validate pkt"
    using calculation by (simp add: ip_bytevector_validate_def ip_hdr_valid_def layout_simps assms(2))
  moreover have "length pkt = 40 + length payload" "drop 40 pkt = payload"
    by (simp_all add: assms(2))
  ultimately show ?thesis
    using th tcp_classified [OF proto] by (simp add: ih default_ip_hdr_def)
qed

text \<open>
  C36: The receiving side understands the packets the sending side builds.  A packet laid out as IP
  header, TCP header and payload, with the headers of \<open>ip_tcp_headers_default_set\<close>, passes
  \<open>ip_bytevector_validate\<close>, is classified as TCP and not as UDP, its data starts where the payload
  starts, and reading its headers back gives the addresses and ports that were put in.
\<close>

theorem ip_tcp_packet_understood:
  assumes "ip_tcp_headers_default_set ident hdr saddr sport daddr dport data data_len =
             Inr (ih, th, ident')"
    and "pkt = ip_hdr_bytes ih @ tcp_hdr_bytes th @ payload"
  shows "ip_bytevector_validate pkt \<and> ip_bytevector_is_udp pkt = Inr False \<and>
         ip_bytevector_is_tcp pkt = Inr True \<and>
         ip_bytevector_data_start pkt = Inr (length pkt - length payload) \<and>
         drop (length pkt - length payload) pkt = payload \<and>
         ip_hdr_at pkt = Some ih \<and> tcp_hdr_at (drop sizeof_ip_hdr pkt) = Some th \<and>
         ih_saddr ih = saddr \<and> ih_daddr ih = daddr \<and>
         th_source_port th = sport \<and> th_destination_port th = dport"
  using assms by (rule tcp_packet_layout)

theorem ip_tcp_packet_understood_witness:
  "\<exists>ih th ident'. ip_tcp_headers_default_set 0 (default_ip_hdr 0 0 0 0 0) 1 2 3 4
       (replicate 12 9) 12 = Inr (ih, th, ident') \<and>
     ip_bytevector_is_tcp (ip_hdr_bytes ih @ tcp_hdr_bytes th @ replicate 12 9) = Inr True"
proof -
  have "readable16 (replicate 12 9) 12" by (simp add: readable16_def)
  from tcp_headers_result [OF this, of 0 "default_ip_hdr 0 0 0 0 0" 1 2 3 4]
  obtain ih th ident' where
    *: "ip_tcp_headers_default_set 0 (default_ip_hdr 0 0 0 0 0) 1 2 3 4 (replicate 12 9) 12 =
        Inr (ih, th, ident')"
    by auto
  from ip_tcp_packet_understood [OF * refl, of "replicate 12 9"] * show ?thesis by blast
qed

text \<open>The checksum of RFC 1071: the sum of the words with the carries folded in twice, complemented.\<close>

definition rfc1071 :: "u32 \<Rightarrow> u16" where
  "rfc1071 s =
     (let t = (s AND 0xFFFF) + drop_bit 16 s; t' = (t AND 0xFFFF) + drop_bit 16 t
      in NOT (ucast t'))"

lemma unat_low_half: "unat (s AND 0xFFFF :: u32) = unat s mod 65536"
proof -
  have "s AND 0xFFFF = take_bit 16 s" by (simp add: take_bit_eq_mask mask_eq_exp_minus_1)
  moreover have "unat (take_bit 16 s) = unat s mod 65536" by (simp add: take_bit_eq_mod unat_mod_distrib)
  ultimately show ?thesis by (simp only:)
qed

lemma unat_u32: "unat (w :: u32) < 4294967296"
  by (rule order_less_le_trans [OF unsigned_less]) simp

lemma unat_high_half:
  "unat (drop_bit 16 (s :: u32)) = unat s div 65536" "unat (drop_bit 8 (s AND 0xFFFF0000 :: u32)) = 256 * (unat s div 65536)"
proof -
  show high: "unat (drop_bit 16 s) = unat s div 65536" by (simp add: drop_bit_eq_div unat_div_distrib)
  have "drop_bit 8 (s AND 0xFFFF0000) = push_bit 8 (drop_bit 16 s)"
    by (rule bit_eqI)
      (use bit_imp_le_length [of s] in \<open>force simp: low_half_mask(2) bit_and_iff bit_push_bit_iff bit_drop_bit_eq bit_mask_iff add.commute\<close>)
  moreover have "256 * (unat s div 65536) < 4294967296" using unat_u32 [of s] by linarith
  ultimately show "unat (drop_bit 8 (s AND 0xFFFF0000)) = 256 * (unat s div 65536)"
    by (simp add: push_bit_eq_mult unat_word_ariths high)
qed

text \<open>What the two ways of folding give, as numbers: \<open>k\<close> carries out of the low half.\<close>

lemma unat_folds:
  fixes s :: u32
  defines "lo \<equiv> unat s mod 65536" and "k \<equiv> unat s div 65536"
  shows "unat (NOT (cksum_final s)) = (lo + 256 * k) mod 65536"
    "unat (NOT (rfc1071 s)) = (if lo + k < 65536 then lo + k else lo + k - 65535)"
proof -
  have b: "lo < 65536" "k < 65536" using unat_u32 [of s] by (simp_all add: lo_def k_def)
  have sum: "unat (v + w) = (unat v + unat w) mod 4294967296" for v w :: u32 by (simp add: unat_word_ariths)
  have "unat ((s AND 0xFFFF) + drop_bit 8 (s AND 0xFFFF0000)) = lo + 256 * k"
    unfolding sum unat_low_half unat_high_half lo_def [symmetric] k_def [symmetric] using b by simp
  then show "unat (NOT (cksum_final s)) = (lo + 256 * k) mod 65536"
    by (simp add: cksum_final_def unsigned_ucast_eq take_bit_eq_mod)
  define t where "t = (s AND 0xFFFF) + drop_bit 16 s"
  have t: "unat t = lo + k" using b
    unfolding t_def sum unat_low_half unat_high_half lo_def [symmetric] k_def [symmetric] by simp
  have "unat ((t AND 0xFFFF) + drop_bit 16 t) = (lo + k) mod 65536 + (lo + k) div 65536"
    unfolding sum unat_low_half unat_high_half t using b by simp
  moreover have "(lo + k) mod 65536 + (lo + k) div 65536 = (if lo + k < 65536 then lo + k else lo + k - 65535)"
  proof (cases "lo + k < 65536")
    case False
    then have "lo + k = 65536 + (lo + k - 65536)" "lo + k - 65536 < 65536" using b by simp_all
    then have "(lo + k) div 65536 = 1" "(lo + k) mod 65536 = lo + k - 65536"
      by (metis add.commute add_cancel_left_left div_add_self1 div_less mod_add_self1 mod_less zero_neq_numeral)+
    then show ?thesis using False by simp
  qed simp
  ultimately show "unat (NOT (rfc1071 s)) = (if lo + k < 65536 then lo + k else lo + k - 65535)"
    using b by (simp add: rfc1071_def Let_def unsigned_ucast_eq take_bit_eq_mod flip: t_def)
qed

lemma folds_agree:
  fixes s :: u32
  assumes "unat s div 65536 < 65279"
  shows "cksum_final s = rfc1071 s \<longleftrightarrow> unat s < 65536"
proof -
  define lo k where lk: "lo = unat s mod 65536" "k = unat s div 65536"
  have b: "lo < 65536" "k < 65279" using assms by (simp_all add: lk)
  have "coprime (255 :: nat) (2 ^ 16)" by (simp only: coprime_power_right_iff coprime_right_2_iff_odd) simp
  then have cop: "coprime (255 :: nat) 65536" by simp
  have "cksum_final s = rfc1071 s \<longleftrightarrow> unat (NOT (cksum_final s)) = unat (NOT (rfc1071 s))"
    by (simp add: word_eq_iff_unsigned [symmetric])
  also have "\<dots> \<longleftrightarrow> (lo + 256 * k) mod 65536 = (if lo + k < 65536 then lo + k else lo + k - 65535)"
    using unat_folds [of s] by (simp flip: lk)
  also have "\<dots> \<longleftrightarrow> k = 0"
  proof
    assume eq: "(lo + 256 * k) mod 65536 = (if lo + k < 65536 then lo + k else lo + k - 65535)"
    show "k = 0"
    proof (cases "lo + k < 65536")
      case True
      with eq have "(lo + 256 * k) mod 65536 = lo + k" by simp
      then have "lo + 256 * k = (lo + 256 * k) div 65536 * 65536 + (lo + k)" by (metis div_mult_mod_eq)
      then have "255 * k = 65536 * ((lo + 256 * k) div 65536)" by linarith
      then have "65536 dvd k" using cop by (metis coprime_dvd_mult_right_iff coprime_commute dvd_triv_left)
      then show ?thesis using b by (auto dest: dvd_imp_le)
    next
      case False
      with eq have "(lo + 256 * k) mod 65536 = lo + k - 65535" by simp
      then obtain q where "lo + 256 * k = q * 65536 + (lo + k - 65535)" by (metis div_mult_mod_eq)
      then have "255 * (k + 257) = 65536 * q" using False by simp
      then have "65536 dvd k + 257" using cop by (metis coprime_dvd_mult_right_iff coprime_commute dvd_triv_left)
      then show ?thesis using b by (auto dest: dvd_imp_le)
    qed
  qed (use b in simp)
  also have "\<dots> \<longleftrightarrow> unat s < 65536" by (auto simp: lk)
  finally show ?thesis .
qed

lemma u16len_of_eq: "u16len_of len = (len + 1) div 2"
  unfolding u16len_of_def by presburger

text \<open>
  C37: \<open>ip_cksum\<close> against RFC 1071, for data of up to 65535 bytes.  It returns when the memory holds the
  16-bit words asked for, and reads outside it otherwise; an odd length takes the byte behind the data for the
  second half of the last word, where the RFC takes a zero.  Of the words it reads it returns the checksum
  of the RFC exactly when their sum does not exceed 16 bits, and then the words and the checksum add up
  to \<open>0xFFFF\<close>; with any carry the result is wrong, because the carry is shifted by 8 instead of 16.
\<close>

theorem ip_cksum_rfc1071:
  assumes "len \<le> 65535"
  shows "(ip_cksum m len = None \<longleftrightarrow> length m < 2 * ((len + 1) div 2)) \<and>
    (\<forall>c ws. ip_cksum m len = Some c \<and> ws = take ((len + 1) div 2) (words16 m) \<longrightarrow>
       (c = rfc1071 (sum_list (map ucast ws)) \<longleftrightarrow> sum_list (map unat ws) \<le> 65535) \<and>
       (sum_list (map unat ws) \<le> 65535 \<longrightarrow> sum_list (map unat ws) + unat c = 65535))"
proof (intro conjI allI impI)
  let ?n = "(len + 1) div 2"
  have eq: "ip_cksum m len =
      (if 2 * ?n \<le> length m then Some (cksum_final (sum_list (map ucast (take ?n (words16 m))))) else None)"
    by (auto simp: ip_cksum_def u16len_of_eq cksum_loop_eq less_eq_div_iff_mult_less_eq)
  then show "ip_cksum m len = None \<longleftrightarrow> length m < 2 * ?n" by auto
  fix c ws
  assume a: "ip_cksum m len = Some c \<and> ws = take ?n (words16 m)"
  let ?s = "sum_list (map ucast ws) :: u32"
  have c: "c = cksum_final ?s" using a eq by (auto split: if_splits)
  have "length ws \<le> 32768" using a assms by simp
  moreover have "sum_list (map unat vs) \<le> 65535 * length vs" for vs :: "u16 list"
  proof (induction vs)
    case (Cons w ws)
    then show ?case using unat_bound [of w] by simp
  qed simp
  then have "sum_list (map unat ws) \<le> 65535 * length ws" .
  ultimately have small: "sum_list (map unat ws) \<le> 65535 * 32768" by linarith
  then have us: "unat ?s = sum_list (map unat ws)" by (intro unat_sum_list_ucast) simp
  then have "unat ?s div 65536 < 65279" using small by simp
  moreover have "unat ?s < 65536 \<longleftrightarrow> sum_list (map unat ws) \<le> 65535" unfolding us by linarith
  ultimately show "c = rfc1071 ?s \<longleftrightarrow> sum_list (map unat ws) \<le> 65535" using folds_agree [of ?s] unfolding c by blast
  assume "sum_list (map unat ws) \<le> 65535"
  then have "unat (NOT c) = sum_list (map unat ws)" using unat_folds(1) [of ?s] us by (simp add: c)
  then show "sum_list (map unat ws) + unat c = 65535" using unat_not [of "NOT c"] by simp
qed

theorem ip_cksum_rfc1071_witness:
  "\<exists>c. ip_cksum [0x01, 0x02, 0x03, 0x04] 3 = Some c \<and> c = rfc1071 (sum_list (map ucast [0x0201 :: u16, 0x0403]))"
proof -
  have w: "take ((3 + 1) div 2) (words16 [0x01, 0x02, 0x03, 0x04]) = [0x0201, 0x0403]" by (simp add: of_le16_def)
  have "(3 :: nat) \<le> 65535" by simp
  note r = ip_cksum_rfc1071 [OF this, of "[0x01, 0x02, 0x03, 0x04]"]
  have "ip_cksum [0x01, 0x02, 0x03, 0x04] 3 \<noteq> None" using conjunct1 [OF r] by simp
  then obtain c where c: "ip_cksum [0x01, 0x02, 0x03, 0x04] 3 = Some c" by blast
  have "sum_list (map unat [0x0201 :: u16, 0x0403]) \<le> 65535" by simp
  from iffD2 [OF conjunct1 [OF conjunct2 [OF r, THEN spec, THEN spec, THEN mp, OF conjI [OF c w [symmetric]]]] this]
  show ?thesis using c by (intro exI conjI)
qed

end
