(* ===== verification/IPv4.thy ===== *)
theory IPv4
  imports Ip
begin

text \<open>
  The second copy of the header helpers, \<^verbatim>\<open>udptoserial/IPv4.cpp\<close>, which the TCP server handler
  uses instead of \<^verbatim>\<open>libhorizr/ip.cpp\<close>.  \<^verbatim>\<open>IPv4.h\<close> declares its own \<open>ip4_hdr\<close>; its \<open>udp_hdr\<close>,
  \<open>tcp_hdr\<close> and checksum pseudo-headers are the same structures as those of \<^verbatim>\<open>ip.h\<close> and share
  their records.  The equivalence lemmas carry the results of theory \<open>Ip\<close> over to this copy.
\<close>

section \<open>The code\<close>

record ip4_hdr =
  i4_ihl :: u4
  i4_version :: u4
  i4_type_of_service :: u8
  i4_total_length :: u16
  i4_identification :: u16
  i4_frag_off :: u16
  i4_time_to_live :: u8
  i4_protocol :: u8
  i4_cksum :: u16
  i4_saddr :: u32
  i4_daddr :: u32

definition ip4_hdr_bytes :: "ip4_hdr \<Rightarrow> bytes" where
  "ip4_hdr_bytes h =
     [ucast (i4_ihl h) OR push_bit 4 (ucast (i4_version h)), i4_type_of_service h] @
     le16 (i4_total_length h) @ le16 (i4_identification h) @ le16 (i4_frag_off h) @
     [i4_time_to_live h, i4_protocol h] @ le16 (i4_cksum h) @ le32 (i4_saddr h) @ le32 (i4_daddr h)"

definition sizeof_ip4_hdr :: nat where "sizeof_ip4_hdr = 20"
definition sizeof_ip4_udp_hdr :: nat where "sizeof_ip4_udp_hdr = sizeof_ip4_hdr + sizeof_udp_hdr"

lemmas sizeof4_defs [layout_simps] = sizeof_ip4_hdr_def sizeof_ip4_udp_hdr_def

definition ip4_hdr_valid :: "ip4_hdr \<Rightarrow> bool" where
  "ip4_hdr_valid ih = True"

definition ip4_hdr_len :: "ip4_hdr \<Rightarrow> nat" where
  "ip4_hdr_len ih = unat (i4_ihl ih) * 4"

definition ip4_is_udp :: "ip4_hdr \<Rightarrow> bool" where
  "ip4_is_udp ih \<longleftrightarrow> i4_protocol ih = 0x11"

text \<open>The copy's own \<open>static\<close> checksum.\<close>

function ip4_cksum_loop :: "bytes \<Rightarrow> nat \<Rightarrow> nat \<Rightarrow> u32 \<Rightarrow> u32 option" where
  "ip4_cksum_loop u16 i u16len s =
     (if i < u16len then
        (case u16_at u16 i of
           None \<Rightarrow> None
         | Some w \<Rightarrow> ip4_cksum_loop u16 (i + 1) u16len (s + ucast w))
      else Some s)"
  by pat_completeness auto
termination
  by (relation "measure (\<lambda>(_, i, u16len, _). u16len - i)") auto

declare ip4_cksum_loop.simps [simp del]

definition ip4_u16len :: "nat \<Rightarrow> nat" where
  "ip4_u16len len = (if len mod 2 = 1 then len div 2 + 1 else len div 2)"

definition ip4_cksum_final :: "u32 \<Rightarrow> u16" where
  "ip4_cksum_final s = NOT (ucast ((s AND 0xFFFF) + drop_bit 8 (s AND 0xFFFF0000)))"

definition ip4_cksum :: "bytes \<Rightarrow> nat \<Rightarrow> u16 option" where
  "ip4_cksum u8 len = map_option ip4_cksum_final (ip4_cksum_loop u8 0 (ip4_u16len len) 0)"

definition ip4_hdr_cksum_set :: "ip4_hdr \<Rightarrow> ip_error + ip4_hdr" where
  "ip4_hdr_cksum_set ih =
     (let ih1 = ih\<lparr>i4_cksum := 0\<rparr>
      in case ip4_cksum (ip4_hdr_bytes ih1) (ip4_hdr_len ih1) of
           None \<Rightarrow> Inl Ip_out_of_bounds
         | Some _ \<Rightarrow> Inr ih1)"

fun ip4_cksum_parts :: "(bytes \<times> nat) list \<Rightarrow> u32 \<Rightarrow> u32 option" where
  "ip4_cksum_parts [] s = Some s"
| "ip4_cksum_parts ((u8, len) # parts) s =
     (case ip4_cksum_loop u8 0 (ip4_u16len len) s of
        None \<Rightarrow> None
      | Some s' \<Rightarrow> ip4_cksum_parts parts s')"

definition ip4_cksum_multi :: "(bytes \<times> nat) list \<Rightarrow> u16 option" where
  "ip4_cksum_multi parts = map_option ip4_cksum_final (ip4_cksum_parts parts 0)"

definition udp4_hdr_cksum_set ::
    "u32 \<Rightarrow> u32 \<Rightarrow> udp_hdr \<Rightarrow> bytes \<Rightarrow> nat \<Rightarrow> ip_error + udp_hdr \<times> u16" where
  "udp4_hdr_cksum_set saddr daddr hdr data data_len =
     (let phdr = \<lparr>up_saddr = saddr, up_daddr = daddr, up_zero = 0, up_protocol = 0x11,
                  up_udplen = of_nat (sizeof_udp_hdr + data_len), up_sport = uh_source hdr,
                  up_dport = uh_dest hdr, up_len = uh_len hdr, up_cksum = 0\<rparr>;
          phdr_bytes = udp_cksum_pseudohdr_bytes phdr
      in case ip4_cksum_multi [(phdr_bytes, length phdr_bytes), (data, data_len)] of
           None \<Rightarrow> Inl Ip_out_of_bounds
         | Some c \<Rightarrow>
             (let hdr1 = hdr\<lparr>uh_cksum := c\<rparr>;
                  hdr2 = (if uh_cksum hdr1 = 0 then hdr1\<lparr>uh_cksum := 0xFFFF\<rparr> else hdr1)
              in Inr (hdr2, uh_cksum hdr2)))"

definition tcp4_hdr_cksum_set ::
    "u32 \<Rightarrow> u32 \<Rightarrow> tcp_hdr \<Rightarrow> bytes \<Rightarrow> nat \<Rightarrow> ip_error + tcp_hdr \<times> u16" where
  "tcp4_hdr_cksum_set saddr daddr hdr data data_len =
     (let phdr = \<lparr>tp_saddr = saddr, tp_daddr = daddr, tp_zero = 0, tp_protocol = 0x06,
                  tp_tcp_segment_length = of_nat (sizeof_tcp_hdr + data_len)\<rparr>;
          phdr_bytes = tcp_cksum_pseudohdr_bytes phdr
      in case ip4_cksum_multi [(phdr_bytes, length phdr_bytes), (data, data_len)] of
           None \<Rightarrow> Inl Ip_out_of_bounds
         | Some c \<Rightarrow>
             (let hdr1 = hdr\<lparr>th_checksum := c\<rparr>;
                  hdr2 = (if th_checksum hdr1 = 0 then hdr1\<lparr>th_checksum := 0xFFFF\<rparr> else hdr1)
              in Inr (hdr2, th_checksum hdr2)))"

definition ip4_headers_default_set ::
    "u16 \<Rightarrow> ip4_hdr \<Rightarrow> u8 \<Rightarrow> u32 \<Rightarrow> u32 \<Rightarrow> nat \<Rightarrow> ip_error + ip4_hdr \<times> u16" where
  "ip4_headers_default_set ident hdr protocol saddr daddr data_len =
     (let hdr1 = hdr\<lparr>i4_version := 0x4, i4_ihl := 0x5, i4_type_of_service := 0x00\<rparr>
      in if data_len + sizeof_ip4_hdr > 65535 then Inl Ip_oversize_payload
         else
           (let hdr2 = hdr1\<lparr>i4_total_length := of_nat (sizeof_ip4_udp_hdr + data_len),
                            i4_identification := htons ident,
                            i4_frag_off := htons 0x0000,
                            i4_time_to_live := 64,
                            i4_protocol := protocol,
                            i4_cksum := htons 0x0000,
                            i4_saddr := saddr,
                            i4_daddr := daddr\<rparr>
            in case ip4_hdr_cksum_set hdr2 of
                 Inl e \<Rightarrow> Inl e
               | Inr hdr3 \<Rightarrow> Inr (hdr3, ident + 1)))"

definition ip4_udp_headers_default_set ::
    "u16 \<Rightarrow> ip4_hdr \<Rightarrow> u32 \<Rightarrow> u16 \<Rightarrow> u32 \<Rightarrow> u16 \<Rightarrow> bytes \<Rightarrow> nat \<Rightarrow>
     ip_error + ip4_hdr \<times> udp_hdr \<times> u16" where
  "ip4_udp_headers_default_set ident hdr saddr sport daddr dport data data_len =
     (let udp1 = \<lparr>uh_source = sport, uh_dest = dport,
                  uh_len = of_nat (data_len + sizeof_pointer), uh_cksum = 0\<rparr>
      in case udp4_hdr_cksum_set saddr daddr udp1 data data_len of
           Inl e \<Rightarrow> Inl e
         | Inr (udp2, _) \<Rightarrow>
             (let blk = data_len + sizeof_pointer
              in if \<not> heap_write_ok blk 0 sizeof_udp_hdr then Inl Ip_heap_overflow
                 else if length data < data_len then Inl Ip_out_of_bounds
                 else if \<not> heap_write_ok blk sizeof_pointer data_len then Inl Ip_heap_overflow
                 else case ip4_headers_default_set ident hdr IPV4_PROTOCOL_UDP saddr daddr
                             (data_len + sizeof_pointer) of
                        Inl e \<Rightarrow> Inl e
                      | Inr (hdr', ident') \<Rightarrow> Inr (hdr', udp2, ident')))"

definition ip4_tcp_headers_default_set ::
    "u16 \<Rightarrow> ip4_hdr \<Rightarrow> u32 \<Rightarrow> u16 \<Rightarrow> u32 \<Rightarrow> u16 \<Rightarrow> bytes \<Rightarrow> nat \<Rightarrow>
     ip_error + ip4_hdr \<times> tcp_hdr \<times> u16" where
  "ip4_tcp_headers_default_set ident hdr saddr sport daddr dport data data_len =
     (let tcp1 = \<lparr>th_source_port = sport, th_destination_port = dport,
                  th_sequence_number = 0, th_acknowledgement_number = 0, th_data_offset = 0,
                  th_window = 65535, th_checksum = 0, th_urgent_pointer = 0\<rparr>
      in case tcp4_hdr_cksum_set saddr daddr tcp1 data data_len of
           Inl e \<Rightarrow> Inl e
         | Inr (tcp2, _) \<Rightarrow>
             (let blk = data_len + sizeof_pointer
              in if \<not> heap_write_ok blk 0 sizeof_tcp_hdr then Inl Ip_heap_overflow
                 else if length data < data_len then Inl Ip_out_of_bounds
                 else if \<not> heap_write_ok blk sizeof_pointer data_len then Inl Ip_heap_overflow
                 else case ip4_headers_default_set ident hdr IPV4_PROTOCOL_TCP saddr daddr
                             (data_len + sizeof_udp_hdr) of
                        Inl e \<Rightarrow> Inl e
                      | Inr (hdr', ident') \<Rightarrow> Inr (hdr', tcp2, ident')))"

section \<open>The two copies agree\<close>

text \<open>An \<open>ip4_hdr\<close> seen as an \<open>ip_hdr\<close>: the same fields in the same places.\<close>

definition ip_of_ip4 :: "ip4_hdr \<Rightarrow> ip_hdr" where
  "ip_of_ip4 h =
     \<lparr>ih_ihl = i4_ihl h, ih_version = i4_version h, ih_type_of_service = i4_type_of_service h,
      ih_total_length = i4_total_length h, ih_identification = i4_identification h,
      ih_frag_off = i4_frag_off h, ih_time_to_live = i4_time_to_live h,
      ih_protocol = i4_protocol h, ih_cksum = i4_cksum h, ih_saddr = i4_saddr h,
      ih_daddr = i4_daddr h\<rparr>"

lemma ip4_hdr_bytes_eq [simp]: "ip4_hdr_bytes h = ip_hdr_bytes (ip_of_ip4 h)"
  by (simp add: ip4_hdr_bytes_def ip_hdr_bytes_def ip_of_ip4_def)

text \<open>The two checksums are the same function.\<close>

lemma ip4_cksum_loop_eq: "ip4_cksum_loop m i n s = cksum_loop m i n s"
proof (induction m i n s rule: ip4_cksum_loop.induct)
  case (1 m i n s)
  then show ?case by (subst ip4_cksum_loop.simps, subst cksum_loop.simps) (auto split: option.split)
qed

lemma ip4_cksum_parts_eq: "ip4_cksum_parts parts s = cksum_parts parts s"
  by (induction parts s rule: ip4_cksum_parts.induct)
    (simp_all add: ip4_cksum_loop_eq ip4_u16len_def u16len_of_def split: option.split)

lemma ip4_cksum_eq: "ip4_cksum = ip_cksum" "ip4_cksum_multi = ip_cksum_multi"
proof -
  have "ip4_cksum_final = cksum_final" "ip4_u16len = u16len_of"
    by (simp_all add: fun_eq_iff ip4_cksum_final_def cksum_final_def ip4_u16len_def u16len_of_def)
  then show "ip4_cksum = ip_cksum" "ip4_cksum_multi = ip_cksum_multi"
    by (intro ext; simp add: ip4_cksum_def ip_cksum_def ip4_cksum_multi_def ip_cksum_multi_def ip4_cksum_loop_eq
        ip4_cksum_parts_eq)+
qed

lemma ip4_cksum_set_eq:
  "udp4_hdr_cksum_set = udp_hdr_cksum_set" "tcp4_hdr_cksum_set = tcp_hdr_cksum_set"
  by (simp_all add: fun_eq_iff udp4_hdr_cksum_set_def udp_hdr_cksum_set_def
      tcp4_hdr_cksum_set_def tcp_hdr_cksum_set_def ip4_cksum_eq)

lemma ip4_hdr_cksum_set_eq:
  "map_sum id ip_of_ip4 (ip4_hdr_cksum_set h) = ip_hdr_cksum_set (ip_of_ip4 h)"
proof -
  have upd: "ip_of_ip4 (h\<lparr>i4_cksum := 0\<rparr>) = (ip_of_ip4 h)\<lparr>ih_cksum := 0\<rparr>"
    and len: "ip4_hdr_len (h\<lparr>i4_cksum := 0\<rparr>) = ip_hdr_len ((ip_of_ip4 h)\<lparr>ih_cksum := 0\<rparr>)"
    by (simp_all add: ip_of_ip4_def ip4_hdr_len_def ip_hdr_len_def)
  show ?thesis
    by (simp add: ip4_hdr_cksum_set_def ip_hdr_cksum_set_def Let_def ip4_cksum_eq
        upd len split: option.splits)
qed

lemma ip4_headers_default_set_eq:
  "map_sum id (map_prod ip_of_ip4 id) (ip4_headers_default_set ident h protocol saddr daddr len) =
     ip_headers_default_set ident (ip_of_ip4 h) protocol saddr daddr len"
proof -
  let ?h = "h\<lparr>i4_version := 4, i4_ihl := 5, i4_type_of_service := 0,
      i4_total_length := of_nat (28 + len), i4_identification := htons ident, i4_frag_off := 0,
      i4_time_to_live := 64, i4_protocol := protocol, i4_cksum := 0, i4_saddr := saddr,
      i4_daddr := daddr\<rparr>"
  have "ip_of_ip4 ?h = default_ip_hdr ident protocol saddr daddr len"
    by (simp add: ip_of_ip4_def default_ip_hdr_def)
  moreover have "ip4_hdr_cksum_set ?h = Inr ?h"
    by (simp add: ip4_hdr_cksum_set_def ip4_cksum_eq ip_cksum_def ip4_hdr_len_def Let_def)
  ultimately show ?thesis
    by (simp add: ip_headers_default_set_eq ip4_headers_default_set_def layout_simps)
qed

lemma ip4_builders_eq:
  "map_sum id (map_prod ip_of_ip4 id)
     (ip4_tcp_headers_default_set ident h saddr sport daddr dport data len) =
   ip_tcp_headers_default_set ident (ip_of_ip4 h) saddr sport daddr dport data len"
  "map_sum id (map_prod ip_of_ip4 id)
     (ip4_udp_headers_default_set ident h saddr sport daddr dport data len) =
   ip_udp_headers_default_set ident (ip_of_ip4 h) saddr sport daddr dport data len"
  by (auto simp: ip4_tcp_headers_default_set_def ip_tcp_headers_default_set_def
      ip4_udp_headers_default_set_def ip_udp_headers_default_set_def Let_def ip4_cksum_set_eq
      ip4_headers_default_set_eq [symmetric] split: sum.splits)

text \<open>
  C38: \<^verbatim>\<open>IPv4.cpp\<close> and \<^verbatim>\<open>ip.cpp\<close> build the same headers.  For every input the two TCP builders
  and the two UDP builders fail alike, or give the same transport header, the same next
  identification, and IP headers with the same bytes.
\<close>

theorem ip4_copy_equivalent:
  "map_sum id (map_prod ip_of_ip4 id)
     (ip4_tcp_headers_default_set ident h saddr sport daddr dport data len) =
   ip_tcp_headers_default_set ident (ip_of_ip4 h) saddr sport daddr dport data len \<and>
   map_sum id (map_prod ip_of_ip4 id)
     (ip4_udp_headers_default_set ident h saddr sport daddr dport data len) =
   ip_udp_headers_default_set ident (ip_of_ip4 h) saddr sport daddr dport data len \<and>
   ip4_hdr_bytes h = ip_hdr_bytes (ip_of_ip4 h)"
  by (intro conjI ip4_builders_eq ip4_hdr_bytes_eq)

section \<open>The contract of a TCP header builder\<close>

text \<open>
  What the connection handler and the serial port rely on when they wrap a payload: the builder
  overruns its heap block below 12 bytes, refuses what does not fit a datagram, and otherwise
  gives headers whose bytes are those of the standard headers.  Both copies of the code fulfil it.
\<close>

locale tcp_header_builder =
  fixes build ::
      "u16 \<Rightarrow> 'h \<Rightarrow> u32 \<Rightarrow> u16 \<Rightarrow> u32 \<Rightarrow> u16 \<Rightarrow> bytes \<Rightarrow> nat \<Rightarrow> ip_error + 'h \<times> tcp_hdr \<times> u16"
    and hdr_bytes :: "'h \<Rightarrow> bytes"
  assumes build_result:
    "readable16 data data_len \<Longrightarrow>
     \<exists>ih c. hdr_bytes ih = ip_hdr_bytes (default_ip_hdr ident IPV4_PROTOCOL_TCP saddr daddr (data_len + 8)) \<and>
       build ident hdr saddr sport daddr dport data data_len =
         (if data_len < 12 then Inl Ip_heap_overflow
          else if 65507 < data_len then Inl Ip_oversize_payload
          else Inr (ih,
                    \<lparr>th_source_port = sport, th_destination_port = dport, th_sequence_number = 0,
                     th_acknowledgement_number = 0, th_data_offset = 0, th_window = 65535,
                     th_checksum = c, th_urgent_pointer = 0\<rparr>,
                    ident + 1))"
begin

lemma build_short:
  "data_len < 12 \<Longrightarrow> readable16 data data_len \<Longrightarrow>
   build ident hdr saddr sport daddr dport data data_len = Inl Ip_heap_overflow"
  using build_result [of data data_len ident saddr daddr hdr sport dport] by auto

lemma build_long:
  "65507 < data_len \<Longrightarrow> readable16 data data_len \<Longrightarrow>
   build ident hdr saddr sport daddr dport data data_len = Inl Ip_oversize_payload"
  using build_result [of data data_len ident saddr daddr hdr sport dport] by auto

text \<open>A payload of a usable size becomes a packet that the receiving side takes apart again.\<close>

lemma build_packet:
  assumes "12 \<le> length payload" "length payload \<le> 65507"
  obtains ih th where
    "build ident hdr saddr sport daddr dport (payload @ [0]) (length payload) = Inr (ih, th, ident + 1)"
    "let pkt = hdr_bytes ih @ tcp_hdr_bytes th @ payload
     in ip_bytevector_validate pkt \<and> ip_bytevector_is_udp pkt = Inr False \<and>
        ip_bytevector_is_tcp pkt = Inr True \<and> ip_bytevector_data_start pkt = Inr 40 \<and>
        drop 40 pkt = payload \<and> length pkt = 40 + length payload \<and>
        ip_hdr_at pkt = Some (default_ip_hdr ident IPV4_PROTOCOL_TCP saddr daddr (length payload + 8)) \<and>
        tcp_hdr_at (drop sizeof_ip_hdr pkt) = Some th \<and>
        th_source_port th = sport \<and> th_destination_port th = dport"
proof -
  let ?ih = "default_ip_hdr ident IPV4_PROTOCOL_TCP saddr daddr (length payload + 8)"
  obtain ih th where b: "hdr_bytes ih = ip_hdr_bytes ?ih"
    "build ident hdr saddr sport daddr dport (payload @ [0]) (length payload) = Inr (ih, th, ident + 1)"
    "th_source_port th = sport" "th_destination_port th = dport"
    using build_result [OF readable16_c_str [of payload], of ident saddr daddr hdr sport dport] assms
    by auto
  let ?pkt = "ip_hdr_bytes ?ih @ tcp_hdr_bytes th @ payload"
  have "9 < length ?pkt" "?pkt ! 9 = IPV4_PROTOCOL_TCP"
    by (simp_all add: protocol_byte) (simp add: default_ip_hdr_def)
  from tcp_classified [OF this] have cls: "ip_bytevector_is_udp ?pkt = Inr False"
    "ip_bytevector_is_tcp ?pkt = Inr True" "ip_bytevector_data_start ?pkt = Inr 40" .
  have "drop sizeof_ip_hdr ?pkt = tcp_hdr_bytes th @ payload" by (simp add: layout_simps)
  then have "tcp_hdr_at (drop sizeof_ip_hdr ?pkt) = Some th" by (simp add: tcp_hdr_at_bytes)
  moreover have "ip_hdr_at ?pkt = Some ?ih" by (simp add: ip_hdr_at_bytes)
  moreover have "ip_bytevector_validate ?pkt"
    using calculation by (simp add: ip_bytevector_validate_def ip_hdr_valid_def layout_simps)
  moreover have "length ?pkt = 40 + length payload" "drop 40 ?pkt = payload" by simp_all
  ultimately show thesis using that [OF b(2)] b(1,3,4) cls by (simp add: Let_def)
qed

end

interpretation ipb: tcp_header_builder ip_tcp_headers_default_set ip_hdr_bytes
proof unfold_locales
  fix data data_len ident saddr daddr hdr sport dport
  assume "readable16 data data_len"
  from tcp_headers_result [OF this, of ident hdr saddr sport daddr dport]
  show "\<exists>ih c. ip_hdr_bytes ih =
        ip_hdr_bytes (default_ip_hdr ident IPV4_PROTOCOL_TCP saddr daddr (data_len + 8)) \<and>
      ip_tcp_headers_default_set ident hdr saddr sport daddr dport data data_len =
        (if data_len < 12 then Inl Ip_heap_overflow
         else if 65507 < data_len then Inl Ip_oversize_payload
         else Inr (ih,
                   \<lparr>th_source_port = sport, th_destination_port = dport, th_sequence_number = 0,
                    th_acknowledgement_number = 0, th_data_offset = 0, th_window = 65535,
                    th_checksum = c, th_urgent_pointer = 0\<rparr>,
                   ident + 1))" by blast
qed

definition ip4_of_ip :: "ip_hdr \<Rightarrow> ip4_hdr" where
  "ip4_of_ip h =
     \<lparr>i4_ihl = ih_ihl h, i4_version = ih_version h, i4_type_of_service = ih_type_of_service h,
      i4_total_length = ih_total_length h, i4_identification = ih_identification h,
      i4_frag_off = ih_frag_off h, i4_time_to_live = ih_time_to_live h,
      i4_protocol = ih_protocol h, i4_cksum = ih_cksum h, i4_saddr = ih_saddr h,
      i4_daddr = ih_daddr h\<rparr>"

lemma ip4_of_ip_inverse [simp]: "ip_of_ip4 (ip4_of_ip h) = h" "ip4_of_ip (ip_of_ip4 h4) = h4"
  by (simp_all add: ip4_of_ip_def ip_of_ip4_def)

interpretation ip4b: tcp_header_builder ip4_tcp_headers_default_set ip4_hdr_bytes
proof unfold_locales
  fix data data_len ident saddr daddr hdr sport dport
  assume r: "readable16 data data_len"
  let ?ih = "default_ip_hdr ident IPV4_PROTOCOL_TCP saddr daddr (data_len + 8)"
  obtain c where c: "ip_tcp_headers_default_set ident (ip_of_ip4 hdr) saddr sport daddr dport data data_len =
        (if data_len < 12 then Inl Ip_heap_overflow
         else if 65507 < data_len then Inl Ip_oversize_payload
         else Inr (?ih,
                   \<lparr>th_source_port = sport, th_destination_port = dport, th_sequence_number = 0,
                    th_acknowledgement_number = 0, th_data_offset = 0, th_window = 65535,
                    th_checksum = c, th_urgent_pointer = 0\<rparr>,
                   ident + 1))"
    using tcp_headers_result [OF r, of ident "ip_of_ip4 hdr" saddr sport daddr dport] by blast
  have "ip4_tcp_headers_default_set ident hdr saddr sport daddr dport data data_len =
      map_sum id (map_prod ip4_of_ip id)
        (ip_tcp_headers_default_set ident (ip_of_ip4 hdr) saddr sport daddr dport data data_len)"
    by (simp add: ip4_builders_eq(1) [symmetric] sum.map_comp prod.map_comp comp_def sum.map_ident
        prod.map_ident map_prod_def case_prod_beta)
  then show "\<exists>ih c. ip4_hdr_bytes ih = ip_hdr_bytes ?ih \<and>
      ip4_tcp_headers_default_set ident hdr saddr sport daddr dport data data_len =
        (if data_len < 12 then Inl Ip_heap_overflow
         else if 65507 < data_len then Inl Ip_oversize_payload
         else Inr (ih,
                   \<lparr>th_source_port = sport, th_destination_port = dport, th_sequence_number = 0,
                    th_acknowledgement_number = 0, th_data_offset = 0, th_window = 65535,
                    th_checksum = c, th_urgent_pointer = 0\<rparr>,
                   ident + 1))"
    using c by (intro exI [of _ "ip4_of_ip ?ih"] exI [of _ c]) simp
qed

end
