(* ===== verification/Tcp_server_handler.thy ===== *)
theory Tcp_server_handler
  imports Slip IPv4 Fifo
begin

text \<open>
  One accepted TCP connection, \<^verbatim>\<open>udptoserial/Tcp_server_handler.cpp\<close>: what arrives on the socket is
  wrapped in IP and TCP headers, SLIP-encoded and queued for the serial port.

  The socket contributes its endpoints and the bytes that arrive; \<open>in_packet\<close> is the stream buffer.
  \<open>posted\<close> are the messages handed to the strand and not yet queued, \<open>writing\<close> is the buffer of the
  outstanding \<open>async_write\<close>, \<open>written\<close> collects the packets whose write completed.  The member
  \<open>remote_addr_BE_\<close> is never assigned in the source; here it is an arbitrary value.  The identification
  counter of \<^verbatim>\<open>IPv4.cpp\<close> is a static variable and passed along.
\<close>

section \<open>The handler\<close>

record tcp_server_handler =
  remote_address :: u32
  remote_port :: u16
  local_port :: u16
  remote_addr_BE :: u32
  awaiting_read :: bool
  in_packet :: bytes
  posted :: "bytes list"
  send_packet_queue :: "bytes list"
  writing :: "bytes option"
  written :: "bytes list"

datatype tcp_error = Tcp_headers ip_error | Tcp_undefined

definition Tcp_server_handler :: "u32 \<Rightarrow> u16 \<Rightarrow> u16 \<Rightarrow> u32 \<Rightarrow> tcp_server_handler" where
  "Tcp_server_handler raddr rport lport indet =
     \<lparr>remote_address = raddr, remote_port = rport, local_port = lport, remote_addr_BE = indet,
      awaiting_read = False, in_packet = [], posted = [], send_packet_queue = [], writing = None,
      written = []\<rparr>"

definition read_packet :: "tcp_server_handler \<Rightarrow> tcp_server_handler" where
  "read_packet h = h\<lparr>awaiting_read := True\<rparr>"

definition tcp_start :: "tcp_server_handler \<Rightarrow> tcp_server_handler" where
  "tcp_start h = read_packet h"

text \<open>\<open>"\0"\<close> is the empty C string: appending it changes nothing.\<close>

definition start_packet_send :: "tcp_server_handler \<Rightarrow> tcp_error + tcp_server_handler" where
  "start_packet_send h =
     (case send_packet_queue h of
        [] \<Rightarrow> Inl Tcp_undefined
      | m # ms \<Rightarrow>
          (let m' = m @ []
           in Inr (h\<lparr>send_packet_queue := m' # ms, writing := Some m'\<rparr>)))"

definition queue_message :: "bytes \<Rightarrow> tcp_server_handler \<Rightarrow> tcp_error + tcp_server_handler" where
  "queue_message message h =
     (let write_in_progress = (send_packet_queue h \<noteq> []);
          h = h\<lparr>send_packet_queue := send_packet_queue h @ [message]\<rparr>
      in if \<not> write_in_progress then start_packet_send h else Inr h)"

definition packet_send_done :: "bool \<Rightarrow> tcp_server_handler \<Rightarrow> tcp_error + tcp_server_handler" where
  "packet_send_done error h =
     (if \<not> error then
        (case send_packet_queue h of
           [] \<Rightarrow> Inl Tcp_undefined
         | _ # ms \<Rightarrow>
             (let h = h\<lparr>send_packet_queue := ms\<rparr>
              in if send_packet_queue h \<noteq> [] then start_packet_send h else Inr h))
      else Inr h)"

definition tcp_send :: "bytes \<Rightarrow> tcp_server_handler \<Rightarrow> tcp_server_handler" where
  "tcp_send msg h = h\<lparr>posted := posted h @ [msg]\<rparr>"

text \<open>\<open>isspace\<close> of the C locale and \<open>operator>>\<close> into a string: skip white space, take what follows up
  to the next white space, leave the rest in the buffer.\<close>

definition isspace :: "u8 \<Rightarrow> bool" where
  "isspace c \<longleftrightarrow> c = 0x20 \<or> (0x09 \<le> c \<and> c \<le> 0x0D)"

definition extract_string :: "bytes \<Rightarrow> bytes \<times> bytes" where
  "extract_string buf =
     (let b = dropWhile isspace buf
      in (takeWhile (\<lambda>c. \<not> isspace c) b, dropWhile (\<lambda>c. \<not> isspace c) b))"

text \<open>\<open>iphdr\<close> is the uninitialised local structure the builder fills in.\<close>

definition read_packet_done ::
    "u16 \<Rightarrow> ip4_hdr \<Rightarrow> bool \<Rightarrow> tcp_server_handler \<Rightarrow> tcp_error + tcp_server_handler \<times> u16" where
  "read_packet_done ident iphdr error h =
     (if error then Inr (h, ident)
      else
        (let (packet_string, rest) = extract_string (in_packet h);
             h = h\<lparr>in_packet := rest\<rparr>
         in case ip4_tcp_headers_default_set ident iphdr
                   (htonl (remote_address h)) (htons (remote_port h))
                   (htonl (remote_addr_BE h)) (htons (local_port h))
                   (packet_string @ [0]) (length packet_string) of
              Inl e \<Rightarrow> Inl (Tcp_headers e)
            | Inr (iphdr, tcphdr, ident') \<Rightarrow>
                (let binary_str = ip4_hdr_bytes iphdr @ tcp_hdr_bytes tcphdr @ packet_string;
                     (dest, _) = slip_encode [] binary_str True
                 in Inr (read_packet (tcp_send dest h), ident'))))"

section \<open>The write queue\<close>

text \<open>One write is outstanding exactly while the queue is not empty, and it is of the front.\<close>

definition tcp_inv :: "tcp_server_handler \<Rightarrow> bool" where
  "tcp_inv h \<longleftrightarrow> writing h = (case send_packet_queue h of [] \<Rightarrow> None | m # _ \<Rightarrow> Some m)"

definition write_completes :: "tcp_server_handler \<Rightarrow> bytes \<Rightarrow> tcp_error + tcp_server_handler" where
  "write_completes h w = packet_send_done False (h\<lparr>writing := None, written := written h @ [w]\<rparr>)"

lemma queue_message_inv:
  assumes "tcp_inv h"
  obtains h' where "queue_message m h = Inr h'" "tcp_inv h'" "written h' = written h"
    "send_packet_queue h' = send_packet_queue h @ [m]" "posted h' = posted h"
proof (cases "send_packet_queue h")
  case Nil
  then show ?thesis
    by (intro that [of "h\<lparr>send_packet_queue := [m], writing := Some m\<rparr>"])
      (simp_all add: queue_message_def start_packet_send_def tcp_inv_def)
next
  case (Cons x xs)
  with assms show ?thesis
    by (intro that [of "h\<lparr>send_packet_queue := send_packet_queue h @ [m]\<rparr>"])
      (simp_all add: queue_message_def tcp_inv_def)
qed

lemma write_completes_inv:
  assumes "tcp_inv h" "writing h = Some w"
  obtains h' ms where "write_completes h w = Inr h'" "tcp_inv h'" "written h' = written h @ [w]"
    "send_packet_queue h = w # ms" "send_packet_queue h' = ms" "posted h' = posted h"
proof -
  obtain ms where q: "send_packet_queue h = w # ms"
    using assms by (auto simp: tcp_inv_def split: list.splits)
  show ?thesis
  proof (cases ms)
    case Nil
    with q show ?thesis
      by (intro that [of "h\<lparr>writing := None, written := written h @ [w], send_packet_queue := []\<rparr>" ms])
        (simp_all add: write_completes_def packet_send_done_def tcp_inv_def)
  next
    case (Cons x xs)
    with q show ?thesis
      by (intro that [of "h\<lparr>writing := Some x, written := written h @ [w], send_packet_queue := ms\<rparr>" ms])
        (simp_all add: write_completes_def packet_send_done_def start_packet_send_def tcp_inv_def)
  qed
qed

text \<open>The queue as a client sees it.\<close>

definition tcp_push :: "bytes \<Rightarrow> tcp_server_handler \<Rightarrow> tcp_server_handler" where
  "tcp_push m h = (case queue_message m h of Inr h' \<Rightarrow> h' | Inl _ \<Rightarrow> h)"

definition tcp_pop :: "tcp_server_handler \<Rightarrow> (bytes \<times> tcp_server_handler) option" where
  "tcp_pop h =
     (case writing h of
        None \<Rightarrow> None
      | Some w \<Rightarrow> (case write_completes h w of Inl _ \<Rightarrow> None | Inr h' \<Rightarrow> Some (w, h')))"

interpretation tcpq: fifo tcp_inv tcp_push tcp_pop send_packet_queue
proof unfold_locales
  fix h :: tcp_server_handler and m
  assume inv: "tcp_inv h"
  obtain h' where "queue_message m h = Inr h'" "tcp_inv h'"
    "send_packet_queue h' = send_packet_queue h @ [m]"
    using queue_message_inv [OF inv, of m] by blast
  then show "tcp_inv (tcp_push m h)" "send_packet_queue (tcp_push m h) = send_packet_queue h @ [m]"
    by (simp_all add: tcp_push_def)
next
  fix h :: tcp_server_handler
  assume "tcp_inv h" "send_packet_queue h = []"
  then show "tcp_pop h = None" by (simp add: tcp_inv_def tcp_pop_def)
next
  fix h :: tcp_server_handler and m ms
  assume inv: "tcp_inv h" and q: "send_packet_queue h = m # ms"
  then have w: "writing h = Some m" by (simp add: tcp_inv_def)
  obtain h' where "write_completes h m = Inr h'" "tcp_inv h'" "send_packet_queue h' = ms"
    by (rule write_completes_inv [OF inv w]) (use q in auto)
  with w show "\<exists>h'. tcp_pop h = Some (m, h') \<and> tcp_inv h' \<and> send_packet_queue h' = ms"
    by (simp add: tcp_pop_def)
qed

section \<open>Runs of a connection\<close>

text \<open>
  \<open>tcp_run h ms\<close>: the handler can reach \<open>h\<close> by reads, by the strand running what was posted and by
  completed writes, in any interleaving, and \<open>ms\<close> are the packets given to \<open>send\<close>, in order.
\<close>

inductive tcp_run :: "tcp_server_handler \<Rightarrow> bytes list \<Rightarrow> bool" where
  Start: "tcp_run (tcp_start (Tcp_server_handler raddr rport lport indet)) []"
| Received: "tcp_run h ms \<Longrightarrow> awaiting_read h \<Longrightarrow>
    read_packet_done ident iphdr error (h\<lparr>awaiting_read := False, in_packet := in_packet h @ data\<rparr>) =
      Inr (h', ident') \<Longrightarrow>
    tcp_run h' (ms @ drop (length (posted h)) (posted h'))"
| Sending: "tcp_run h ms \<Longrightarrow> tcp_run (tcp_send m h) (ms @ [m])"
| Strand: "tcp_run h ms \<Longrightarrow> posted h = m # ps \<Longrightarrow> queue_message m (h\<lparr>posted := ps\<rparr>) = Inr h' \<Longrightarrow>
    tcp_run h' ms"
| Completed: "tcp_run h ms \<Longrightarrow> writing h = Some w \<Longrightarrow> write_completes h w = Inr h' \<Longrightarrow> tcp_run h' ms"

lemma read_packet_done_frame:
  assumes "read_packet_done ident iphdr error h = Inr (h', ident')"
  shows "\<exists>p. posted h' = posted h @ p \<and> send_packet_queue h' = send_packet_queue h \<and>
             writing h' = writing h \<and> written h' = written h"
  using assms
  by (auto simp: read_packet_done_def read_packet_def tcp_send_def Let_def case_prod_beta
      split: if_splits sum.splits)

lemma read_packet_done_fields:
  assumes "read_packet_done ident iphdr error h = Inr (h', ident')"
  shows "remote_address h' = remote_address h" "remote_port h' = remote_port h" "local_port h' = local_port h"
    "remote_addr_BE h' = remote_addr_BE h" "send_packet_queue h' = send_packet_queue h" "writing h' = writing h"
    "written h' = written h"
  using assms
  by (auto simp: read_packet_done_def read_packet_def tcp_send_def Let_def case_prod_beta split: if_splits sum.splits)

lemma tcp_run_inv:
  "tcp_run h ms \<Longrightarrow> tcp_inv h \<and> written h @ send_packet_queue h @ posted h = ms"
proof (induction rule: tcp_run.induct)
  case (Start raddr rport lport indet)
  show ?case by (simp add: tcp_start_def read_packet_def Tcp_server_handler_def tcp_inv_def)
next
  case (Received h ms ident iphdr error data h' ident')
  from read_packet_done_frame [OF Received.hyps(3)] Received.IH show ?case
    by (auto simp: tcp_inv_def)
next
  case (Sending h ms m)
  then show ?case by (auto simp: tcp_send_def tcp_inv_def)
next
  case (Strand h ms m ps h')
  then have "tcp_inv (h\<lparr>posted := ps\<rparr>)" by (simp add: tcp_inv_def)
  from queue_message_inv [OF this, of m] obtain h'' where
    "queue_message m (h\<lparr>posted := ps\<rparr>) = Inr h''" "tcp_inv h''" "written h'' = written h"
    "send_packet_queue h'' = send_packet_queue h @ [m]" "posted h'' = ps" by auto
  with Strand show ?case by auto
next
  case (Completed h ms w h')
  obtain k ps where "write_completes h w = Inr k" "tcp_inv k" "written k = written h @ [w]"
    "send_packet_queue h = w # ps" "send_packet_queue k = ps" "posted k = posted h"
    by (rule write_completes_inv [OF conjunct1 [OF Completed.IH] Completed.hyps(2)])
  with Completed.IH Completed.hyps(3) show ?case by simp
qed

text \<open>C17: No packet is lost, doubled or reordered.  At every moment of a run without write errors the
  packets already written, those queued and those still posted are together exactly the packets given
  to \<open>send\<close>, in order; at most one write is outstanding and it is of the front of the queue.\<close>

theorem tcp_queue_conserves:
  assumes "tcp_run h ms"
  shows "written h @ send_packet_queue h @ posted h = ms
    \<and> writing h = (case send_packet_queue h of [] \<Rightarrow> None | m # _ \<Rightarrow> Some m)"
  using tcp_run_inv [OF assms] by (simp add: tcp_inv_def)

lemma tcp_run_example:
  "tcp_run (tcp_send [1, 2] (tcp_start (Tcp_server_handler 1 2 3 4))) ([] @ [[1, 2]])"
  by (intro tcp_run.Sending tcp_run.Start)

theorem tcp_queue_conserves_witness:
  "written (tcp_send [1, 2] (tcp_start (Tcp_server_handler 1 2 3 4))) @
   send_packet_queue (tcp_send [1, 2] (tcp_start (Tcp_server_handler 1 2 3 4))) @
   posted (tcp_send [1, 2] (tcp_start (Tcp_server_handler 1 2 3 4))) = [[1, 2]]"
  using tcp_queue_conserves [OF tcp_run_example] by simp

text \<open>The strand never touches an empty queue, and the queue drains: in every reachable state the
  next posted message can be queued, and as many completed writes as there are queued packets write
  them all, in order, and leave the handler idle.\<close>

theorem tcp_queue_drains:
  assumes "tcp_run h ms"
  shows "(\<forall>m ps. posted h = m # ps \<longrightarrow> (\<exists>h'. queue_message m (h\<lparr>posted := ps\<rparr>) = Inr h')) \<and>
    fst (pops tcp_pop (length (send_packet_queue h)) h) = send_packet_queue h \<and>
    send_packet_queue (snd (pops tcp_pop (length (send_packet_queue h)) h)) = []"
proof (intro conjI allI impI)
  have inv: "tcp_inv h" using tcp_run_inv [OF assms] by blast
  fix m ps
  have "tcp_inv (h\<lparr>posted := ps\<rparr>)" using inv by (simp add: tcp_inv_def)
  from queue_message_inv [OF this, of m]
  show "\<exists>h'. queue_message m (h\<lparr>posted := ps\<rparr>) = Inr h'" by blast
next
  have inv: "tcp_inv h" using tcp_run_inv [OF assms] by blast
  show "fst (pops tcp_pop (length (send_packet_queue h)) h) = send_packet_queue h"
    "send_packet_queue (snd (pops tcp_pop (length (send_packet_queue h)) h)) = []"
    using tcpq.pops_spec [OF inv, of "length (send_packet_queue h)"] by simp_all
qed

theorem tcp_queue_drains_witness:
  "\<exists>h'. queue_message [1, 2]
    ((tcp_send [1, 2] (tcp_start (Tcp_server_handler 1 2 3 4)))\<lparr>posted := []\<rparr>) = Inr h'"
proof -
  have "posted (tcp_send [1, 2] (tcp_start (Tcp_server_handler 1 2 3 4))) = [1, 2] # []"
    by (simp add: tcp_send_def tcp_start_def read_packet_def Tcp_server_handler_def)
  with tcp_queue_drains [OF tcp_run_example] show ?thesis by blast
qed

section \<open>After a write error\<close>

fun queue_messages :: "bytes list \<Rightarrow> tcp_server_handler \<Rightarrow> tcp_error + tcp_server_handler" where
  "queue_messages [] h = Inr h"
| "queue_messages (m # ms) h =
     (case queue_message m h of Inl e \<Rightarrow> Inl e | Inr h' \<Rightarrow> queue_messages ms h')"

text \<open>One failed write silences the connection.  \<open>packet_send_done\<close> does nothing on an error, so the
  failed packet stays at the front with no write outstanding; every later message is queued behind it
  and no write is ever started again.\<close>

theorem tcp_error_stalls:
  assumes "tcp_run h ms" "writing h = Some w"
  shows "\<exists>h'. packet_send_done True (h\<lparr>writing := None\<rparr>) = Inr h' \<and>
    (\<forall>msgs. \<exists>h''. queue_messages msgs h' = Inr h'' \<and> writing h'' = None \<and> written h'' = written h \<and>
        send_packet_queue h'' = send_packet_queue h @ msgs \<and> hd (send_packet_queue h'') = w)"
proof -
  let ?h = "h\<lparr>writing := None\<rparr>"
  obtain ps where q: "send_packet_queue h = w # ps"
    using tcp_run_inv [OF assms(1)] assms(2) by (auto simp: tcp_inv_def split: list.splits)
  have "\<exists>h''. queue_messages msgs k = Inr h'' \<and> writing h'' = None \<and> written h'' = written h \<and>
      send_packet_queue h'' = send_packet_queue k @ msgs"
    if "writing k = None" "written k = written h" "send_packet_queue k \<noteq> []" for k msgs
    using that
  proof (induction msgs arbitrary: k)
    case (Cons m msgs)
    let ?k = "k\<lparr>send_packet_queue := send_packet_queue k @ [m]\<rparr>"
    have "queue_message m k = Inr ?k" using Cons.prems by (simp add: queue_message_def)
    then show ?case using Cons.IH [of ?k] Cons.prems by simp
  qed simp
  from this [of ?h] have "\<forall>msgs. \<exists>h''. queue_messages msgs ?h = Inr h'' \<and> writing h'' = None \<and>
      written h'' = written h \<and> send_packet_queue h'' = send_packet_queue h @ msgs"
    using q by simp
  then show ?thesis using q by (fastforce simp: packet_send_done_def)
qed

lemma tcp_writing_example:
  "\<exists>h. tcp_run h [[1, 2]] \<and> writing h = Some [1, 2]"
proof -
  let ?h = "(tcp_send [1, 2] (tcp_start (Tcp_server_handler 1 2 3 4)))\<lparr>posted := []\<rparr>"
  have "queue_message [1, 2] ?h = Inr (?h\<lparr>send_packet_queue := [[1, 2]], writing := Some [1, 2]\<rparr>)"
    by (simp add: queue_message_def start_packet_send_def Let_def tcp_send_def tcp_start_def read_packet_def
        Tcp_server_handler_def)
  moreover have "posted (tcp_send [1, 2] (tcp_start (Tcp_server_handler 1 2 3 4))) = [1, 2] # []"
    by (simp add: tcp_send_def tcp_start_def read_packet_def Tcp_server_handler_def)
  ultimately show ?thesis using tcp_run.Strand [OF tcp_run_example] by fastforce
qed

theorem tcp_error_stalls_witness:
  "\<exists>h h'. tcp_run h [[1, 2]] \<and> packet_send_done True (h\<lparr>writing := None\<rparr>) = Inr h' \<and>
     (\<exists>h''. queue_messages [[3]] h' = Inr h'' \<and> writing h'' = None)"
proof -
  obtain h where "tcp_run h [[1, 2]]" "writing h = Some [1, 2]" using tcp_writing_example by blast
  with tcp_error_stalls [OF this] show ?thesis by blast
qed

section \<open>What is forwarded\<close>

lemma extract_string_split:
  assumes "list_all isspace ws" "list_all (\<lambda>c. \<not> isspace c) p" "rest = [] \<or> isspace (hd rest)" "p \<noteq> []"
  shows "extract_string (ws @ p @ rest) = (p, rest)"
proof -
  have "dropWhile isspace (ws @ p @ rest) = p @ rest"
    using assms(1,2,4) by (cases p) (simp_all add: list_all_iff)
  moreover have "takeWhile (\<lambda>c. \<not> isspace c) (p @ rest) = p" "dropWhile (\<lambda>c. \<not> isspace c) (p @ rest) = rest"
    using assms(2,3) by (cases rest; simp add: list_all_iff)+
  ultimately show ?thesis by (simp add: extract_string_def)
qed

lemma extract_string_parts:
  obtains ws rest where "buf = ws @ fst (extract_string buf) @ rest" "list_all isspace ws"
    "rest = [] \<or> isspace (hd rest)" "snd (extract_string buf) = rest"
    "list_all (\<lambda>c. \<not> isspace c) (fst (extract_string buf))"
proof -
  let ?b = "dropWhile isspace buf"
  have "buf = takeWhile isspace buf @ takeWhile (\<lambda>c. \<not> isspace c) ?b @ dropWhile (\<lambda>c. \<not> isspace c) ?b" by simp
  moreover have "list_all isspace (takeWhile isspace buf)" by (auto simp: list_all_iff dest: set_takeWhileD)
  moreover have "list_all (\<lambda>c. \<not> isspace c) (takeWhile (\<lambda>c. \<not> isspace c) ?b)" by (auto simp: list_all_iff dest: set_takeWhileD)
  moreover have "dropWhile (\<lambda>c. \<not> isspace c) ?b = [] \<or> isspace (hd (dropWhile (\<lambda>c. \<not> isspace c) ?b))"
    using hd_dropWhile [of "\<lambda>c. \<not> isspace c" ?b] by blast
  ultimately show thesis using that unfolding extract_string_def Let_def fst_conv snd_conv by blast
qed

lemma extract_string_space: "list_all isspace buf \<Longrightarrow> extract_string buf = ([], [])"
  by (simp add: extract_string_def list_all_iff dropWhile_eq_Nil_conv [THEN iffD2])

text \<open>The frame a payload becomes.\<close>

lemma read_packet_done_frames:
  assumes "in_packet h = ws @ p @ rest" "list_all isspace ws" "list_all (\<lambda>c. \<not> isspace c) p"
    "rest = [] \<or> isspace (hd rest)" "12 \<le> length p" "length p \<le> 65507"
  obtains h' pkt th where "read_packet_done ident iphdr False h = Inr (h', ident + 1)"
    "in_packet h' = rest" "awaiting_read h'" "posted h' = posted h @ [fst (slip_encode [] pkt True)]"
    "ip_bytevector_validate pkt" "ip_bytevector_is_udp pkt = Inr False"
    "ip_bytevector_is_tcp pkt = Inr True" "ip_bytevector_data_start pkt = Inr 40" "drop 40 pkt = p"
    "length pkt = 40 + length p"
    "ip_hdr_at pkt = Some (default_ip_hdr ident IPV4_PROTOCOL_TCP (htonl (remote_address h))
                             (htonl (remote_addr_BE h)) (length p + 8))"
    "tcp_hdr_at (drop sizeof_ip_hdr pkt) = Some th"
    "th_source_port th = htons (remote_port h)" "th_destination_port th = htons (local_port h)"
proof -
  have "p \<noteq> []" using assms(5) by auto
  then have ex: "extract_string (in_packet h) = (p, rest)"
    using extract_string_split assms(1-4) by simp
  obtain ih th where b:
    "ip4_tcp_headers_default_set ident iphdr (htonl (remote_address h)) (htons (remote_port h))
       (htonl (remote_addr_BE h)) (htons (local_port h)) (p @ [0]) (length p) = Inr (ih, th, ident + 1)"
    and pkt: "let pkt = ip4_hdr_bytes ih @ tcp_hdr_bytes th @ p
     in ip_bytevector_validate pkt \<and> ip_bytevector_is_udp pkt = Inr False \<and>
        ip_bytevector_is_tcp pkt = Inr True \<and> ip_bytevector_data_start pkt = Inr 40 \<and>
        drop 40 pkt = p \<and> length pkt = 40 + length p \<and>
        ip_hdr_at pkt = Some (default_ip_hdr ident IPV4_PROTOCOL_TCP (htonl (remote_address h))
                                (htonl (remote_addr_BE h)) (length p + 8)) \<and>
        tcp_hdr_at (drop sizeof_ip_hdr pkt) = Some th \<and>
        th_source_port th = htons (remote_port h) \<and> th_destination_port th = htons (local_port h)"
    by (rule ip4b.build_packet [OF assms(5,6)])
  let ?pkt = "ip4_hdr_bytes ih @ tcp_hdr_bytes th @ p"
  let ?h = "read_packet (tcp_send (fst (slip_encode [] ?pkt True)) (h\<lparr>in_packet := rest\<rparr>))"
  have "read_packet_done ident iphdr False h = Inr (?h, ident + 1)"
    by (simp add: read_packet_done_def ex b case_prod_beta Let_def del: ip4_hdr_bytes_eq)
  moreover have "in_packet ?h = rest" "awaiting_read ?h"
    "posted ?h = posted h @ [fst (slip_encode [] ?pkt True)]"
    by (simp_all add: read_packet_def tcp_send_def)
  ultimately show thesis using that [of ?h ?pkt th] pkt unfolding Let_def by blast
qed

lemma read_packet_done_sized:
  assumes "read_packet_done ident iphdr False h = Inr r" "x = fst (extract_string (in_packet h))"
  shows "12 \<le> length x \<and> length x \<le> 65507"
  using assms ip4b.build_short [of "length x" "x @ [0]"] ip4b.build_long [of "length x" "x @ [0]"] readable16_c_str [of x]
  by (auto simp: read_packet_done_def Let_def case_prod_beta not_le [symmetric] intro: ccontr)

text \<open>What reaches the serial line is the socket's data without its white space.  A read posts one
  frame for the first white-space-free stretch of the buffer, behind forty bytes of headers; the white
  space before it is dropped.  White space by itself makes the handler build a packet for an empty
  payload, which overruns the heap block of the header builder.\<close>

theorem tcp_read_drops_space:
  "(in_packet h = ws @ p @ rest \<and> list_all isspace ws \<and> list_all (\<lambda>c. \<not> isspace c) p \<and>
      12 \<le> length p \<and> length p \<le> 65507 \<and> (rest = [] \<or> isspace (hd rest)) \<longrightarrow>
    (\<exists>h' hdrs. read_packet_done ident iphdr False h = Inr (h', ident + 1) \<and> in_packet h' = rest \<and>
       awaiting_read h' \<and> length hdrs = 40 \<and>
       posted h' = posted h @ [fst (slip_encode [] (hdrs @ p) True)]))
   \<and> (list_all isspace (in_packet h) \<longrightarrow>
      read_packet_done ident iphdr False h = Inl (Tcp_headers Ip_heap_overflow))"
proof (intro conjI impI)
  assume a: "in_packet h = ws @ p @ rest \<and> list_all isspace ws \<and> list_all (\<lambda>c. \<not> isspace c) p \<and>
      12 \<le> length p \<and> length p \<le> 65507 \<and> (rest = [] \<or> isspace (hd rest))"
  obtain h' pkt where r: "read_packet_done ident iphdr False h = Inr (h', ident + 1)"
    "in_packet h' = rest" "awaiting_read h'" "posted h' = posted h @ [fst (slip_encode [] pkt True)]"
    "drop 40 pkt = p" "length pkt = 40 + length p"
    by (rule read_packet_done_frames [of h ws p rest ident iphdr]) (use a in auto)
  moreover have "pkt = take 40 pkt @ p" using r(5) by (metis append_take_drop_id)
  moreover have "length (take 40 pkt) = 40" using r(6) by simp
  ultimately show "\<exists>h' hdrs. read_packet_done ident iphdr False h = Inr (h', ident + 1) \<and>
      in_packet h' = rest \<and> awaiting_read h' \<and> length hdrs = 40 \<and>
      posted h' = posted h @ [fst (slip_encode [] (hdrs @ p) True)]" by metis
next
  assume "list_all isspace (in_packet h)"
  then show "read_packet_done ident iphdr False h = Inl (Tcp_headers Ip_heap_overflow)"
    using readable16_c_str [of "[]"]
    by (simp add: read_packet_done_def extract_string_space ip4b.build_short)
qed

theorem tcp_read_drops_space_witness:
  "read_packet_done 0 (ip4_of_ip (default_ip_hdr 0 0 0 0 0)) False (Tcp_server_handler 1 2 3 4) = Inl (Tcp_headers Ip_heap_overflow) \<and>
   (\<exists>h'. read_packet_done 0 (ip4_of_ip (default_ip_hdr 0 0 0 0 0)) False
      ((Tcp_server_handler 1 2 3 4)\<lparr>in_packet := [32] @ replicate 12 65 @ [10]\<rparr>) = Inr (h', 0 + 1) \<and>
      in_packet h' = [10])"
  using tcp_read_drops_space [of "Tcp_server_handler 1 2 3 4" "[]" "[]" "[]" 0 "ip4_of_ip (default_ip_hdr 0 0 0 0 0)"]
    tcp_read_drops_space [of "(Tcp_server_handler 1 2 3 4)\<lparr>in_packet := [32] @ replicate 12 65 @ [10]\<rparr>"
      "[32]" "replicate 12 65" "[10]" 0 "ip4_of_ip (default_ip_hdr 0 0 0 0 0)"]
  by (auto simp: Tcp_server_handler_def isspace_def list_all_iff)

end
