(* ===== verification/Serial_bridge.thy ===== *)
theory Serial_bridge
  imports Tcp_server_handler
begin

text \<open>
  The program's main loop, \<^verbatim>\<open>udptoserial/main.cpp\<close>: the globals as one record, the handler of bytes that
  arrive on the serial port, the handler of accepted TCP connections, and the set-up of the listening
  ports.

  A client socket is the list of what was sent on it.  What the network does is the parameter \<open>net\<close>: whether
  a \<open>connect\<close> to an address and port succeeds, and what becomes of a \<open>send\<close>, which may throw and may take only
  a first part of the data.  What the system does when the program starts is the parameter \<open>os\<close>.  Nothing
  catches the exceptions of these calls, so that each of them ends the program.  A handler in
  \<open>tcp_server_handler_list_\<close> is named by its position; an acceptor is the position of the handler its
  outstanding \<open>async_accept\<close> was given, if one is outstanding.  The line that would start reading from a
  new client socket is not C++ in the source (it names a placeholder) and has no counterpart.
\<close>

section \<open>Globals\<close>

record ephemeral_connection =
  ec_saddr :: u32
  ec_daddr :: u32
  ec_sport :: u16
  ec_dport :: u16

record bridge =
  serial_read_buffer_unprocessed :: bytes
  serial_reading :: bool
  tcp_ephemeral_socket_map :: "ephemeral_connection \<rightharpoonup> bytes list"
  tcp_server_acceptor_map :: "u16 \<rightharpoonup> nat option"
  tcp_server_handler_list :: "tcp_server_handler list"

datatype bridge_error =
    Br_out_of_bounds
  | Br_ip ip_error
  | Br_slip slip_error
  | Br_out_of_range
  | Br_system_error

definition ntohs :: "u16 \<Rightarrow> u16" where "ntohs x = htons x"
definition ntohl :: "u32 \<Rightarrow> u32" where "ntohl x = htonl x"

section \<open>The network\<close>

text \<open>\<open>net_send\<close> gets the connection, what was sent on it before and the data; its result is the number of bytes
  taken, or \<^const>\<open>None\<close> when the call throws.\<close>

record network =
  net_connect :: "u32 \<Rightarrow> u16 \<Rightarrow> bool"
  net_send :: "ephemeral_connection \<Rightarrow> bytes list \<Rightarrow> bytes \<Rightarrow> nat option"

definition sends_all :: "network \<Rightarrow> bool" where
  "sends_all net \<longleftrightarrow> (\<forall>k sent data. net_send net k sent data = Some (length data))"

text \<open>A network without trouble.\<close>

definition open_net :: network where
  "open_net = \<lparr>net_connect = (\<lambda>_ _. True), net_send = (\<lambda>_ _ data. Some (length data))\<rparr>"

lemma open_net [simp]: "sends_all open_net" "net_connect open_net a p"
  by (simp_all add: sends_all_def open_net_def)

section \<open>Bytes from the serial port\<close>

text \<open>The four bytes of ports that the handler reads through the cast pointer.\<close>

definition tcp_ports_at :: "bytes \<Rightarrow> (u16 \<times> u16) option" where
  "tcp_ports_at m =
     (if length m < 24 then None
      else Some (of_le16 (m ! 20) (m ! 21), of_le16 (m ! 22) (m ! 23)))"

text \<open>\<open>send(buffer(data + start, size - start))\<close>: a size below the start wraps around and the send
  reads far outside the vector.\<close>

definition payload_at :: "bytes \<Rightarrow> bridge_error + bytes" where
  "payload_at m =
     (case ip_bytevector_data_start m of
        Inl e \<Rightarrow> Inl (Br_ip e)
      | Inr start \<Rightarrow> if length m < start then Inl Br_out_of_bounds else Inr (drop start m))"

text \<open>The program does not look at the number of bytes that a \<open>send\<close> has taken.\<close>

definition socket_send ::
    "network \<Rightarrow> ephemeral_connection \<Rightarrow> bytes list \<Rightarrow> bytes \<Rightarrow> bridge \<Rightarrow> bridge_error + bridge" where
  "socket_send net key sent data g =
     (case net_send net key sent data of
        None \<Rightarrow> Inl Br_system_error
      | Some n \<Rightarrow>
          Inr (g\<lparr>tcp_ephemeral_socket_map := (tcp_ephemeral_socket_map g)(key \<mapsto> sent @ [take n data])\<rparr>))"

definition serial_dispatch_tcp :: "network \<Rightarrow> bytes \<Rightarrow> bridge \<Rightarrow> bridge_error + bridge" where
  "serial_dispatch_tcp net slip_msg g =
     (case (ip_hdr_at slip_msg, tcp_ports_at slip_msg) of
        (Some ih, Some (source_port, destination_port)) \<Rightarrow>
          (let key = \<lparr>ec_saddr = ntohl (ih_saddr ih), ec_daddr = ntohl (ih_daddr ih),
                      ec_sport = ntohs source_port, ec_dport = ntohs destination_port\<rparr>
           in case tcp_ephemeral_socket_map g key of
                None \<Rightarrow>
                  (if \<not> net_connect net (ec_daddr key) (ec_dport key) then Inr g
                   else
                     (let g = g\<lparr>tcp_ephemeral_socket_map := (tcp_ephemeral_socket_map g)(key \<mapsto> [])\<rparr>
                      in case payload_at slip_msg of
                           Inl e \<Rightarrow> Inl e
                         | Inr data \<Rightarrow> socket_send net key [] data g))
              | Some sent \<Rightarrow>
                  (case payload_at slip_msg of
                     Inl e \<Rightarrow> Inl e
                   | Inr data \<Rightarrow> socket_send net key sent data g))
      | _ \<Rightarrow> Inl Br_out_of_bounds)"

definition serial_dispatch ::
    "network \<Rightarrow> bytes \<Rightarrow> bridge \<Rightarrow> bridge_error + bridge" where
  "serial_dispatch net slip_msg g =
     (if ip_bytevector_validate slip_msg then
        (case ip_bytevector_is_udp slip_msg of
           Inl e \<Rightarrow> Inl (Br_ip e)
         | Inr True \<Rightarrow> Inr g
         | Inr False \<Rightarrow>
             (case ip_bytevector_is_tcp slip_msg of
                Inl e \<Rightarrow> Inl (Br_ip e)
              | Inr True \<Rightarrow> serial_dispatch_tcp net slip_msg g
              | Inr False \<Rightarrow> Inr g))
      else Inr g)"

definition serial_read_handler ::
    "network \<Rightarrow> bytes \<Rightarrow> bridge \<Rightarrow> bridge_error + bridge" where
  "serial_read_handler net data g =
     (let g = g\<lparr>serial_read_buffer_unprocessed := serial_read_buffer_unprocessed g @ data\<rparr>
      in case slip_decode [] (serial_read_buffer_unprocessed g) False of
           (_, Inl e) \<Rightarrow> Inl (Br_slip e)
         | (slip_msg, Inr bytes_decoded) \<Rightarrow>
             (if bytes_decoded > 0 then
                (case serial_dispatch net slip_msg
                        (g\<lparr>serial_read_buffer_unprocessed :=
                            drop bytes_decoded (serial_read_buffer_unprocessed g)\<rparr>) of
                   Inl e \<Rightarrow> Inl e
                 | Inr g' \<Rightarrow> Inr (g'\<lparr>serial_reading := True\<rparr>))
              else Inr (g\<lparr>serial_reading := True\<rparr>)))"

section \<open>Connections from the network\<close>

text \<open>An accept completes for the handler at position \<open>i\<close>; the socket then has the given endpoints.
  \<open>indet\<close> is what the uninitialised member of the next handler happens to hold.\<close>

definition tcp_server_accept_handler ::
    "u32 \<Rightarrow> u32 \<Rightarrow> u16 \<Rightarrow> u16 \<Rightarrow> nat \<Rightarrow> bool \<Rightarrow> bridge \<Rightarrow> bridge_error + bridge" where
  "tcp_server_accept_handler indet raddr rport lport i ec g =
     (if ec then Inr g
      else
        (let handler = (tcp_server_handler_list g ! i)
               \<lparr>remote_address := raddr, remote_port := rport, local_port := lport\<rparr>;
             g = g\<lparr>tcp_server_handler_list := (tcp_server_handler_list g)[i := tcp_start handler]\<rparr>;
             port = lport;
             handler2 = Tcp_server_handler 0 0 0 indet;
             g = g\<lparr>tcp_server_handler_list := tcp_server_handler_list g @ [handler2]\<rparr>
         in case tcp_server_acceptor_map g port of
              None \<Rightarrow> Inl Br_out_of_range
            | Some _ \<Rightarrow>
                Inr (g\<lparr>tcp_server_acceptor_map := (tcp_server_acceptor_map g)
                        (port \<mapsto> Some (length (tcp_server_handler_list g) - 1))\<rparr>)))"

section \<open>The set-up\<close>

text \<open>What the calls of \<open>main\<close> do that throw when they fail: opening the serial port and setting its rate, and
  opening, preparing, binding and starting an acceptor, of which the last two may depend on the ports that are
  listened on already.\<close>

record setup_os =
  os_serial_open :: "string \<Rightarrow> bool"
  os_set_baud_rate :: "u32 \<Rightarrow> bool"
  os_acceptor_open :: bool
  os_reuse_address :: bool
  os_bind :: "u16 set \<Rightarrow> u16 \<Rightarrow> bool"
  os_listen :: "u16 set \<Rightarrow> u16 \<Rightarrow> bool"

datatype setup_error =
    Setup_serial_open
  | Setup_baud_rate
  | Setup_acceptor_open u16
  | Setup_reuse_address u16
  | Setup_bind u16
  | Setup_listen u16

text \<open>The body of the loop over \<open>config.port_numbers\<close> in \<open>main\<close>: what follows the throwing calls, and all of
  it.  An acceptor for a port that already has one is not put into the map.\<close>

definition listen_on :: "u32 \<Rightarrow> u16 \<Rightarrow> bridge \<Rightarrow> bridge" where
  "listen_on indet port g =
     (let handler = Tcp_server_handler 0 0 0 indet;
          i = length (tcp_server_handler_list g);
          g = (if port \<in> dom (tcp_server_acceptor_map g) then g
               else g\<lparr>tcp_server_acceptor_map := (tcp_server_acceptor_map g)(port \<mapsto> Some i)\<rparr>)
      in g\<lparr>tcp_server_handler_list := tcp_server_handler_list g @ [handler]\<rparr>)"

definition add_server_port :: "setup_os \<Rightarrow> u32 \<Rightarrow> u16 \<Rightarrow> bridge \<Rightarrow> setup_error + bridge" where
  "add_server_port os indet port g =
     (let listening = dom (tcp_server_acceptor_map g)
      in if \<not> os_acceptor_open os then Inl (Setup_acceptor_open port)
         else if \<not> os_reuse_address os then Inl (Setup_reuse_address port)
         else if \<not> os_bind os listening port then Inl (Setup_bind port)
         else if \<not> os_listen os listening port then Inl (Setup_listen port)
         else Inr (listen_on indet port g))"

fun add_server_ports :: "setup_os \<Rightarrow> u32 \<Rightarrow> u16 list \<Rightarrow> bridge \<Rightarrow> setup_error + bridge" where
  "add_server_ports os indet [] g = Inr g"
| "add_server_ports os indet (port # port_numbers) g =
     (case add_server_port os indet port g of
        Inl e \<Rightarrow> Inl e
      | Inr g \<Rightarrow> add_server_ports os indet port_numbers g)"

definition bridge_init :: bridge where
  "bridge_init = \<lparr>serial_read_buffer_unprocessed = [], serial_reading = True,
     tcp_ephemeral_socket_map = Map.empty, tcp_server_acceptor_map = Map.empty,
     tcp_server_handler_list = []\<rparr>"

definition main_setup ::
    "setup_os \<Rightarrow> u32 \<Rightarrow> string \<Rightarrow> u32 \<Rightarrow> u16 list \<Rightarrow> setup_error + bridge" where
  "main_setup os indet serial_port_name baud_rate port_numbers =
     (if \<not> os_serial_open os serial_port_name then Inl Setup_serial_open
      else if \<not> os_set_baud_rate os baud_rate then Inl Setup_baud_rate
      else add_server_ports os indet port_numbers bridge_init)"

text \<open>A system on which nothing fails but binding a port a second time.\<close>

definition good_os :: setup_os where
  "good_os = \<lparr>os_serial_open = (\<lambda>name. name \<noteq> []), os_set_baud_rate = (\<lambda>_. True), os_acceptor_open = True,
     os_reuse_address = True, os_bind = (\<lambda>listening port. port \<notin> listening), os_listen = (\<lambda>_ _. True)\<rparr>"

section \<open>What a packet carries\<close>

text \<open>\<open>carries k x pkt\<close>: the packet is one that the handler forwards to connection \<open>k\<close>, with data \<open>x\<close>.\<close>

definition carries :: "ephemeral_connection \<Rightarrow> bytes \<Rightarrow> bytes \<Rightarrow> bool" where
  "carries k x pkt \<longleftrightarrow>
     ip_bytevector_validate pkt \<and> ip_bytevector_is_udp pkt = Inr False \<and>
     ip_bytevector_is_tcp pkt = Inr True \<and> ip_bytevector_data_start pkt = Inr 40 \<and>
     length pkt = 40 + length x \<and> drop 40 pkt = x \<and>
     (case (ip_hdr_at pkt, tcp_ports_at pkt) of
        (Some ih, Some (sp, dp)) \<Rightarrow>
          k = \<lparr>ec_saddr = ntohl (ih_saddr ih), ec_daddr = ntohl (ih_daddr ih),
               ec_sport = ntohs sp, ec_dport = ntohs dp\<rparr>
      | _ \<Rightarrow> False)"

lemma dispatch_carries_send:
  assumes "carries k x pkt"
  shows "serial_dispatch net pkt g =
    (case tcp_ephemeral_socket_map g k of
       Some sent \<Rightarrow> socket_send net k sent x g
     | None \<Rightarrow>
         if net_connect net (ec_daddr k) (ec_dport k)
         then socket_send net k [] x (g\<lparr>tcp_ephemeral_socket_map := (tcp_ephemeral_socket_map g)(k \<mapsto> [])\<rparr>)
         else Inr g)"
  using assms
  by (auto simp: carries_def serial_dispatch_def serial_dispatch_tcp_def payload_at_def Let_def
      split: option.splits)

text \<open>A network that takes everything.\<close>

lemma dispatch_carries:
  assumes "carries k x pkt" "sends_all net"
  shows "serial_dispatch net pkt g =
    (case tcp_ephemeral_socket_map g k of
       Some sent \<Rightarrow> Inr (g\<lparr>tcp_ephemeral_socket_map := (tcp_ephemeral_socket_map g)(k \<mapsto> sent @ [x])\<rparr>)
     | None \<Rightarrow>
         if net_connect net (ec_daddr k) (ec_dport k)
         then Inr (g\<lparr>tcp_ephemeral_socket_map := (tcp_ephemeral_socket_map g)(k \<mapsto> [x])\<rparr>)
         else Inr g)"
  using assms(2) by (simp add: dispatch_carries_send [OF assms(1)] socket_send_def sends_all_def split: option.split)

text \<open>A \<open>send\<close> that throws, on a connection the other side has closed for example, ends the program, whatever else
  is in the buffer; of a \<open>send\<close> that takes only a part the rest is lost.\<close>

lemma send_outcomes:
  assumes "carries k x pkt" "tcp_ephemeral_socket_map g k = Some sent"
  shows "net_send net k sent x = None \<Longrightarrow> serial_dispatch net pkt g = Inl Br_system_error"
    "net_send net k sent x = Some n \<Longrightarrow> \<exists>g'. serial_dispatch net pkt g = Inr g' \<and>
       tcp_ephemeral_socket_map g' k = Some (sent @ [take n x])"
  using assms(2) by (simp_all add: dispatch_carries_send [OF assms(1)] socket_send_def)

lemma carries_append:
  assumes "carries k x pkt"
  shows "carries k (x @ y) (pkt @ y)"
proof -
  have len: "length pkt = 40 + length x" using assms by (simp add: carries_def)
  have hdr: "ip_hdr_at (pkt @ y) = ip_hdr_at pkt" "tcp_ports_at (pkt @ y) = tcp_ports_at pkt"
    using len by (simp_all add: ip_hdr_at_def tcp_ports_at_def nth_append layout_simps)
  moreover have udp: "ip_bytevector_is_udp (pkt @ y) = ip_bytevector_is_udp pkt" "ip_bytevector_is_tcp (pkt @ y) = ip_bytevector_is_tcp pkt"
    using len by (simp_all add: ip_bytevector_is_udp_def ip_bytevector_is_tcp_def nth_append)
  moreover have "ip_bytevector_data_start (pkt @ y) = ip_bytevector_data_start pkt"
    unfolding ip_bytevector_data_start_def udp ip_bytevector_udp_data_start_def ip_bytevector_tcp_data_start_def ..
  moreover have "ip_bytevector_validate (pkt @ y)"
    using assms len hdr(1) unfolding carries_def ip_bytevector_validate_def by (cases "ip_hdr_at pkt") (simp_all split: if_splits)
  ultimately show ?thesis using assms len by (simp add: carries_def)
qed

lemma tcp_ports_at_hdr:
  assumes "tcp_hdr_at (drop sizeof_ip_hdr pkt) = Some th"
  shows "tcp_ports_at pkt = Some (th_source_port th, th_destination_port th)"
  using assms by (auto simp: tcp_hdr_at_def tcp_ports_at_def layout_simps split: if_splits)

section \<open>Frames in the buffer\<close>

abbreviation frame_of :: "bytes \<Rightarrow> bytes" where
  "frame_of p \<equiv> fst (slip_encode [] p True)"

lemma frame_of_eq: "p \<noteq> [] \<Longrightarrow> frame_of p = SLIP_END # stuff p @ [SLIP_END]"
  by (simp add: slip_encode_eq)

lemma decode_frame:
  assumes "p \<noteq> []"
  shows "slip_decode [] (frame_of p @ rest) False = (p, Inr (length (frame_of p) - 1))"
  using slip_decode_encoded [OF assms, of "[]" True rest False] by simp

lemma drop_frame:
  assumes "p \<noteq> []"
  shows "drop (length (frame_of p) - 1) (frame_of p @ rest) = SLIP_END # rest"
  using frame_of_eq [OF assms] by simp

lemma decode_two_ends: "slip_decode [] (SLIP_END # SLIP_END # rest) False = ([], Inr 1)"
  by (simp add: slip_decode_def slip_scan.simps [of _ 0] slip_scan.simps [of _ "Suc 0"]
      slip_copy.simps [of _ _ _ 0] slip_copy.simps [of _ _ _ "Suc 0"])

lemma dispatch_Nil: "serial_dispatch net [] g = Inr g"
  by (simp add: serial_dispatch_def ip_bytevector_validate_def layout_simps)

lemma read_stray_end:
  assumes "serial_read_buffer_unprocessed g @ data = SLIP_END # frame_of p @ rest" "p \<noteq> []"
  shows "serial_read_handler net data g =
    Inr (g\<lparr>serial_read_buffer_unprocessed := frame_of p @ rest, serial_reading := True\<rparr>)"
  using assms decode_two_ends
  by (simp add: serial_read_handler_def frame_of_eq dispatch_Nil)

lemma read_frame:
  assumes "serial_read_buffer_unprocessed g @ data = frame_of p @ rest" "carries k x p"
  shows "serial_read_handler net data g =
    (case serial_dispatch net p (g\<lparr>serial_read_buffer_unprocessed := SLIP_END # rest\<rparr>) of
       Inl e \<Rightarrow> Inl e | Inr g' \<Rightarrow> Inr (g'\<lparr>serial_reading := True\<rparr>))"
proof -
  have p: "p \<noteq> []" using assms(2) by (auto simp: carries_def)
  then have "0 < length (frame_of p) - 1" using frame_of_eq [OF p] by simp
  then show ?thesis
    using decode_frame [OF p, of rest] drop_frame [OF p, of rest]
    by (simp add: serial_read_handler_def assms(1))
qed

section \<open>From a client to the line\<close>

text \<open>The addresses and ports of a handler, as the other side reads them off its packets.\<close>

definition key_of :: "tcp_server_handler \<Rightarrow> ephemeral_connection" where
  "key_of h = \<lparr>ec_saddr = remote_address h, ec_daddr = remote_addr_BE h, ec_sport = remote_port h,
               ec_dport = local_port h\<rparr>"

lemma read_packet_done_carries:
  assumes "x = fst (extract_string (in_packet h))" "12 \<le> length x" "length x \<le> 65507"
  obtains h' pkt where "read_packet_done ident iphdr False h = Inr (h', ident + 1)"
    "posted h' = posted h @ [frame_of pkt]" "carries (key_of h) x pkt" "awaiting_read h'"
    "in_packet h' = snd (extract_string (in_packet h))"
proof -
  obtain ws rest where buf: "in_packet h = ws @ x @ rest" "list_all isspace ws" "list_all (\<lambda>c. \<not> isspace c) x"
    "rest = [] \<or> isspace (hd rest)" "snd (extract_string (in_packet h)) = rest"
    using extract_string_parts [of "in_packet h"] assms(1) by metis
  obtain h' pkt th where r: "read_packet_done ident iphdr False h = Inr (h', ident + 1)" "in_packet h' = rest"
    "awaiting_read h'" "posted h' = posted h @ [frame_of pkt]"
    "ip_bytevector_validate pkt" "ip_bytevector_is_udp pkt = Inr False"
    "ip_bytevector_is_tcp pkt = Inr True" "ip_bytevector_data_start pkt = Inr 40" "drop 40 pkt = x"
    "length pkt = 40 + length x"
    "ip_hdr_at pkt = Some (default_ip_hdr ident IPV4_PROTOCOL_TCP (htonl (remote_address h))
                             (htonl (remote_addr_BE h)) (length x + 8))"
    "tcp_hdr_at (drop sizeof_ip_hdr pkt) = Some th"
    "th_source_port th = htons (remote_port h)" "th_destination_port th = htons (local_port h)"
    by (rule read_packet_done_frames [OF buf(1-4) assms(2,3), of ident iphdr])
  have "carries (key_of h) x pkt"
    using r(5-14) tcp_ports_at_hdr [OF r(12)]
    by (simp add: carries_def default_ip_hdr_def ntohl_def ntohs_def key_of_def)
  with that [OF r(1,4)] r(2,3) buf(5) show thesis by simp
qed

section \<open>From one network to the other\<close>

text \<open>End to end over the serial line.  Data of 12 to 65507 bytes without white space that a client
  sends to one side is framed by its connection handler; when the frame arrives at the other side, with
  an empty buffer and no socket for the connection yet, that side connects to the frame's destination
  and sends exactly the client's data there.  The byte that ended the frame stays in the buffer.\<close>

theorem serial_end_to_end:
  assumes "in_packet h = p" "list_all (\<lambda>c. \<not> isspace c) p" "12 \<le> length p" "length p \<le> 65507"
    "serial_read_buffer_unprocessed g = []"
    "k = \<lparr>ec_saddr = remote_address h, ec_daddr = remote_addr_BE h, ec_sport = remote_port h,
          ec_dport = local_port h\<rparr>"
    "tcp_ephemeral_socket_map g k = None" "net_connect net (remote_addr_BE h) (local_port h)" "sends_all net"
  shows "\<exists>h' frame g'. read_packet_done ident iphdr False h = Inr (h', ident + 1) \<and>
    posted h' = posted h @ [frame] \<and> serial_read_handler net frame g = Inr g' \<and>
    tcp_ephemeral_socket_map g' = (tcp_ephemeral_socket_map g)(k \<mapsto> [p]) \<and>
    serial_read_buffer_unprocessed g' = [SLIP_END]"
proof -
  have ex: "extract_string (in_packet h) = (p, [])" using extract_string_split [of "[]" p "[]"] assms(1-3) by (cases p) auto
  have "k = key_of h" using assms(6) by (simp add: key_of_def)
  then obtain h' pkt where r: "read_packet_done ident iphdr False h = Inr (h', ident + 1)"
    "posted h' = posted h @ [frame_of pkt]" and c: "carries k p pkt"
    using read_packet_done_carries [of p h ident iphdr, OF _ assms(3,4)] ex by (metis fst_conv)
  have "serial_read_handler net (frame_of pkt) g =
    Inr (g\<lparr>serial_read_buffer_unprocessed := [SLIP_END],
           tcp_ephemeral_socket_map := (tcp_ephemeral_socket_map g)(k \<mapsto> [p]), serial_reading := True\<rparr>)"
    using read_frame [OF _ c, of g "frame_of pkt" "[]" net] assms(5-8) by (simp add: dispatch_carries [OF c assms(9)])
  with r show ?thesis by auto
qed

theorem serial_end_to_end_witness:
  "\<exists>h' frame g'. read_packet_done 0 (ip4_of_ip (default_ip_hdr 0 0 0 0 0)) False
      ((Tcp_server_handler 1 2 3 4)\<lparr>in_packet := replicate 12 65\<rparr>) = Inr (h', 0 + 1) \<and>
    posted h' = [frame] \<and> serial_read_handler open_net frame bridge_init = Inr g' \<and>
    tcp_ephemeral_socket_map g' =
      [\<lparr>ec_saddr = 1, ec_daddr = 4, ec_sport = 2, ec_dport = 3\<rparr> \<mapsto> [replicate 12 65]] \<and>
    serial_read_buffer_unprocessed g' = [SLIP_END]"
  using serial_end_to_end [of "(Tcp_server_handler 1 2 3 4)\<lparr>in_packet := replicate 12 65\<rparr>"
      "replicate 12 65" bridge_init "\<lparr>ec_saddr = 1, ec_daddr = 4, ec_sport = 2, ec_dport = 3\<rparr>"
      open_net 0 "ip4_of_ip (default_ip_hdr 0 0 0 0 0)"]
  by (simp add: Tcp_server_handler_def bridge_init_def isspace_def list_all_iff)

section \<open>The backlog\<close>

fun serial_reads :: "network \<Rightarrow> bytes list \<Rightarrow> bridge \<Rightarrow> bridge_error + bridge" where
  "serial_reads net [] g = Inr g"
| "serial_reads net (d # ds) g =
     (case serial_read_handler net d g of Inl e \<Rightarrow> Inl e | Inr g' \<Rightarrow> serial_reads net ds g')"

definition all_carry :: "ephemeral_connection \<Rightarrow> (bytes \<times> bytes) list \<Rightarrow> bool" where
  "all_carry k ps = list_all (\<lambda>(x, pkt). carries k x pkt) ps"

abbreviation frames :: "(bytes \<times> bytes) list \<Rightarrow> bytes" where
  "frames ps \<equiv> concat (map (frame_of \<circ> snd) ps)"

text \<open>Two reads of one frame each take one frame out of the buffer.\<close>

lemma two_reads:
  assumes "serial_read_buffer_unprocessed g = SLIP_END # frames old" "all_carry k (old @ [a, b])"
    "tcp_ephemeral_socket_map g k = Some sent" "old @ [a, b] = q # qs" "sends_all net"
  shows "\<exists>g'. serial_reads net [frame_of (snd a), frame_of (snd b)] g = Inr g' \<and>
    serial_read_buffer_unprocessed g' = SLIP_END # frames qs \<and>
    tcp_ephemeral_socket_map g' k = Some (sent @ [fst q])"
proof -
  have cq: "carries k (fst q) (snd q)" using assms(2,4) by (auto simp: all_carry_def)
  have q0: "snd q \<noteq> []" using cq by (auto simp: carries_def)
  obtain qs' where qs': "old @ [a] = q # qs'" "qs = qs' @ [b]"
    using assms(4) by (cases old) auto
  let ?g = "g\<lparr>serial_read_buffer_unprocessed := frames (old @ [a]), serial_reading := True\<rparr>"
  have buf: "frames (old @ [a]) = frame_of (snd q) @ frames qs'" using qs'(1) by simp
  have "serial_read_buffer_unprocessed g @ frame_of (snd a) = SLIP_END # frame_of (snd q) @ frames qs'"
    using assms(1) buf by simp
  then have 1: "serial_read_handler net (frame_of (snd a)) g = Inr ?g"
    using read_stray_end [OF _ q0] buf by simp
  have "serial_read_buffer_unprocessed ?g @ frame_of (snd b) = frame_of (snd q) @ frames qs"
    using buf qs'(2) by simp
  from read_frame [OF this cq, of net] have 2: "serial_read_handler net (frame_of (snd b)) ?g =
      Inr (?g\<lparr>serial_read_buffer_unprocessed := SLIP_END # frames qs,
        tcp_ephemeral_socket_map := (tcp_ephemeral_socket_map g)(k \<mapsto> sent @ [fst q])\<rparr>)"
    using assms(3) by (simp add: dispatch_carries [OF cq assms(5)])
  show ?thesis using 1 2 by simp
qed

lemma reads_backlog:
  assumes "serial_read_buffer_unprocessed g = SLIP_END # frames old" "all_carry k (old @ ps)"
    "tcp_ephemeral_socket_map g k = Some sent" "length ps = 2 * n" "sends_all net"
  shows "\<exists>g'. serial_reads net (map (frame_of \<circ> snd) ps) g = Inr g' \<and>
    serial_read_buffer_unprocessed g' = SLIP_END # frames (drop n (old @ ps)) \<and>
    tcp_ephemeral_socket_map g' k = Some (sent @ map fst (take n (old @ ps)))"
  using assms(1-4)
proof (induction n arbitrary: g old ps sent)
  case 0
  then show ?case by simp
next
  case (Suc n)
  then obtain a b ps' where ps: "ps = a # b # ps'" "length ps' = 2 * n"
    by (cases ps; cases "tl ps") auto
  obtain q qs where q: "old @ [a, b] = q # qs" by (cases "old @ [a, b]") auto
  have "all_carry k (old @ [a, b])" using Suc.prems(2) ps(1) by (simp add: all_carry_def)
  from two_reads [OF Suc.prems(1) this Suc.prems(3) q assms(5)] obtain g1 where g1:
    "serial_reads net [frame_of (snd a), frame_of (snd b)] g = Inr g1"
    "serial_read_buffer_unprocessed g1 = SLIP_END # frames qs"
    "tcp_ephemeral_socket_map g1 k = Some (sent @ [fst q])" by blast
  have split: "old @ ps = q # qs @ ps'" using ps(1) q by (metis append.assoc append_Cons append_Nil)
  then have "all_carry k (qs @ ps')" using Suc.prems(2) by (simp add: all_carry_def)
  from Suc.IH [OF g1(2) this g1(3) ps(2)] obtain g2 where g2:
    "serial_reads net (map (frame_of \<circ> snd) ps') g1 = Inr g2"
    "serial_read_buffer_unprocessed g2 = SLIP_END # frames (drop n (qs @ ps'))"
    "tcp_ephemeral_socket_map g2 k = Some ((sent @ [fst q]) @ map fst (take n (qs @ ps')))" by blast
  have "serial_reads net (map (frame_of \<circ> snd) ps) g = Inr g2"
    using g1(1) g2(1) ps(1) by (auto split: sum.splits)
  then show ?case using g2(2,3) split by (intro exI [of _ g2]) (simp add: comp_def)
qed

text \<open>The receiver falls behind.  \<open>slip_decode\<close> does not consume the END that terminates a frame, and
  the handler decodes once per read; so the left-over END and the END that introduces the next frame
  are taken for an empty message.  When frames then arrive one per read, only every second read
  delivers a packet: after \<open>2 * n\<close> further packets just the first \<open>n\<close> have been sent on, in order, and the
  other \<open>n\<close> sit in the buffer.\<close>

theorem serial_backlog_grows:
  assumes "serial_read_buffer_unprocessed g = [SLIP_END]" "all_carry k ps" "length ps = 2 * n"
    "tcp_ephemeral_socket_map g k = Some sent" "sends_all net"
  shows "\<exists>g'. serial_reads net (map (frame_of \<circ> snd) ps) g = Inr g' \<and>
    tcp_ephemeral_socket_map g' k = Some (sent @ map fst (take n ps)) \<and>
    serial_read_buffer_unprocessed g' = SLIP_END # frames (drop n ps)"
  using reads_backlog [of g "[]" k ps sent n net] assms by auto

lemma carries_example: "\<exists>k pkt. carries k (replicate 12 65) pkt"
proof -
  have len: "12 \<le> length (replicate 12 (65 :: u8))" "length (replicate 12 (65 :: u8)) \<le> 65507" by simp_all
  obtain ih th where *: "let pkt = ip_hdr_bytes ih @ tcp_hdr_bytes th @ replicate 12 65
     in ip_bytevector_validate pkt \<and> ip_bytevector_is_udp pkt = Inr False \<and>
        ip_bytevector_is_tcp pkt = Inr True \<and> ip_bytevector_data_start pkt = Inr 40 \<and>
        drop 40 pkt = replicate 12 65 \<and> length pkt = 40 + length (replicate 12 (65 :: u8)) \<and>
        ip_hdr_at pkt = Some (default_ip_hdr 0 IPV4_PROTOCOL_TCP 1 2 (length (replicate 12 (65 :: u8)) + 8)) \<and>
        tcp_hdr_at (drop sizeof_ip_hdr pkt) = Some th \<and>
        th_source_port th = 3 \<and> th_destination_port th = 4"
    by (rule ipb.build_packet [OF len, of 0 "default_ip_hdr 0 0 0 0 0" 1 3 2 4])
  define pkt where "pkt = ip_hdr_bytes ih @ tcp_hdr_bytes th @ replicate 12 65"
  note f = * [unfolded Let_def, folded pkt_def]
  show ?thesis
    using f tcp_ports_at_hdr [of pkt th]
    by (intro exI [of _ "\<lparr>ec_saddr = ntohl 1, ec_daddr = ntohl 2, ec_sport = ntohs 3, ec_dport = ntohs 4\<rparr>"]
        exI [of _ pkt]) (simp add: carries_def default_ip_hdr_def)
qed

theorem serial_backlog_grows_witness:
  "\<exists>k pkt g g'. carries k (replicate 12 65) pkt \<and> serial_read_buffer_unprocessed g = [SLIP_END] \<and>
    serial_reads open_net [frame_of pkt, frame_of pkt] g = Inr g' \<and>
    tcp_ephemeral_socket_map g' k = Some [replicate 12 65] \<and>
    serial_read_buffer_unprocessed g' = SLIP_END # frame_of pkt"
proof -
  obtain k pkt where c: "carries k (replicate 12 65) pkt" using carries_example by blast
  let ?ps = "[(replicate 12 65, pkt), (replicate 12 65, pkt)]"
  let ?g = "bridge_init\<lparr>serial_read_buffer_unprocessed := [SLIP_END],
    tcp_ephemeral_socket_map := [k \<mapsto> []]\<rparr>"
  have "serial_read_buffer_unprocessed ?g = [SLIP_END]" "all_carry k ?ps" "length ?ps = 2 * 1"
    "tcp_ephemeral_socket_map ?g k = Some []"
    using c by (simp_all add: all_carry_def)
  from serial_backlog_grows [OF this open_net(1)] show ?thesis
    using c by - (rule exI [of _ k], rule exI [of _ pkt], rule exI [of _ ?g], simp add: comp_def)
qed

section \<open>Runts\<close>

text \<open>A frame that passes validation as an IP header of 20 bytes but is marked TCP and is shorter
  than 40 bytes is not rejected: below 24 bytes the handler reads the ports outside the vector, and up
  to 39 bytes, once a connection exists, the length of the data to send wraps around.\<close>

theorem serial_runt_tcp:
  assumes "20 \<le> length pkt" "length pkt < 40" "pkt ! 9 = IPV4_PROTOCOL_TCP"
    "\<And>a p. net_connect net a p"
  shows "ip_bytevector_validate pkt \<and> serial_dispatch net pkt g = Inl Br_out_of_bounds"
proof -
  obtain ih where ih: "ip_hdr_at pkt = Some ih" using assms(1) by (simp add: ip_hdr_at_def layout_simps)
  have v: "ip_bytevector_validate pkt"
    using assms(1) ih by (simp add: ip_bytevector_validate_def ip_hdr_valid_def layout_simps)
  have cls: "ip_bytevector_is_udp pkt = Inr False" "ip_bytevector_is_tcp pkt = Inr True"
    "ip_bytevector_data_start pkt = Inr 40"
    using tcp_classified [of pkt] assms(1,3) by simp_all
  then have "payload_at pkt = Inl Br_out_of_bounds" using assms(2) by (simp add: payload_at_def)
  then show ?thesis
    using v cls ih assms(4)
    by (auto simp: serial_dispatch_def serial_dispatch_tcp_def Let_def split: option.splits)
qed

theorem serial_runt_tcp_witness:
  "ip_bytevector_validate (replicate 9 0 @ 6 # replicate 15 0) \<and>
   serial_dispatch open_net (replicate 9 0 @ 6 # replicate 15 0) bridge_init = Inl Br_out_of_bounds"
  by (rule serial_runt_tcp) (simp_all add: nth_append IPV4_PROTOCOL_TCP_def)

section \<open>Listening\<close>

text \<open>Every listening port has one outstanding accept, into a handler of its own that has not started.\<close>

definition accepting :: "bridge \<Rightarrow> bool" where
  "accepting g \<longleftrightarrow>
     (\<forall>port a. tcp_server_acceptor_map g port = Some a \<longrightarrow>
        (\<exists>i. a = Some i \<and> i < length (tcp_server_handler_list g) \<and>
             \<not> awaiting_read (tcp_server_handler_list g ! i))) \<and>
     (\<forall>p q i. tcp_server_acceptor_map g p = Some (Some i) \<longrightarrow>
              tcp_server_acceptor_map g q = Some (Some i) \<longrightarrow> p = q)"

lemma accepting_bound:
  "accepting g \<Longrightarrow> tcp_server_acceptor_map g p = Some (Some i) \<Longrightarrow> i < length (tcp_server_handler_list g)"
  by (fastforce simp: accepting_def)

lemma accepting_add:
  assumes "accepting g"
  shows "accepting (listen_on indet port g)"
proof (cases "port \<in> dom (tcp_server_acceptor_map g)")
  case True
  then show ?thesis
    using assms by (fastforce simp: accepting_def listen_on_def nth_append)
next
  case False
  have old: "\<exists>i. a = Some i \<and> i < length (tcp_server_handler_list g) \<and>
      \<not> awaiting_read (tcp_server_handler_list g ! i)" if "tcp_server_acceptor_map g p = Some a" for p a
    using assms that by (auto simp: accepting_def)
  show ?thesis
    unfolding accepting_def
  proof (intro conjI allI impI)
    fix p a
    assume "tcp_server_acceptor_map (listen_on indet port g) p = Some a"
    then show "\<exists>i. a = Some i \<and> i < length (tcp_server_handler_list (listen_on indet port g)) \<and>
        \<not> awaiting_read (tcp_server_handler_list (listen_on indet port g) ! i)"
      using False old [of p a]
      by (fastforce simp: listen_on_def nth_append Tcp_server_handler_def split: if_splits)
  next
    fix p q i
    assume "tcp_server_acceptor_map (listen_on indet port g) p = Some (Some i)"
      "tcp_server_acceptor_map (listen_on indet port g) q = Some (Some i)"
    then show "p = q"
      using False assms accepting_bound [OF assms, of p] accepting_bound [OF assms, of q]
      by (auto simp: listen_on_def accepting_def split: if_splits)
  qed
qed

lemma accepting_update:
  assumes "accepting g" "\<And>p. tcp_server_acceptor_map g p \<noteq> Some (Some i)"
  shows "accepting (g\<lparr>tcp_server_handler_list := (tcp_server_handler_list g)[i := h]\<rparr>)" (is "accepting ?g")
  unfolding accepting_def
proof (intro conjI allI impI)
  fix p a
  assume "tcp_server_acceptor_map ?g p = Some a"
  then have p: "tcp_server_acceptor_map g p = Some a" by simp
  then obtain j where j: "a = Some j" "j < length (tcp_server_handler_list g)" "\<not> awaiting_read (tcp_server_handler_list g ! j)"
    using assms(1) unfolding accepting_def by meson
  moreover have "j \<noteq> i" using p j(1) assms(2) by blast
  ultimately show "\<exists>j. a = Some j \<and> j < length (tcp_server_handler_list ?g) \<and> \<not> awaiting_read (tcp_server_handler_list ?g ! j)"
    by simp
next
  fix p q j
  assume "tcp_server_acceptor_map ?g p = Some (Some j)" "tcp_server_acceptor_map ?g q = Some (Some j)"
  then have "tcp_server_acceptor_map g p = Some (Some j)" "tcp_server_acceptor_map g q = Some (Some j)" by simp_all
  then show "p = q" using assms(1) unfolding accepting_def by meson
qed

text \<open>The set-up either stops at the first call that fails or has all ports listening.\<close>

lemma add_server_ports_eq:
  "add_server_ports os indet ports g = Inr g' \<Longrightarrow> g' = fold (listen_on indet) ports g"
  by (induction ports arbitrary: g) (auto simp: add_server_port_def Let_def split: sum.splits if_splits)

lemma main_setup_eq:
  "main_setup os indet name rate ports = Inr g \<Longrightarrow> g = fold (listen_on indet) ports bridge_init"
  by (auto simp: main_setup_def dest: add_server_ports_eq split: if_splits)

lemma dom_listen [simp]: "dom (tcp_server_acceptor_map (listen_on indet port g)) = insert port (dom (tcp_server_acceptor_map g))"
  by (auto simp: listen_on_def Let_def)

text \<open>The ports listened on when the next one is set up.\<close>

fun all_open :: "setup_os \<Rightarrow> u16 set \<Rightarrow> u16 list \<Rightarrow> bool" where
  "all_open os listening [] \<longleftrightarrow> True"
| "all_open os listening (port # ports) \<longleftrightarrow>
     os_acceptor_open os \<and> os_reuse_address os \<and> os_bind os listening port \<and> os_listen os listening port \<and>
     all_open os (insert port listening) ports"

lemma add_server_ports_ok:
  "all_open os (dom (tcp_server_acceptor_map g)) ports \<Longrightarrow>
     add_server_ports os indet ports g = Inr (fold (listen_on indet) ports g)"
  by (induction ports arbitrary: g) (simp_all add: add_server_port_def Let_def)

lemma main_setup_ok:
  assumes "os_serial_open os name" "os_set_baud_rate os rate" "all_open os {} ports"
  shows "main_setup os indet name rate ports = Inr (fold (listen_on indet) ports bridge_init)"
  using assms add_server_ports_ok [of os bridge_init ports indet] by (simp add: main_setup_def bridge_init_def)

lemma add_server_ports_fails:
  "\<not> all_open os (dom (tcp_server_acceptor_map g)) ports \<Longrightarrow> \<exists>e. add_server_ports os indet ports g = Inl e"
  by (induction ports arbitrary: g) (auto simp: add_server_port_def Let_def)

text \<open>An exception that nothing catches is what a failed call of the set-up comes to.\<close>

lemma main_setup_fails:
  assumes "\<not> (os_serial_open os name \<and> os_set_baud_rate os rate \<and> all_open os {} ports)"
  shows "\<exists>e. main_setup os indet name rate ports = Inl e"
  using assms add_server_ports_fails [of os bridge_init ports indet] by (auto simp: main_setup_def bridge_init_def)

lemma setup_port_twice: "main_setup good_os indet ''/dev/ttyS0'' 9600 [8888, 8888] = Inl (Setup_bind 8888)"
  by (simp add: main_setup_def good_os_def add_server_port_def listen_on_def bridge_init_def Let_def)

lemma accepting_setup: "main_setup os indet name rate ports = Inr g \<Longrightarrow> accepting g"
proof -
  have "accepting (fold (listen_on indet) ports g)" if "accepting g" for g
    using that by (induction ports arbitrary: g) (simp_all add: accepting_add)
  moreover have "accepting bridge_init" by (simp add: bridge_init_def accepting_def)
  ultimately show "main_setup os indet name rate ports = Inr g \<Longrightarrow> accepting g" using main_setup_eq by metis
qed

lemma dom_setup: "main_setup os indet name rate ports = Inr g \<Longrightarrow> dom (tcp_server_acceptor_map g) = set ports"
proof -
  have "dom (tcp_server_acceptor_map (fold (listen_on indet) ports g)) =
      dom (tcp_server_acceptor_map g) \<union> set ports" for g
    by (induction ports arbitrary: g) (simp_all add: insert_commute)
  then show "main_setup os indet name rate ports = Inr g \<Longrightarrow> dom (tcp_server_acceptor_map g) = set ports"
    using main_setup_eq [of os indet name rate ports g] by (simp add: bridge_init_def)
qed

text \<open>An accept of the handler that is waiting on \<open>lport\<close>.\<close>

lemma accept_keeps:
  assumes "accepting g" "tcp_server_acceptor_map g lport = Some (Some i)"
  shows "\<exists>g'. tcp_server_accept_handler indet raddr rport lport i False g = Inr g' \<and> accepting g' \<and>
    dom (tcp_server_acceptor_map g') = dom (tcp_server_acceptor_map g) \<and>
    tcp_server_handler_list g' ! i = tcp_start ((tcp_server_handler_list g ! i)
      \<lparr>remote_address := raddr, remote_port := rport, local_port := lport\<rparr>)"
proof -
  let ?l = "tcp_server_handler_list g"
  let ?h = "tcp_start ((?l ! i)\<lparr>remote_address := raddr, remote_port := rport, local_port := lport\<rparr>)"
  let ?g = "g\<lparr>tcp_server_handler_list := ?l[i := ?h] @ [Tcp_server_handler 0 0 0 indet],
    tcp_server_acceptor_map := (tcp_server_acceptor_map g)(lport \<mapsto> Some (length ?l))\<rparr>"
  have i: "i < length ?l" using accepting_bound [OF assms] .
  have run: "tcp_server_accept_handler indet raddr rport lport i False g = Inr ?g"
    using assms(2) by (simp add: tcp_server_accept_handler_def Let_def)
  have other: "\<exists>j. a = Some j \<and> j < length ?l \<and> j \<noteq> i \<and> \<not> awaiting_read (?l ! j)"
    if "tcp_server_acceptor_map g p = Some a" "p \<noteq> lport" for p a
    using assms that by (fastforce simp: accepting_def)
  have acc: "accepting ?g"
    unfolding accepting_def
  proof (intro conjI allI impI)
    fix p a
    assume "tcp_server_acceptor_map ?g p = Some a"
    then show "\<exists>j. a = Some j \<and> j < length (tcp_server_handler_list ?g) \<and>
        \<not> awaiting_read (tcp_server_handler_list ?g ! j)"
      using other [of p a]
      by (fastforce simp: nth_append Tcp_server_handler_def split: if_splits)
  next
    fix p q j
    assume "tcp_server_acceptor_map ?g p = Some (Some j)" "tcp_server_acceptor_map ?g q = Some (Some j)"
    then show "p = q"
      using assms(1) accepting_bound [OF assms(1), of p] accepting_bound [OF assms(1), of q]
      by (auto simp: accepting_def split: if_splits)
  qed
  have "dom (tcp_server_acceptor_map ?g) = dom (tcp_server_acceptor_map g)" using assms(2) by auto
  moreover have "tcp_server_handler_list ?g ! i = ?h" using i by (simp add: nth_append)
  ultimately show ?thesis using run acc by blast
qed

inductive accept_reach :: "u16 list \<Rightarrow> bridge \<Rightarrow> bool" where
  Setup: "main_setup os indet name rate ports = Inr g \<Longrightarrow> accept_reach ports g"
| Accept: "accept_reach ports g \<Longrightarrow> tcp_server_acceptor_map g lport = Some (Some i) \<Longrightarrow>
    tcp_server_accept_handler indet raddr rport lport i False g = Inr g' \<Longrightarrow> accept_reach ports g'"

lemma accept_reach_inv:
  "accept_reach ports g \<Longrightarrow> accepting g \<and> dom (tcp_server_acceptor_map g) = set ports"
proof (induction rule: accept_reach.induct)
  case (Setup os indet name rate ports g)
  then show ?case using accepting_setup dom_setup by blast
next
  case (Accept ports g lport i indet raddr rport g')
  from accept_keeps [OF conjunct1 [OF Accept.IH] Accept.hyps(2), of indet raddr rport] Accept
  show ?case by auto
qed

lemma accept_next:
  assumes "accept_reach ports g" "lport \<in> set ports"
  shows "\<exists>i. tcp_server_acceptor_map g lport = Some (Some i) \<and> i < length (tcp_server_handler_list g) \<and>
    \<not> awaiting_read (tcp_server_handler_list g ! i) \<and>
    (\<exists>g'. tcp_server_accept_handler indet raddr rport lport i False g = Inr g' \<and>
       accept_reach ports g' \<and> awaiting_read (tcp_server_handler_list g' ! i) \<and>
       remote_address (tcp_server_handler_list g' ! i) = raddr \<and>
       remote_port (tcp_server_handler_list g' ! i) = rport)"
proof -
  note inv = accept_reach_inv [OF assms(1)]
  then obtain a where "tcp_server_acceptor_map g lport = Some a" using assms(2) by blast
  with inv obtain i where i: "tcp_server_acceptor_map g lport = Some (Some i)"
    "i < length (tcp_server_handler_list g)" "\<not> awaiting_read (tcp_server_handler_list g ! i)"
    by (auto simp: accepting_def)
  obtain g' where g': "tcp_server_accept_handler indet raddr rport lport i False g = Inr g'"
    "tcp_server_handler_list g' ! i = tcp_start ((tcp_server_handler_list g ! i)
      \<lparr>remote_address := raddr, remote_port := rport, local_port := lport\<rparr>)"
    using accept_keeps [OF conjunct1 [OF inv] i(1)] by blast
  moreover have "accept_reach ports g'" by (rule accept_reach.Accept [OF assms(1) i(1) g'(1)])
  ultimately show ?thesis using i by (auto simp: tcp_start_def read_packet_def)
qed

text \<open>The program keeps listening.  After the set-up and any sequence of accepted connections every
  configured port has an outstanding accept, into a handler of its own that is not yet
  reading; the next connection on it starts that handler with the endpoints of the connection and the
  port is accepting again.\<close>

theorem bridge_keeps_listening:
  assumes "accept_reach ports g" "lport \<in> set ports"
  shows "\<exists>i. tcp_server_acceptor_map g lport = Some (Some i) \<and> i < length (tcp_server_handler_list g) \<and>
    \<not> awaiting_read (tcp_server_handler_list g ! i) \<and>
    (\<exists>g'. tcp_server_accept_handler indet raddr rport lport i False g = Inr g' \<and>
       accept_reach ports g' \<and> awaiting_read (tcp_server_handler_list g' ! i) \<and>
       remote_address (tcp_server_handler_list g' ! i) = raddr \<and>
       remote_port (tcp_server_handler_list g' ! i) = rport)"
  using assms by (rule accept_next)

theorem bridge_keeps_listening_witness:
  "\<exists>g i g'. main_setup good_os 0 ''/dev/ttyS0'' 9600 [8888, 8889] = Inr g \<and>
    tcp_server_acceptor_map g 8889 = Some (Some i) \<and>
    tcp_server_accept_handler 0 1 2 8889 i False g = Inr g' \<and> accept_reach [8888, 8889] g'"
proof -
  let ?g = "fold (listen_on 0) [8888, 8889] bridge_init"
  have g: "main_setup good_os 0 ''/dev/ttyS0'' 9600 [8888, 8889] = Inr ?g"
    by (rule main_setup_ok) (simp_all add: good_os_def)
  from bridge_keeps_listening [OF accept_reach.Setup [OF g], of 8889 0 1 2] show ?thesis
    using g by (auto intro!: exI [of _ ?g])
qed

end
