(* ===== verification/Serial_port.thy ===== *)
theory Serial_port
  imports Serial_bridge
begin

text \<open>
  The serial port, \<^verbatim>\<open>udptoserial/Serial_port.cpp\<close>: the polled byte queues over Win32 overlapped I/O, and
  the asynchronous queueing and sending chain.

  What the Win32 calls do during one tick is a parameter of \<open>serial_port_tick\<close>: whether \<open>ReadFile\<close> and
  \<open>WriteFile\<close> complete at once and the bytes or the count they report in \<open>InternalHigh\<close>, and what
  \<open>WaitForMultipleObjects\<close> returns for a given number of handles.  Setting up the port is in
  \<open>Win32_port\<close>, receiving on the asynchronous port in \<open>Serial_reader\<close>.
\<close>

section \<open>The polled queues\<close>

text \<open>\<open>WAIT_OBJECT_0 + i\<close>, or a timeout.\<close>

datatype wait_result = WAIT_OBJECT nat | WAIT_TIMEOUT

record win32 =
  read_done :: bool
  read_bytes :: bytes
  write_done :: bool
  write_count :: nat
  wait_multiple :: "nat \<Rightarrow> wait_result"
  waited_read_bytes :: bytes
  waited_write_count :: nat

text \<open>\<open>issued\<close> collects what was given to \<open>WriteFile\<close>.\<close>

record serial_queues =
  input_byte_queue :: bytes
  output_byte_queue :: bytes
  waiting_on_read :: bool
  waiting_on_write :: bool
  issued :: bytes

datatype serial_error = Read_tick_error | Write_tick_error

definition serial_port_read :: "bytes \<Rightarrow> serial_queues \<Rightarrow> bytes \<times> serial_queues" where
  "serial_port_read out s =
     (if length (output_byte_queue s) > 0
      then (out @ output_byte_queue s, s\<lparr>output_byte_queue := []\<rparr>)
      else (out, s))"

definition serial_port_write :: "bytes \<Rightarrow> serial_queues \<Rightarrow> serial_queues" where
  "serial_port_write inp s = s\<lparr>input_byte_queue := input_byte_queue s @ inp\<rparr>"

text \<open>The four parts of \<open>serial_port_tick\<close>: issue a read, issue a write, and take the completion of
  either.\<close>

definition tick_issue_read :: "win32 \<Rightarrow> serial_queues \<Rightarrow> serial_queues" where
  "tick_issue_read w s =
     (if \<not> waiting_on_read s then
        (if read_done w then
           (if length (read_bytes w) > 0
            then s\<lparr>output_byte_queue := output_byte_queue s @ read_bytes w, waiting_on_read := False\<rparr>
            else s)
         else s\<lparr>waiting_on_read := True\<rparr>)
      else s)"

definition tick_issue_write :: "win32 \<Rightarrow> serial_queues \<Rightarrow> serial_queues" where
  "tick_issue_write w s =
     (if \<not> waiting_on_write s \<and> length (input_byte_queue s) > 0 then
        (let bytes_enqueued = min 128 (length (input_byte_queue s));
             write_buffer = take bytes_enqueued (input_byte_queue s);
             s = s\<lparr>input_byte_queue := drop bytes_enqueued (input_byte_queue s),
                   issued := issued s @ write_buffer\<rparr>
         in if write_done w then
              (if write_count w > 0 then s\<lparr>waiting_on_write := False\<rparr> else s)
            else s\<lparr>waiting_on_write := True\<rparr>)
      else s)"

definition tick_read_completed :: "win32 \<Rightarrow> serial_queues \<Rightarrow> serial_error + serial_queues" where
  "tick_read_completed w s =
     (if length (waited_read_bytes w) > 0
      then Inr (s\<lparr>output_byte_queue := output_byte_queue s @ waited_read_bytes w, waiting_on_read := False\<rparr>)
      else Inl Read_tick_error)"

definition tick_write_completed :: "win32 \<Rightarrow> serial_queues \<Rightarrow> serial_error + serial_queues" where
  "tick_write_completed w s =
     (if waited_write_count w > 0 then Inr (s\<lparr>waiting_on_write := False\<rparr>) else Inl Write_tick_error)"

definition serial_port_tick :: "win32 \<Rightarrow> serial_queues \<Rightarrow> serial_error + serial_queues" where
  "serial_port_tick w s =
     (let s = tick_issue_write w (tick_issue_read w s)
      in if waiting_on_read s \<and> waiting_on_write s then
           (let dw = wait_multiple w 2
            in if dw = WAIT_OBJECT 0 then tick_read_completed w s
               else if dw = WAIT_OBJECT 1 then tick_write_completed w s
               else Inr s)
         else if waiting_on_read s then
           (if wait_multiple w 1 = WAIT_OBJECT 0 then tick_read_completed w s else Inr s)
         else if waiting_on_write s then
           (if wait_multiple w 1 = WAIT_OBJECT 1 then tick_write_completed w s else Inr s)
         else Inr s)"

text \<open>A run of the polling loop: writes by the program and ticks, with what it read.\<close>

datatype serial_op = Op_write bytes | Op_tick win32 | Op_read

fun serial_run ::
    "serial_op list \<Rightarrow> bytes \<Rightarrow> serial_queues \<Rightarrow> serial_error + bytes \<times> serial_queues" where
  "serial_run [] out s = Inr (out, s)"
| "serial_run (Op_write inp # ops) out s = serial_run ops out (serial_port_write inp s)"
| "serial_run (Op_read # ops) out s =
     (case serial_port_read out s of (out', s') \<Rightarrow> serial_run ops out' s')"
| "serial_run (Op_tick w # ops) out s =
     (case serial_port_tick w s of Inl e \<Rightarrow> Inl e | Inr s' \<Rightarrow> serial_run ops out s')"

fun written_by :: "serial_op list \<Rightarrow> bytes" where
  "written_by [] = []"
| "written_by (Op_write inp # ops) = inp @ written_by ops"
| "written_by (_ # ops) = written_by ops"

lemma tick_issue_write_conserves:
  "issued (tick_issue_write w s) @ input_byte_queue (tick_issue_write w s) = issued s @ input_byte_queue s"
  by (simp add: tick_issue_write_def Let_def)

lemma tick_conserves:
  assumes "serial_port_tick w s = Inr s'"
  shows "issued s' @ input_byte_queue s' = issued s @ input_byte_queue s"
proof -
  let ?s = "tick_issue_write w (tick_issue_read w s)"
  have "issued s' @ input_byte_queue s' = issued ?s @ input_byte_queue ?s"
    using assms
    by (auto simp: serial_port_tick_def Let_def tick_read_completed_def tick_write_completed_def
        split: if_splits)
  also have "\<dots> = issued s @ input_byte_queue s"
    unfolding tick_issue_write_conserves by (simp add: tick_issue_read_def)
  finally show ?thesis .
qed

text \<open>Bytes the program writes to the polled port are handed to the operating system once each and in
  order: after any sequence of writes, reads and ticks without an error,
  the bytes issued and those still queued are the bytes queued at the start followed by all that was
  written since.\<close>

theorem serial_writes_in_order:
  assumes "serial_run ops out s = Inr (out', s')"
  shows "issued s' @ input_byte_queue s' = issued s @ input_byte_queue s @ written_by ops"
  using assms
proof (induction ops arbitrary: out s)
  case Nil
  then show ?case by simp
next
  case (Cons op ops)
  show ?case
  proof (cases op)
    case (Op_write inp)
    then show ?thesis using Cons.IH Cons.prems by (simp add: serial_port_write_def)
  next
    case (Op_tick w)
    then obtain s1 where s1: "serial_port_tick w s = Inr s1" "serial_run ops out s1 = Inr (out', s')"
      using Cons.prems by (auto split: sum.splits)
    have "issued s1 @ input_byte_queue s1 @ written_by ops = (issued s @ input_byte_queue s) @ written_by ops"
      using tick_conserves [OF s1(1)] by (metis append.assoc)
    then show ?thesis using Cons.IH [OF s1(2)] Op_tick by simp
  next
    case Op_read
    then show ?thesis
      using Cons.IH Cons.prems by (fastforce simp: serial_port_read_def split: if_splits)
  qed
qed

definition win32_example :: win32 where
  "win32_example = \<lparr>read_done = False, read_bytes = [], write_done = True, write_count = 3,
     wait_multiple = (\<lambda>_. WAIT_TIMEOUT), waited_read_bytes = [], waited_write_count = 0\<rparr>"

definition serial_idle :: serial_queues where
  "serial_idle = \<lparr>input_byte_queue = [], output_byte_queue = [], waiting_on_read = False,
     waiting_on_write = False, issued = []\<rparr>"

theorem serial_writes_in_order_witness:
  "\<exists>s'. serial_run [Op_write [1, 2, 3], Op_tick win32_example, Op_write [4]] [] serial_idle = Inr ([], s') \<and>
    issued s' @ input_byte_queue s' = [1, 2, 3, 4]"
proof -
  have "\<exists>s'. serial_run [Op_write [1, 2, 3], Op_tick win32_example, Op_write [4]] [] serial_idle =
      Inr ([], s')"
    by (simp add: serial_idle_def win32_example_def serial_port_write_def serial_port_tick_def Let_def
        tick_issue_read_def tick_issue_write_def)
  then obtain s' where "serial_run [Op_write [1, 2, 3], Op_tick win32_example, Op_write [4]] [] serial_idle =
      Inr ([], s')" by blast
  with serial_writes_in_order [OF this] show ?thesis by (simp add: serial_idle_def)
qed

text \<open>A write can be left waiting for ever.  The branch that waits for the write alone passes one
  handle and tests for the second, a value \<open>WaitForMultipleObjects\<close> does not return for one handle; so
  once a write is pending, ticks whose reads complete at once neither take its completion nor issue
  another byte.\<close>

theorem serial_write_stalls:
  assumes "waiting_on_write s" "\<not> waiting_on_read s"
    "list_all (\<lambda>w. read_done w \<and> (\<forall>i. wait_multiple w 1 = WAIT_OBJECT i \<longrightarrow> i < 1)) ws"
  shows "\<exists>s'. serial_run (map Op_tick ws) out s = Inr (out, s') \<and> waiting_on_write s' \<and>
    issued s' = issued s \<and> input_byte_queue s' = input_byte_queue s"
  using assms
proof (induction ws arbitrary: s)
  case (Cons w ws)
  let ?s = "tick_issue_read w s"
  have s1: "waiting_on_write ?s" "\<not> waiting_on_read ?s" "issued ?s = issued s"
    "input_byte_queue ?s = input_byte_queue s"
    using Cons.prems by (simp_all add: tick_issue_read_def)
  have "wait_multiple w 1 \<noteq> WAIT_OBJECT 1" using Cons.prems(3) by auto
  then have "serial_port_tick w s = Inr ?s"
    using s1 by (simp add: serial_port_tick_def Let_def tick_issue_write_def)
  then show ?case using Cons.IH [OF s1(1,2)] Cons.prems(3) s1(3,4) by simp
qed simp

theorem serial_write_stalls_witness:
  "\<exists>s'. serial_run (map Op_tick [win32_example\<lparr>read_done := True\<rparr>]) []
      (serial_idle\<lparr>waiting_on_write := True\<rparr>) = Inr ([], s') \<and> waiting_on_write s'"
proof -
  have "list_all (\<lambda>w. read_done w \<and> (\<forall>i. wait_multiple w 1 = WAIT_OBJECT i \<longrightarrow> i < 1))
      [win32_example\<lparr>read_done := True\<rparr>]" by (simp add: win32_example_def)
  from serial_write_stalls [OF _ _ this, of "serial_idle\<lparr>waiting_on_write := True\<rparr>" "[]"] show ?thesis
    by (auto simp: serial_idle_def)
qed

section \<open>The asynchronous chain\<close>

record serial_chain =
  sp_posted :: "bytes list"
  sp_queue :: "bytes list"
  sp_writing :: "bytes option"
  sp_written :: "bytes list"

definition serial_port_start_packet_send :: "serial_chain \<Rightarrow> tcp_error + serial_chain" where
  "serial_port_start_packet_send c =
     (case sp_queue c of
        [] \<Rightarrow> Inl Tcp_undefined
      | m # ms \<Rightarrow> (let m' = m @ [] in Inr (c\<lparr>sp_queue := m' # ms, sp_writing := Some m'\<rparr>)))"

definition serial_port_queue_message :: "bytes \<Rightarrow> serial_chain \<Rightarrow> tcp_error + serial_chain" where
  "serial_port_queue_message message c =
     (let write_in_progress = (sp_queue c \<noteq> []);
          c = c\<lparr>sp_queue := sp_queue c @ [message]\<rparr>
      in if \<not> write_in_progress then serial_port_start_packet_send c else Inr c)"

definition serial_port_packet_send_done :: "bool \<Rightarrow> serial_chain \<Rightarrow> tcp_error + serial_chain" where
  "serial_port_packet_send_done error c =
     (if \<not> error then
        (case sp_queue c of
           [] \<Rightarrow> Inl Tcp_undefined
         | _ # ms \<Rightarrow>
             (let c = c\<lparr>sp_queue := ms\<rparr>
              in if sp_queue c \<noteq> [] then serial_port_start_packet_send c else Inr c))
      else Inr c)"

record endpoint =
  ep_address :: u32
  ep_port :: u16

text \<open>The comment \<open>// slip\<close> stands where an encoding would be; none is done.\<close>

definition serial_port_send_tcp ::
    "u16 \<Rightarrow> ip_hdr \<Rightarrow> endpoint \<Rightarrow> endpoint \<Rightarrow> bytes \<Rightarrow> serial_chain \<Rightarrow> tcp_error + serial_chain \<times> u16" where
  "serial_port_send_tcp ident iphdr source dest payload c =
     (case ip_tcp_headers_default_set ident iphdr
             (htonl (ep_address source)) (htons (ep_port source))
             (htonl (ep_address dest)) (htons (ep_port source))
             (payload @ [0]) (length payload) of
        Inl e \<Rightarrow> Inl (Tcp_headers e)
      | Inr (iphdr, tcphdr, ident') \<Rightarrow>
          (let binary_str = ip_hdr_bytes iphdr @ tcp_hdr_bytes tcphdr @ payload
           in Inr (c\<lparr>sp_posted := sp_posted c @ [binary_str]\<rparr>, ident')))"

definition chain_inv :: "serial_chain \<Rightarrow> bool" where
  "chain_inv c \<longleftrightarrow> sp_writing c = (case sp_queue c of [] \<Rightarrow> None | m # _ \<Rightarrow> Some m)"

definition chain_push :: "bytes \<Rightarrow> serial_chain \<Rightarrow> serial_chain" where
  "chain_push m c = (case serial_port_queue_message m c of Inr c' \<Rightarrow> c' | Inl _ \<Rightarrow> c)"

definition chain_pop :: "serial_chain \<Rightarrow> (bytes \<times> serial_chain) option" where
  "chain_pop c =
     (case sp_writing c of
        None \<Rightarrow> None
      | Some w \<Rightarrow>
          (case serial_port_packet_send_done False
                  (c\<lparr>sp_writing := None, sp_written := sp_written c @ [w]\<rparr>) of
             Inl _ \<Rightarrow> None | Inr c' \<Rightarrow> Some (w, c')))"

interpretation spq: fifo chain_inv chain_push chain_pop sp_queue
proof unfold_locales
  fix c :: serial_chain and m
  assume inv: "chain_inv c"
  show "chain_inv (chain_push m c)" "sp_queue (chain_push m c) = sp_queue c @ [m]"
    using inv
    by (cases "sp_queue c"; simp add: chain_push_def serial_port_queue_message_def chain_inv_def
        serial_port_start_packet_send_def)+
next
  fix c :: serial_chain
  assume "chain_inv c" "sp_queue c = []"
  then show "chain_pop c = None" by (simp add: chain_inv_def chain_pop_def)
next
  fix c :: serial_chain and m ms
  assume inv: "chain_inv c" and q: "sp_queue c = m # ms"
  then show "\<exists>c'. chain_pop c = Some (m, c') \<and> chain_inv c' \<and> sp_queue c' = ms"
    by (cases ms) (simp_all add: chain_pop_def chain_inv_def serial_port_packet_send_done_def
        serial_port_start_packet_send_def)
qed

lemma serial_send_tcp_carries:
  assumes "12 \<le> length payload" "length payload \<le> 65507"
  shows "\<exists>c' pkt. serial_port_send_tcp ident iphdr source dest payload c = Inr (c', ident + 1) \<and>
         sp_posted c' = sp_posted c @ [pkt] \<and> sp_queue c' = sp_queue c \<and> hd pkt = 0x45 \<and>
         carries \<lparr>ec_saddr = ep_address source, ec_daddr = ep_address dest, ec_sport = ep_port source,
                  ec_dport = ep_port source\<rparr> payload pkt"
proof -
  obtain ih th where b:
    "ip_tcp_headers_default_set ident iphdr (htonl (ep_address source)) (htons (ep_port source))
       (htonl (ep_address dest)) (htons (ep_port source)) (payload @ [0]) (length payload) =
     Inr (ih, th, ident + 1)"
    and pkt: "let pkt = ip_hdr_bytes ih @ tcp_hdr_bytes th @ payload
     in ip_bytevector_validate pkt \<and> ip_bytevector_is_udp pkt = Inr False \<and>
        ip_bytevector_is_tcp pkt = Inr True \<and> ip_bytevector_data_start pkt = Inr 40 \<and>
        drop 40 pkt = payload \<and> length pkt = 40 + length payload \<and>
        ip_hdr_at pkt = Some (default_ip_hdr ident IPV4_PROTOCOL_TCP (htonl (ep_address source))
                                (htonl (ep_address dest)) (length payload + 8)) \<and>
        tcp_hdr_at (drop sizeof_ip_hdr pkt) = Some th \<and>
        th_source_port th = htons (ep_port source) \<and> th_destination_port th = htons (ep_port source)"
    by (rule ipb.build_packet [OF assms])
  define pk where "pk = ip_hdr_bytes ih @ tcp_hdr_bytes th @ payload"
  note f = pkt [unfolded Let_def, folded pk_def]
  have "ip_hdr_at (ip_hdr_bytes ih @ tcp_hdr_bytes th @ payload) = Some ih" by (rule ip_hdr_at_bytes)
  then have "ih = default_ip_hdr ident IPV4_PROTOCOL_TCP (htonl (ep_address source))
      (htonl (ep_address dest)) (length payload + 8)" using f by (simp add: pk_def)
  then have "hd pk = 0x45" by (simp add: pk_def ip_hdr_bytes_def default_ip_hdr_def)
  moreover have "carries \<lparr>ec_saddr = ep_address source, ec_daddr = ep_address dest,
      ec_sport = ep_port source, ec_dport = ep_port source\<rparr> payload pk"
    using f tcp_ports_at_hdr [of pk th]
    by (simp add: carries_def default_ip_hdr_def ntohl_def ntohs_def)
  moreover have "serial_port_send_tcp ident iphdr source dest payload c =
      Inr (c\<lparr>sp_posted := sp_posted c @ [pk]\<rparr>, ident + 1)"
    by (simp add: serial_port_send_tcp_def b pk_def)
  ultimately show ?thesis by auto
qed

text \<open>What the chain puts on the line for a TCP payload.  Payloads below 12 bytes overrun the header
  builder and those above 65507 are refused; any other becomes one packet that is classified as TCP and
  carries the payload and the source endpoint, but whose destination port is the source's port, and it
  is posted bare, beginning with the IP version byte: no SLIP framing is done.\<close>

theorem serial_send_tcp_packet:
  "(length payload < 12 \<longrightarrow>
      serial_port_send_tcp ident iphdr source dest payload c = Inl (Tcp_headers Ip_heap_overflow)) \<and>
   (65507 < length payload \<longrightarrow>
      serial_port_send_tcp ident iphdr source dest payload c = Inl (Tcp_headers Ip_oversize_payload)) \<and>
   (12 \<le> length payload \<and> length payload \<le> 65507 \<longrightarrow>
      (\<exists>c' pkt. serial_port_send_tcp ident iphdr source dest payload c = Inr (c', ident + 1) \<and>
         sp_posted c' = sp_posted c @ [pkt] \<and> sp_queue c' = sp_queue c \<and> hd pkt = 0x45 \<and>
         carries \<lparr>ec_saddr = ep_address source, ec_daddr = ep_address dest, ec_sport = ep_port source,
                  ec_dport = ep_port source\<rparr> payload pkt))"
proof (intro conjI impI)
  assume "length payload < 12"
  then show "serial_port_send_tcp ident iphdr source dest payload c = Inl (Tcp_headers Ip_heap_overflow)"
    by (simp add: serial_port_send_tcp_def ipb.build_short readable16_c_str)
next
  assume "65507 < length payload"
  then show "serial_port_send_tcp ident iphdr source dest payload c = Inl (Tcp_headers Ip_oversize_payload)"
    by (simp add: serial_port_send_tcp_def ipb.build_long readable16_c_str)
next
  assume "12 \<le> length payload \<and> length payload \<le> 65507"
  then show "\<exists>c' pkt. serial_port_send_tcp ident iphdr source dest payload c = Inr (c', ident + 1) \<and>
         sp_posted c' = sp_posted c @ [pkt] \<and> sp_queue c' = sp_queue c \<and> hd pkt = 0x45 \<and>
         carries \<lparr>ec_saddr = ep_address source, ec_daddr = ep_address dest, ec_sport = ep_port source,
                  ec_dport = ep_port source\<rparr> payload pkt"
    by (intro serial_send_tcp_carries) simp_all
qed

theorem serial_send_tcp_packet_witness:
  "\<exists>c' pkt. serial_port_send_tcp 0 (default_ip_hdr 0 0 0 0 0) \<lparr>ep_address = 1, ep_port = 80\<rparr>
      \<lparr>ep_address = 2, ep_port = 90\<rparr> (replicate 12 65)
      \<lparr>sp_posted = [], sp_queue = [], sp_writing = None, sp_written = []\<rparr> = Inr (c', 0 + 1) \<and>
    sp_posted c' = [pkt] \<and>
    carries \<lparr>ec_saddr = 1, ec_daddr = 2, ec_sport = 80, ec_dport = 80\<rparr> (replicate 12 65) pkt"
  using serial_send_tcp_packet [of "replicate 12 65" 0 "default_ip_hdr 0 0 0 0 0"
      "\<lparr>ep_address = 1, ep_port = 80\<rparr>" "\<lparr>ep_address = 2, ep_port = 90\<rparr>"
      "\<lparr>sp_posted = [], sp_queue = [], sp_writing = None, sp_written = []\<rparr>"] by auto

end
