(* ===== verification/Tcp_client_handler.thy ===== *)
theory Tcp_client_handler
  imports Serial_port
begin

text \<open>
  The client side of a forwarded TCP connection, \<^verbatim>\<open>udptoserial/Tcp_client_handler.cpp\<close>: it passes data from the
  serial line to a server, and what the server answers back to the serial line.  The function
  \<open>serial_port_send\<close> that it calls for this is declared there and defined nowhere, and is a parameter; its
  state is any type.  The socket contributes the bytes that arrive.  The name \<open>endpoint_dest_orig\<close> in the call
  is taken for the member \<open>endpoint_dest_orig_\<close>.
\<close>

section \<open>The handler\<close>

record tcp_client_handler =
  endpoint_source_orig :: endpoint
  endpoint_dest_orig :: endpoint
  client_in_packet :: bytes
  client_awaiting_read :: bool
  client_sent :: "bytes list"
  client_posted :: "bytes list"
  client_queue :: "bytes list"
  client_writing :: "bytes option"
  client_written :: "bytes list"

definition Tcp_client_handler :: "endpoint \<Rightarrow> endpoint \<Rightarrow> tcp_client_handler" where
  "Tcp_client_handler source dest =
     \<lparr>endpoint_source_orig = source, endpoint_dest_orig = dest, client_in_packet = [],
      client_awaiting_read = False, client_sent = [], client_posted = [], client_queue = [], client_writing = None,
      client_written = []\<rparr>"

definition endpoints_match :: "endpoint \<Rightarrow> endpoint \<Rightarrow> tcp_client_handler \<Rightarrow> bool" where
  "endpoints_match source dest h \<longleftrightarrow> endpoint_source_orig h = source \<and> endpoint_dest_orig h = dest"

definition send_to_remote :: "bytes \<Rightarrow> tcp_client_handler \<Rightarrow> tcp_client_handler" where
  "send_to_remote msg h = h\<lparr>client_sent := client_sent h @ [msg]\<rparr>"

definition read_from_server :: "tcp_client_handler \<Rightarrow> tcp_client_handler" where
  "read_from_server h = h\<lparr>client_awaiting_read := True\<rparr>"

text \<open>The type of the function that is not defined: it may fail and changes some state.\<close>

type_synonym ('e, 's) serial_sender = "endpoint \<Rightarrow> endpoint \<Rightarrow> bytes \<Rightarrow> 's \<Rightarrow> 'e + 's"

definition read_from_server_done ::
    "('e, 's) serial_sender \<Rightarrow> bool \<Rightarrow> tcp_client_handler \<Rightarrow> 's \<Rightarrow> 'e + tcp_client_handler \<times> 's" where
  "read_from_server_done send error h s =
     (if error then Inr (h, s)
      else
        (let (packet_string, rest) = extract_string (client_in_packet h);
             h = h\<lparr>client_in_packet := rest\<rparr>
         in case send (endpoint_source_orig h) (endpoint_dest_orig h) packet_string s of
              Inl e \<Rightarrow> Inl e
            | Inr s \<Rightarrow> Inr (read_from_server h, s)))"

section \<open>What the server says\<close>

text \<open>Reads that complete one after the other, each with the bytes it brings; the outstanding read is taken
  away when it completes.\<close>

fun client_reads ::
    "('e, 's) serial_sender \<Rightarrow> bytes list \<Rightarrow> tcp_client_handler \<Rightarrow> 's \<Rightarrow> 'e + tcp_client_handler \<times> 's" where
  "client_reads send [] h s = Inr (h, s)"
| "client_reads send (d # ds) h s =
     (case read_from_server_done send False
             (h\<lparr>client_in_packet := client_in_packet h @ d, client_awaiting_read := False\<rparr>) s of
        Inl e \<Rightarrow> Inl e
      | Inr (h, s) \<Rightarrow> client_reads send ds h s)"

fun send_all :: "('e, 's) serial_sender \<Rightarrow> endpoint \<Rightarrow> endpoint \<Rightarrow> bytes list \<Rightarrow> 's \<Rightarrow> 'e + 's" where
  "send_all send source dest [] s = Inr s"
| "send_all send source dest (d # ds) s =
     (case send source dest d s of Inl e \<Rightarrow> Inl e | Inr s \<Rightarrow> send_all send source dest ds s)"

lemma extract_plain: "list_all (\<lambda>c. \<not> isspace c) d \<Longrightarrow> extract_string d = (d, [])"
  by (cases d) (auto simp: extract_string_def Let_def list_all_iff)

text \<open>Answers are passed on.  When no read brings white space, each read is passed on whole, in order,
  with the endpoints of the connection, and a further read is started; the handler fails only when the
  sending function does.  The endpoints are those of the request, source first, for the answer too.\<close>

theorem client_passes_answers:
  assumes "client_in_packet h = []" "client_awaiting_read h" "list_all (list_all (\<lambda>c. \<not> isspace c)) ds"
  shows "client_reads send ds h s =
    (case send_all send (endpoint_source_orig h) (endpoint_dest_orig h) ds s of
       Inl e \<Rightarrow> Inl e
     | Inr s' \<Rightarrow> Inr (h, s'))"
  using assms
proof (induction ds arbitrary: s)
  case (Cons d ds)
  have "h\<lparr>client_in_packet := [], client_awaiting_read := True\<rparr> = h" using Cons.prems(1,2) by (cases h) simp
  then have "read_from_server_done send False (h\<lparr>client_in_packet := client_in_packet h @ d, client_awaiting_read := False\<rparr>) s =
      (case send (endpoint_source_orig h) (endpoint_dest_orig h) d s of Inl e \<Rightarrow> Inl e | Inr s \<Rightarrow> Inr (h, s))"
    using Cons.prems
    by (simp add: read_from_server_done_def extract_plain read_from_server_def split: sum.split)
  then show ?case using Cons.IH [OF Cons.prems(1,2)] Cons.prems(3) by (simp split: sum.split)
qed simp

text \<open>A sender that records what it is given.\<close>

definition record_send :: "(unit, (endpoint \<times> endpoint \<times> bytes) list) serial_sender" where
  "record_send source dest d log = Inr (log @ [(source, dest, d)])"

theorem client_passes_answers_witness:
  "\<exists>h. client_reads record_send [[0x41], [0x42, 0x43]] h [] =
     Inr (h, [(endpoint_source_orig h, endpoint_dest_orig h, [0x41]),
              (endpoint_source_orig h, endpoint_dest_orig h, [0x42, 0x43])])"
proof -
  let ?h = "read_from_server (Tcp_client_handler \<lparr>ep_address = 1, ep_port = 2\<rparr> \<lparr>ep_address = 3, ep_port = 4\<rparr>)"
  show ?thesis
    using client_passes_answers [of ?h "[[0x41], [0x42, 0x43]]" record_send "[]"]
    by (intro exI [of _ ?h]) (simp add: read_from_server_def Tcp_client_handler_def isspace_def record_send_def)
qed

text \<open>With the sending function of the serial port in its place, an answer of at least 12 bytes is posted to the
  line as one TCP packet.\<close>

lemma client_answer_packet:
  assumes "client_in_packet h = []" "client_awaiting_read h" "list_all (\<lambda>c. \<not> isspace c) d"
    "12 \<le> length d" "length d \<le> 65507"
  shows "\<exists>c' pkt. client_reads (\<lambda>src dst p (c, ident). serial_port_send_tcp ident iphdr src dst p c) [d] h (c, ident) =
      Inr (h, c', ident + 1) \<and> sp_posted c' = sp_posted c @ [pkt] \<and>
    carries \<lparr>ec_saddr = ep_address (endpoint_source_orig h), ec_daddr = ep_address (endpoint_dest_orig h),
      ec_sport = ep_port (endpoint_source_orig h), ec_dport = ep_port (endpoint_source_orig h)\<rparr> d pkt"
proof -
  have "h\<lparr>client_in_packet := [], client_awaiting_read := True\<rparr> = h" using assms(1,2) by (cases h) simp
  then show ?thesis
    using serial_send_tcp_packet [of d ident iphdr "endpoint_source_orig h" "endpoint_dest_orig h" c] assms
    by (auto simp: read_from_server_done_def extract_plain read_from_server_def)
qed

section \<open>The earlier way to the serial line\<close>

text \<open>
  Under \<open>#if 0\<close> the file keeps the way in which an answer was sent to the serial line before there was
  \<open>serial_port_send\<close>: the rest of the read handler, from the received string on, and a sending chain.  It is copied
  from the server handler and is modelled as it stands.  The class has no \<open>remote_addr_BE_\<close>; what the name
  would stand for is the parameter \<open>raddr_BE\<close>.
\<close>

definition client_send :: "bytes \<Rightarrow> tcp_client_handler \<Rightarrow> tcp_client_handler" where
  "client_send msg h = h\<lparr>client_posted := client_posted h @ [msg]\<rparr>"

definition client_start_packet_send :: "tcp_client_handler \<Rightarrow> tcp_error + tcp_client_handler" where
  "client_start_packet_send h =
     (case client_queue h of
        [] \<Rightarrow> Inl Tcp_undefined
      | m # ms \<Rightarrow>
          (let m' = m @ []
           in Inr (h\<lparr>client_queue := m' # ms, client_writing := Some m'\<rparr>)))"

definition client_packet_send_done :: "bool \<Rightarrow> tcp_client_handler \<Rightarrow> tcp_error + tcp_client_handler" where
  "client_packet_send_done error h =
     (if \<not> error then
        (case client_queue h of
           [] \<Rightarrow> Inl Tcp_undefined
         | _ # ms \<Rightarrow>
             (let h = h\<lparr>client_queue := ms\<rparr>
              in if client_queue h \<noteq> [] then client_start_packet_send h else Inr h))
      else Inr h)"

definition client_queue_message :: "bytes \<Rightarrow> tcp_client_handler \<Rightarrow> tcp_error + tcp_client_handler" where
  "client_queue_message message h =
     (let write_in_progress = (client_queue h \<noteq> []);
          h = h\<lparr>client_queue := client_queue h @ [message]\<rparr>
      in if \<not> write_in_progress then client_start_packet_send h else Inr h)"

definition client_forward ::
    "u16 \<Rightarrow> ip4_hdr \<Rightarrow> u32 \<Rightarrow> u16 \<Rightarrow> u16 \<Rightarrow> u32 \<Rightarrow> bytes \<Rightarrow> tcp_client_handler \<Rightarrow> tcp_error + tcp_client_handler \<times> u16" where
  "client_forward ident iphdr raddr rport lport raddr_BE packet_string h =
     (case ip4_tcp_headers_default_set ident iphdr (htonl raddr) (htons rport) (htonl raddr_BE) (htons lport)
             (packet_string @ [0]) (length packet_string) of
        Inl e \<Rightarrow> Inl (Tcp_headers e)
      | Inr (iphdr, tcphdr, ident') \<Rightarrow>
          (let binary_str = ip4_hdr_bytes iphdr @ tcp_hdr_bytes tcphdr @ packet_string;
               (dest, _) = slip_encode [] binary_str True
           in Inr (read_from_server (client_send dest h), ident')))"

text \<open>The sending part of a client handler, seen as a server handler with the same endpoints.\<close>

definition as_server :: "u32 \<Rightarrow> u16 \<Rightarrow> u16 \<Rightarrow> u32 \<Rightarrow> tcp_client_handler \<Rightarrow> tcp_server_handler" where
  "as_server raddr rport lport raddr_BE h =
     \<lparr>remote_address = raddr, remote_port = rport, local_port = lport, remote_addr_BE = raddr_BE,
      awaiting_read = client_awaiting_read h, in_packet = client_in_packet h, posted = client_posted h,
      send_packet_queue = client_queue h, writing = client_writing h, written = client_written h\<rparr>"

lemma client_start_copy:
  "map_sum id (as_server ra rp lp be) (client_start_packet_send h) = start_packet_send (as_server ra rp lp be h)"
  by (simp add: client_start_packet_send_def start_packet_send_def as_server_def Let_def split: list.split)

lemma client_queue_copy:
  "map_sum id (as_server ra rp lp be) (client_queue_message m h) = queue_message m (as_server ra rp lp be h)"
  using client_start_copy [of ra rp lp be "h\<lparr>client_queue := client_queue h @ [m]\<rparr>"]
  by (cases "client_queue h") (simp_all add: client_queue_message_def queue_message_def as_server_def Let_def)

lemma client_done_copy:
  "map_sum id (as_server ra rp lp be) (client_packet_send_done e h) = packet_send_done e (as_server ra rp lp be h)"
  using client_start_copy [of ra rp lp be "h\<lparr>client_queue := tl (client_queue h)\<rparr>"]
  by (cases "client_queue h") (simp_all add: client_packet_send_done_def packet_send_done_def as_server_def Let_def)

lemma client_forward_copy:
  assumes "extract_string (client_in_packet h) = (x, rest)"
  shows "map_sum id (apfst (as_server ra rp lp be))
      (client_forward ident iphdr ra rp lp be x (h\<lparr>client_in_packet := rest\<rparr>)) =
    read_packet_done ident iphdr False (as_server ra rp lp be h)"
  using assms
  by (simp add: client_forward_def read_packet_done_def as_server_def read_from_server_def client_send_def read_packet_def
      tcp_send_def case_prod_beta Let_def split: sum.split)

text \<open>Its queue therefore is the queue of the server handler.\<close>

definition client_push :: "bytes \<Rightarrow> tcp_client_handler \<Rightarrow> tcp_client_handler" where
  "client_push m h = (case client_queue_message m h of Inr h' \<Rightarrow> h' | Inl _ \<Rightarrow> h)"

definition client_pop :: "tcp_client_handler \<Rightarrow> (bytes \<times> tcp_client_handler) option" where
  "client_pop h =
     (case client_writing h of
        None \<Rightarrow> None
      | Some w \<Rightarrow>
          (case client_packet_send_done False (h\<lparr>client_writing := None, client_written := client_written h @ [w]\<rparr>) of
             Inl _ \<Rightarrow> None
           | Inr h' \<Rightarrow> Some (w, h')))"

interpretation clientq: fifo "\<lambda>h. tcp_inv (as_server ra rp lp be h)" client_push client_pop "\<lambda>h. send_packet_queue (as_server ra rp lp be h)"
proof (rule fifo_pullback [OF tcpq.fifo_axioms])
  fix m h
  show "as_server ra rp lp be (client_push m h) = tcp_push m (as_server ra rp lp be h)"
    using client_queue_copy [of ra rp lp be m h] by (cases "client_queue_message m h") (simp_all add: client_push_def tcp_push_def flip: client_queue_copy)
next
  fix h
  show "map_option (apsnd (as_server ra rp lp be)) (client_pop h) = tcp_pop (as_server ra rp lp be h)"
  proof (cases "client_writing h")
    case None
    then show ?thesis by (simp add: client_pop_def tcp_pop_def as_server_def)
  next
    case (Some w)
    let ?h = "h\<lparr>client_writing := None, client_written := client_written h @ [w]\<rparr>"
    have "write_completes (as_server ra rp lp be h) w = map_sum id (as_server ra rp lp be) (client_packet_send_done False ?h)"
      unfolding client_done_copy by (simp add: write_completes_def as_server_def)
    then show ?thesis
      using Some by (cases "client_packet_send_done False ?h") (simp_all add: client_pop_def tcp_pop_def as_server_def)
  qed
qed

text \<open>The earlier way of the client handler is that of the server handler.  Reading, queueing and the completion of a
  write, with its failures, do to the one what they do to the other; so the packets queued by a client handler
  come out once each and in order, behind those that were there.\<close>

theorem client_chain_is_servers:
  "(extract_string (client_in_packet h) = (x, rest) \<longrightarrow>
      map_sum id (apfst (as_server ra rp lp be)) (client_forward ident iphdr ra rp lp be x (h\<lparr>client_in_packet := rest\<rparr>)) =
      read_packet_done ident iphdr False (as_server ra rp lp be h)) \<and>
   map_sum id (as_server ra rp lp be) (client_queue_message m h) = queue_message m (as_server ra rp lp be h) \<and>
   map_sum id (as_server ra rp lp be) (client_packet_send_done e h) = packet_send_done e (as_server ra rp lp be h) \<and>
   (tcp_inv (as_server ra rp lp be h) \<longrightarrow>
      fst (pops client_pop (length (client_queue h) + length ms) (fold client_push ms h)) = client_queue h @ ms)"
  using client_forward_copy [of h x rest ra rp lp be ident iphdr] client_queue_copy client_done_copy
    clientq.pops_pushes(1) [of ra rp lp be h ms]
  by (simp add: as_server_def)

end
