(* ===== verification/Generic_server.thy ===== *)
theory Generic_server
  imports Prelude
begin

text \<open>
  The server class that preceded the set-up in \<^verbatim>\<open>main.cpp\<close>, \<^verbatim>\<open>udptoserial/Server.cpp\<close>, as compiled: its calls of
  \<open>async_accept\<close> are under \<open>#if 0\<close>; and its earlier version, which stands under \<open>#if 0\<close> and starts an accept.  The network and the serial device are parameters: \<open>bind_ok\<close> says whether
  a port can be bound, \<open>open_ok\<close> whether a device can be opened; a failure throws an exception, and the
  object stays as it was when it was thrown.
\<close>

section \<open>The server\<close>

text \<open>An acceptor is listening or was left unbound; operations in progress are counted.\<close>

record generic_server =
  gs_acceptors :: "u16 \<rightharpoonup> bool"
  gs_handlers :: nat
  gs_accepts :: nat
  gs_serial :: "(string \<times> nat) option"
  gs_reads :: nat

definition asio_generic_server :: generic_server where
  "asio_generic_server = \<lparr>gs_acceptors = Map.empty, gs_handlers = 0, gs_accepts = 0, gs_serial = None, gs_reads = 0\<rparr>"

text \<open>The second component says whether an exception was thrown.\<close>

definition add_tcp_server_port :: "(u16 \<Rightarrow> bool) \<Rightarrow> u16 \<Rightarrow> generic_server \<Rightarrow> generic_server \<times> bool" where
  "add_tcp_server_port bind_ok port s =
     (case gs_acceptors s port of
        Some _ \<Rightarrow> (s, False)
      | None \<Rightarrow>
          (let s = s\<lparr>gs_acceptors := (gs_acceptors s)(port \<mapsto> False)\<rparr>
           in if \<not> bind_ok port then (s, True)
              else
                (s\<lparr>gs_acceptors := (gs_acceptors s)(port \<mapsto> True), gs_handlers := gs_handlers s + 1\<rparr>, False)))"

text \<open>The received bytes are dropped; the next read is started after an error too.\<close>

definition gs_serial_read_handler :: "bool \<Rightarrow> nat \<Rightarrow> generic_server \<Rightarrow> generic_server" where
  "gs_serial_read_handler error bytes_transferred s = s\<lparr>gs_reads := gs_reads s + 1\<rparr>"

text \<open>Opening a port that is open throws.\<close>

definition add_serial_port :: "(string \<Rightarrow> bool) \<Rightarrow> string \<Rightarrow> generic_server \<Rightarrow> generic_server \<times> bool" where
  "add_serial_port open_ok port s =
     (if gs_serial s \<noteq> None \<or> \<not> open_ok port then (s, True)
      else (s\<lparr>gs_serial := Some (port, 115200), gs_reads := gs_reads s + 1\<rparr>, False))"

definition handle_new_tcp_server_connection :: "bool \<Rightarrow> generic_server \<Rightarrow> generic_server" where
  "handle_new_tcp_server_connection error s = (if error then s else s)"

section \<open>Its life\<close>

text \<open>What can happen: calls of the two functions, the completion of a read and of an accept.\<close>

inductive gs_step :: "generic_server \<Rightarrow> generic_server \<Rightarrow> bool" where
  Add_port: "gs_step s (fst (add_tcp_server_port bind_ok port s))"
| Add_serial: "gs_step s (fst (add_serial_port open_ok name s))"
| Read: "0 < gs_reads s \<Longrightarrow> gs_step s (gs_serial_read_handler error n (s\<lparr>gs_reads := gs_reads s - 1\<rparr>))"
| Accept: "0 < gs_accepts s \<Longrightarrow>
    gs_step s (handle_new_tcp_server_connection error (s\<lparr>gs_accepts := gs_accepts s - 1\<rparr>))"

definition listening :: "generic_server \<Rightarrow> u16 set" where
  "listening s = {p. gs_acceptors s p = Some True}"

definition gs_inv :: "generic_server \<Rightarrow> bool" where
  "gs_inv s \<longleftrightarrow> gs_accepts s = 0 \<and> gs_reads s = (if gs_serial s = None then 0 else 1) \<and> gs_handlers s = card (listening s)"

lemma listening_upd:
  assumes "gs_acceptors s' = (gs_acceptors s)(p \<mapsto> b)" "gs_acceptors s p = None"
  shows "listening s' = (if b then insert p (listening s) else listening s)"
  using assms by (auto simp: listening_def)

lemma add_port_inv:
  assumes "gs_inv s"
  shows "gs_inv (fst (add_tcp_server_port bind_ok port s))"
proof (cases "gs_acceptors s port")
  case None
  note upd = listening_upd [OF _ None]
  have "port \<notin> listening s" using None by (simp add: listening_def)
  then show ?thesis
    using assms upd [of "s\<lparr>gs_acceptors := (gs_acceptors s)(port \<mapsto> False)\<rparr>" False]
      upd [of "s\<lparr>gs_acceptors := (gs_acceptors s)(port \<mapsto> True), gs_handlers := gs_handlers s + 1\<rparr>" True]
    by (simp add: gs_inv_def add_tcp_server_port_def None Let_def)
qed (use assms in \<open>simp add: add_tcp_server_port_def\<close>)

lemma gs_step_inv: "gs_step s s' \<Longrightarrow> gs_inv s \<Longrightarrow> gs_inv s'"
proof (induction rule: gs_step.induct)
  case (Add_port s bind_ok port)
  then show ?case by (intro add_port_inv)
next
  case (Add_serial s open_ok name)
  then show ?case by (simp add: gs_inv_def add_serial_port_def listening_def)
next
  case (Read s error n)
  then show ?case by (auto simp: gs_inv_def gs_serial_read_handler_def listening_def split: if_splits)
next
  case (Accept s error)
  then show ?case by (simp add: gs_inv_def)
qed

text \<open>The generic server never accepts a connection.  Whatever is called and whatever completes, no
  accept is ever started, so that the ports listen and no connection is handled; there is one handler for
  each listening port, and once the serial port is open exactly one read is always in progress.\<close>

theorem generic_server_never_accepts:
  assumes "gs_step\<^sup>*\<^sup>* asio_generic_server s"
  shows "gs_accepts s = 0 \<and> gs_handlers s = card (listening s) \<and>
    gs_reads s = (if gs_serial s = None then 0 else 1)"
proof -
  have "gs_inv s"
    using assms
  proof (induction rule: rtranclp_induct)
    case base
    then show ?case by (simp add: gs_inv_def asio_generic_server_def listening_def)
  qed (rule gs_step_inv)
  then show ?thesis by (simp add: gs_inv_def)
qed

theorem generic_server_never_accepts_witness:
  "\<exists>s. gs_step\<^sup>*\<^sup>* asio_generic_server s \<and> gs_acceptors s 8888 = Some True \<and> gs_accepts s = 0"
proof -
  let ?s = "fst (add_tcp_server_port (\<lambda>_. True) 8888 asio_generic_server)"
  have "gs_step\<^sup>*\<^sup>* asio_generic_server ?s" by (rule r_into_rtranclp) (rule gs_step.Add_port)
  moreover from generic_server_never_accepts [OF this] have "gs_accepts ?s = 0" by blast
  ultimately show ?thesis
    by (intro exI [of _ ?s]) (simp add: add_tcp_server_port_def asio_generic_server_def Let_def)
qed

text \<open>A port that could not be bound stays in the map, and adding it again does nothing.\<close>

lemma failed_port_stays:
  assumes "gs_acceptors s port = None" "\<not> bind_ok port"
  shows "add_tcp_server_port bind_ok port s = (s\<lparr>gs_acceptors := (gs_acceptors s)(port \<mapsto> False)\<rparr>, True)"
    "add_tcp_server_port bind_ok' port (s\<lparr>gs_acceptors := (gs_acceptors s)(port \<mapsto> False)\<rparr>) =
      (s\<lparr>gs_acceptors := (gs_acceptors s)(port \<mapsto> False)\<rparr>, False)"
  using assms by (simp_all add: add_tcp_server_port_def)

section \<open>The earlier version\<close>

text \<open>It keeps its handler in the completion handler of the accept that it starts, not in the list.\<close>

definition add_tcp_server_port_1 :: "(u16 \<Rightarrow> bool) \<Rightarrow> u16 \<Rightarrow> generic_server \<Rightarrow> generic_server \<times> bool" where
  "add_tcp_server_port_1 bind_ok port s =
     (case gs_acceptors s port of
        Some _ \<Rightarrow> (s, False)
      | None \<Rightarrow>
          (let s = s\<lparr>gs_acceptors := (gs_acceptors s)(port \<mapsto> False)\<rparr>
           in if \<not> bind_ok port then (s, True)
              else (s\<lparr>gs_acceptors := (gs_acceptors s)(port \<mapsto> True), gs_accepts := gs_accepts s + 1\<rparr>, False)))"

text \<open>\<open>gs_run s n\<close>: a server of the earlier version can reach \<open>s\<close> and \<open>n\<close> of its accepts have completed.\<close>

inductive gs_run :: "generic_server \<Rightarrow> nat \<Rightarrow> bool" where
  Start: "gs_run asio_generic_server 0"
| Port: "gs_run s n \<Longrightarrow> gs_run (fst (add_tcp_server_port_1 bind_ok port s)) n"
| Serial: "gs_run s n \<Longrightarrow> gs_run (fst (add_serial_port open_ok name s)) n"
| Read: "gs_run s n \<Longrightarrow> 0 < gs_reads s \<Longrightarrow>
    gs_run (gs_serial_read_handler error m (s\<lparr>gs_reads := gs_reads s - 1\<rparr>)) n"
| Accepted: "gs_run s n \<Longrightarrow> 0 < gs_accepts s \<Longrightarrow>
    gs_run (handle_new_tcp_server_connection error (s\<lparr>gs_accepts := gs_accepts s - 1\<rparr>)) (n + 1)"

lemma add_port_1_count:
  "gs_accepts (fst (add_tcp_server_port_1 bind_ok port s)) + card (listening s) =
   gs_accepts s + card (listening (fst (add_tcp_server_port_1 bind_ok port s)))"
proof (cases "gs_acceptors s port")
  case None
  note upd = listening_upd [OF _ None]
  have "port \<notin> listening s" using None by (simp add: listening_def)
  then show ?thesis
    using upd [of "s\<lparr>gs_acceptors := (gs_acceptors s)(port \<mapsto> False)\<rparr>" False]
      upd [of "s\<lparr>gs_acceptors := (gs_acceptors s)(port \<mapsto> True), gs_accepts := gs_accepts s + 1\<rparr>" True]
    by (simp add: add_tcp_server_port_1_def None Let_def)
qed (simp add: add_tcp_server_port_1_def)

text \<open>The earlier version takes one connection on each port.  The handler of a completed accept does not start
  another one, so that the accepts that have completed and those outstanding are together as many as the
  listening ports, whatever happens: once every port has had its connection, no further one is taken.\<close>

theorem earlier_server_one_each:
  assumes "gs_run s n"
  shows "n + gs_accepts s = card (listening s)"
  using assms
proof (induction rule: gs_run.induct)
  case Start
  show ?case by (simp add: asio_generic_server_def listening_def)
next
  case (Port s n bind_ok port)
  then show ?case using add_port_1_count [of bind_ok port s] by simp
next
  case (Serial s n open_ok name)
  then show ?case by (simp add: add_serial_port_def listening_def)
next
  case (Read s n error m)
  then show ?case by (simp add: gs_serial_read_handler_def listening_def)
next
  case (Accepted s n error)
  then show ?case by (simp add: handle_new_tcp_server_connection_def listening_def)
qed

theorem earlier_server_one_each_witness:
  "\<exists>s. gs_run s 1 \<and> gs_accepts s = 0 \<and> card (listening s) = 1"
proof -
  let ?s = "fst (add_tcp_server_port_1 (\<lambda>_. True) 8888 asio_generic_server)"
  have acc: "gs_accepts ?s = 1" by (simp add: add_tcp_server_port_1_def asio_generic_server_def Let_def)
  let ?t = "handle_new_tcp_server_connection False (?s\<lparr>gs_accepts := gs_accepts ?s - 1\<rparr>)"
  have run: "gs_run ?t (0 + 1)" using acc by (intro gs_run.Accepted gs_run.Port gs_run.Start) simp
  have "gs_accepts ?t = 0" using acc by (simp add: handle_new_tcp_server_connection_def)
  with run earlier_server_one_each [OF run] show ?thesis by (intro exI [of _ ?t]) simp
qed

section \<open>The program that used the server\<close>

text \<open>Disabled in \<open>main\<close>: two ports and the serial device, then the run of the service.  An exception ends it.\<close>

definition server_main :: "(u16 \<Rightarrow> bool) \<Rightarrow> (string \<Rightarrow> bool) \<Rightarrow> generic_server \<times> bool" where
  "server_main bind_ok open_ok =
     (let (s, thrown) = add_tcp_server_port bind_ok 8888 asio_generic_server
      in if thrown then (s, True)
         else let (s, thrown) = add_tcp_server_port bind_ok 8889 s
              in if thrown then (s, True) else add_serial_port open_ok ''/dev/ttyUSB0'' s)"

text \<open>When nothing fails, the program listens on two ports without ever accepting, and reads the serial line at 115200.\<close>

lemma server_main_result:
  assumes "bind_ok 8888" "bind_ok 8889" "open_ok ''/dev/ttyUSB0''"
  shows "\<exists>s. server_main bind_ok open_ok = (s, False) \<and> listening s = {8888, 8889} \<and> gs_accepts s = 0 \<and>
    gs_serial s = Some (''/dev/ttyUSB0'', 115200) \<and> gs_reads s = 1"
  using assms
  by (auto simp: server_main_def add_tcp_server_port_def add_serial_port_def asio_generic_server_def listening_def Let_def
      split: if_splits)

end
