(* ===== verification/Bridge_stream.thy ===== *)
theory Bridge_stream
  imports Serial_bridge
begin

text \<open>
  The serial line as a stream.  The frames of several connections follow each other on the line, and the
  reads of \<^verbatim>\<open>main.cpp\<close> cut the stream anywhere, inside a frame too.
\<close>

section \<open>Packets and what is forwarded of them\<close>

text \<open>A packet with its connection and its data.\<close>

type_synonym packet = "ephemeral_connection \<times> bytes \<times> bytes"

definition packet_ok :: "packet \<Rightarrow> bool" where
  "packet_ok = (\<lambda>(k, x, pkt). carries k x pkt)"

definition on_line :: "packet list \<Rightarrow> bytes" where
  "on_line ps = concat (map (\<lambda>(k, x, pkt). frame_of pkt) ps)"

lemma on_line_simps [simp]: "on_line [] = []" "on_line ((k, x, pkt) # ps) = frame_of pkt @ on_line ps"
  by (simp_all add: on_line_def)

definition forward ::
    "(u32 \<Rightarrow> u16 \<Rightarrow> bool) \<Rightarrow> packet \<Rightarrow> (ephemeral_connection \<rightharpoonup> bytes list) \<Rightarrow> (ephemeral_connection \<rightharpoonup> bytes list)" where
  "forward connect = (\<lambda>(k, x, pkt) m.
     case m k of
       Some sent \<Rightarrow> m(k \<mapsto> sent @ [x])
     | None \<Rightarrow> if connect (ec_daddr k) (ec_dport k) then m(k \<mapsto> [x]) else m)"

definition sent_on :: "(ephemeral_connection \<rightharpoonup> bytes list) \<Rightarrow> ephemeral_connection \<Rightarrow> bytes list" where
  "sent_on m k = (case m k of None \<Rightarrow> [] | Some sent \<Rightarrow> sent)"

definition data_for :: "ephemeral_connection \<Rightarrow> packet list \<Rightarrow> bytes list" where
  "data_for k ps = map (\<lambda>(k', x, pkt). x) (filter (\<lambda>(k', x, pkt). k' = k) ps)"

lemma data_for_simps [simp]:
  "data_for k [] = []" "data_for k ((k', x, pkt) # ps) = (if k' = k then x # data_for k ps else data_for k ps)"
  by (simp_all add: data_for_def)

lemma sent_on_forward:
  "sent_on (forward connect (k', x, pkt) m) k =
     (if k' = k \<and> (connect (ec_daddr k) (ec_dport k) \<or> m k \<noteq> None) then sent_on m k @ [x] else sent_on m k)"
  "forward connect (k', x, pkt) m k = None \<longleftrightarrow> m k = None \<and> \<not> (k' = k \<and> connect (ec_daddr k) (ec_dport k))"
  by (auto simp: forward_def sent_on_def split: option.splits)

lemma fold_forward:
  "sent_on (fold (forward connect) ps m) k =
     (if connect (ec_daddr k) (ec_dport k) \<or> m k \<noteq> None then sent_on m k @ data_for k ps else [])"
proof (induction ps arbitrary: m)
  case Nil
  then show ?case by (simp add: sent_on_def split: option.split)
next
  case (Cons p ps)
  obtain k' x pkt where p: "p = (k', x, pkt)" by (cases p)
  show ?case
    using Cons.IH [of "forward connect p m"] by (auto simp: p sent_on_forward)
qed

section \<open>One read\<close>

text \<open>The END of the last frame may have been left in front.\<close>

definition ahead :: "bool \<Rightarrow> packet list \<Rightarrow> bytes" where
  "ahead left ps = (if left then [SLIP_END] else []) @ on_line ps"

lemma read_nothing:
  assumes "slip_decode [] (serial_read_buffer_unprocessed g @ d) False = ([], Inr 0)"
  shows "serial_read_handler net d g =
    Inr (g\<lparr>serial_read_buffer_unprocessed := serial_read_buffer_unprocessed g @ d, serial_reading := True\<rparr>)"
  using assms by (simp add: serial_read_handler_def)

lemma read_left_end:
  assumes "serial_read_buffer_unprocessed g @ d @ later = ahead True ps" "list_all packet_ok ps"
  shows "\<exists>g' left. serial_read_handler net d g = Inr g' \<and> serial_read_buffer_unprocessed g' @ later = ahead left ps \<and>
    tcp_ephemeral_socket_map g' = tcp_ephemeral_socket_map g"
proof -
  let ?b = "serial_read_buffer_unprocessed g @ d"
  have b: "?b @ later = SLIP_END # on_line ps" using assms(1) by (simp add: ahead_def)
  consider "?b = []" | "?b = [SLIP_END]" | c t where "?b = SLIP_END # c # t" using b by (cases ?b; cases "tl ?b") auto
  then show ?thesis
  proof cases
    case 1
    then have "serial_read_handler net d g = Inr (g\<lparr>serial_read_buffer_unprocessed := ?b, serial_reading := True\<rparr>)"
      by (intro read_nothing) (simp add: decode_no_end(1))
    then show ?thesis using assms(1) by (intro exI [of _ "g\<lparr>serial_read_buffer_unprocessed := ?b, serial_reading := True\<rparr>"] exI [of _ True]) simp
  next
    case 2
    then have "serial_read_handler net d g = Inr (g\<lparr>serial_read_buffer_unprocessed := ?b, serial_reading := True\<rparr>)"
      by (intro read_nothing) (simp add: decode_no_end(2))
    then show ?thesis using assms(1) by (intro exI [of _ "g\<lparr>serial_read_buffer_unprocessed := ?b, serial_reading := True\<rparr>"] exI [of _ True]) simp
  next
    case (3 c t)
    then have line: "c # t @ later = on_line ps" using b by (metis append_Cons list.inject)
    then obtain k x pkt ps' where "ps = (k, x, pkt) # ps'" by (cases ps) auto
    moreover from this have "pkt \<noteq> []" using assms(2) by (auto simp: packet_ok_def carries_def)
    ultimately have "c = SLIP_END" using line by (simp add: frame_of_eq)
    then have "slip_decode [] ?b False = ([], Inr 1)" using 3 decode_two_ends by simp
    then have "serial_read_handler net d g =
        Inr (g\<lparr>serial_read_buffer_unprocessed := drop 1 ?b, serial_reading := True\<rparr>)"
      by (simp add: serial_read_handler_def dispatch_Nil)
    then show ?thesis
      using 3 line by (intro exI [of _ "g\<lparr>serial_read_buffer_unprocessed := drop 1 ?b, serial_reading := True\<rparr>"] exI [of _ False])
        (simp add: ahead_def)
  qed
qed

lemma take_Cons_cases: "b = take n (c # xs) \<Longrightarrow> b = [] \<or> (\<exists>j. b = c # take j xs)"
  by (cases n) auto

lemma append_longer: "b @ y = f @ z \<Longrightarrow> length f \<le> length b \<Longrightarrow> \<exists>r. b = f @ r \<and> r @ y = z"
  by (auto simp: append_eq_append_conv2)

lemma read_at_frame:
  assumes "serial_read_buffer_unprocessed g @ d @ later = ahead False ps" "list_all packet_ok ps" "sends_all net"
  shows "(\<exists>g'. serial_read_handler net d g = Inr g' \<and> serial_read_buffer_unprocessed g' @ later = ahead False ps \<and>
      tcp_ephemeral_socket_map g' = tcp_ephemeral_socket_map g) \<or>
    (\<exists>p ps' g'. ps = p # ps' \<and> serial_read_handler net d g = Inr g' \<and>
      serial_read_buffer_unprocessed g' @ later = ahead True ps' \<and>
      tcp_ephemeral_socket_map g' = forward (net_connect net) p (tcp_ephemeral_socket_map g))"
proof -
  let ?b = "serial_read_buffer_unprocessed g @ d"
  have b: "?b @ later = on_line ps" using assms(1) by (simp add: ahead_def)
  have waits: ?thesis if "slip_decode [] ?b False = ([], Inr 0)"
    using read_nothing [OF that, of net] assms(1)
    by (intro disjI1 exI [of _ "g\<lparr>serial_read_buffer_unprocessed := ?b, serial_reading := True\<rparr>"]) simp
  show ?thesis
  proof (cases ps)
    case Nil
    with b have "?b = []" by simp
    then show ?thesis using waits by (simp add: decode_no_end(1))
  next
    case (Cons p ps')
    obtain k x pkt where p: "p = (k, x, pkt)" by (cases p)
    have c: "carries k x pkt" using assms(2) Cons p by (simp add: packet_ok_def)
    then have pkt: "pkt \<noteq> []" by (auto simp: carries_def)
    have line: "?b @ later = frame_of pkt @ on_line ps'" using b Cons p by simp
    show ?thesis
    proof (cases "length ?b < length (frame_of pkt)")
      case True
      then have "length ?b \<le> length (SLIP_END # stuff pkt)" using frame_of_eq [OF pkt] by simp
      moreover have "?b @ later = (SLIP_END # stuff pkt) @ SLIP_END # on_line ps'"
        using line frame_of_eq [OF pkt] by simp
      ultimately have "?b = take (length ?b) (SLIP_END # stuff pkt)"
        unfolding append_eq_append_conv_if by simp
      then have "?b = [] \<or> (\<exists>j. ?b = SLIP_END # take j (stuff pkt))"
        by (rule take_Cons_cases)
      moreover have "SLIP_END \<notin> set (take j (stuff pkt))" for j
        using SLIP_END_notin_stuff [of pkt] by (meson in_set_takeD)
      ultimately show ?thesis using waits decode_no_end by auto
    next
      case False
      then obtain rest where rest: "?b = frame_of pkt @ rest" "rest @ later = on_line ps'"
        using append_longer [OF line] by auto
      have "serial_read_handler net d g = Inr (g\<lparr>serial_read_buffer_unprocessed := SLIP_END # rest,
          tcp_ephemeral_socket_map := forward (net_connect net) p (tcp_ephemeral_socket_map g), serial_reading := True\<rparr>)"
        using read_frame [OF rest(1) c, of net] by (simp add: dispatch_carries [OF c assms(3)] forward_def p split: option.split)
      then show ?thesis
        using Cons rest(2)
        by (intro disjI2 exI [of _ p] exI [of _ ps'] exI [of _ "g\<lparr>serial_read_buffer_unprocessed := SLIP_END # rest,
          tcp_ephemeral_socket_map := forward (net_connect net) p (tcp_ephemeral_socket_map g), serial_reading := True\<rparr>"])
          (simp add: ahead_def)
    qed
  qed
qed

section \<open>Any cutting\<close>

lemma reads_stream:
  assumes "serial_read_buffer_unprocessed g @ concat ds @ later = ahead left ps" "list_all packet_ok ps" "sends_all net"
  shows "\<exists>g' n left'. serial_reads net ds g = Inr g' \<and> n \<le> length ps \<and>
    2 * n + of_bool left \<le> length ds + of_bool left' \<and>
    serial_read_buffer_unprocessed g' @ later = ahead left' (drop n ps) \<and>
    tcp_ephemeral_socket_map g' = fold (forward (net_connect net)) (take n ps) (tcp_ephemeral_socket_map g)"
  using assms(1,2)
proof (induction ds arbitrary: g left ps)
  case Nil
  then show ?case by (intro exI [of _ g] exI [of _ 0] exI [of _ left]) simp
next
  case (Cons d ds)
  have b: "serial_read_buffer_unprocessed g @ d @ concat ds @ later = ahead left ps" using Cons.prems(1) by simp
  consider (waits) g1 left1 where "serial_read_handler net d g = Inr g1"
      "serial_read_buffer_unprocessed g1 @ concat ds @ later = ahead left1 ps"
      "tcp_ephemeral_socket_map g1 = tcp_ephemeral_socket_map g" "of_bool left \<le> 1 + (of_bool left1 :: nat)"
    | (takes) p ps1 g1 where "ps = p # ps1" "\<not> left" "serial_read_handler net d g = Inr g1"
      "serial_read_buffer_unprocessed g1 @ concat ds @ later = ahead True ps1"
      "tcp_ephemeral_socket_map g1 = forward (net_connect net) p (tcp_ephemeral_socket_map g)"
  proof (cases left)
    case True
    with b read_left_end [of g d "concat ds @ later" ps net] Cons.prems(2) waits show ?thesis by auto
  next
    case False
    with b read_at_frame [of g d "concat ds @ later" ps net] Cons.prems(2) assms(3) waits takes show ?thesis by auto
  qed
  then show ?case
  proof cases
    case waits
    from Cons.IH [OF waits(2) Cons.prems(2)] obtain g' n left' where
      "serial_reads net ds g1 = Inr g'" "n \<le> length ps" "2 * n + of_bool left1 \<le> length ds + of_bool left'"
      "serial_read_buffer_unprocessed g' @ later = ahead left' (drop n ps)"
      "tcp_ephemeral_socket_map g' = fold (forward (net_connect net)) (take n ps) (tcp_ephemeral_socket_map g1)" by blast
    with waits show ?thesis by (intro exI [of _ g'] exI [of _ n] exI [of _ left']) (simp add: waits(1))
  next
    case takes
    from Cons.IH [OF takes(4)] Cons.prems(2) takes(1) obtain g' n left' where
      "serial_reads net ds g1 = Inr g'" "n \<le> length ps1" "2 * n + 1 \<le> length ds + of_bool left'"
      "serial_read_buffer_unprocessed g' @ later = ahead left' (drop n ps1)"
      "tcp_ephemeral_socket_map g' = fold (forward (net_connect net)) (take n ps1) (tcp_ephemeral_socket_map g1)" by auto
    with takes show ?thesis by (intro exI [of _ g'] exI [of _ "Suc n"] exI [of _ left']) (simp add: takes(3))
  qed
qed

text \<open>C5: The line may cut the frames anywhere.  The frames of TCP packets of any number of connections follow each
  other on the line, and the handler starts with an empty buffer.  Whatever the reads are into which the frames are
  cut, and as long as no \<open>send\<close> throws and each takes all of its data, the handler does not fail, and what it has
  sent on so far is the data of the first \<open>n\<close> packets, each on its own connection and in order, for every
  connection that there is already or that can be made (throughout): nothing is lost in between, mixed up or
  doubled.  But \<open>n\<close> is at most half the number of reads, rounded up.  (A \<open>send\<close> that throws ends the program, and
  of one that takes a part only, the rest is lost, as \<open>send_outcomes\<close> shows.)\<close>

theorem serial_any_cutting:
  assumes "list_all packet_ok ps" "serial_read_buffer_unprocessed g = []" "concat ds @ later = on_line ps"
    "sends_all net"
  shows "\<exists>g' n. serial_reads net ds g = Inr g' \<and> n \<le> length ps \<and> 2 * n \<le> length ds + 1 \<and>
    (\<forall>k. sent_on (tcp_ephemeral_socket_map g') k =
       (if net_connect net (ec_daddr k) (ec_dport k) \<or> tcp_ephemeral_socket_map g k \<noteq> None
        then sent_on (tcp_ephemeral_socket_map g) k @ data_for k (take n ps) else []))"
proof -
  obtain g' n left' where *: "serial_reads net ds g = Inr g'" "n \<le> length ps"
    "2 * n + of_bool False \<le> length ds + of_bool left'"
    "tcp_ephemeral_socket_map g' = fold (forward (net_connect net)) (take n ps) (tcp_ephemeral_socket_map g)"
    using reads_stream [of g ds later False ps net] assms by (auto simp: ahead_def)
  from *(3) have "2 * n \<le> length ds + 1" by (cases left') simp_all
  with * show ?thesis by (auto simp: fold_forward)
qed

theorem serial_any_cutting_witness:
  "\<exists>k pkt g' n. carries k (replicate 12 65) pkt \<and>
     serial_reads open_net [take 30 (frame_of pkt), drop 30 (frame_of pkt) @ frame_of pkt] bridge_init = Inr g' \<and>
     n \<le> 2 \<and> 2 * n \<le> 3 \<and> sent_on (tcp_ephemeral_socket_map g') k = replicate n (replicate 12 65)"
proof -
  obtain k pkt where c: "carries k (replicate 12 65) pkt" using carries_example by blast
  let ?ps = "[(k, replicate 12 (65 :: u8), pkt), (k, replicate 12 65, pkt)]"
  let ?ds = "[take 30 (frame_of pkt), drop 30 (frame_of pkt) @ frame_of pkt]"
  have ok: "list_all packet_ok ?ps" "concat ?ds @ [] = on_line ?ps" using c by (simp_all add: packet_ok_def)
  have init: "serial_read_buffer_unprocessed bridge_init = []" "sent_on (tcp_ephemeral_socket_map bridge_init) k = []"
    by (simp_all add: bridge_init_def sent_on_def)
  obtain g' n where r: "serial_reads open_net ?ds bridge_init = Inr g'" "n \<le> length ?ps" "2 * n \<le> length ?ds + 1"
    "sent_on (tcp_ephemeral_socket_map g') k = sent_on (tcp_ephemeral_socket_map bridge_init) k @ data_for k (take n ?ps)"
    using serial_any_cutting [OF ok(1) init(1) ok(2) open_net(1)] by (simp only: open_net(2) simp_thms if_True) blast
  have "n = 0 \<or> n = 1" using r(3) by auto
  then have "data_for k (take n ?ps) = replicate n (replicate 12 65)" by auto
  then show ?thesis using c r init(2) by (intro exI [of _ k] exI [of _ pkt] exI [of _ g'] exI [of _ n]) simp
qed

section \<open>Byte by byte\<close>

text \<open>A line so slow that every read gets one byte.\<close>

abbreviation one_by_one :: "bytes \<Rightarrow> bytes list" where
  "one_by_one bs \<equiv> map (\<lambda>b. [b]) bs"

lemma serial_reads_append:
  "serial_reads net (ds @ ds') g =
     (case serial_reads net ds g of Inl e \<Rightarrow> Inl e | Inr g' \<Rightarrow> serial_reads net ds' g')"
  by (induction ds arbitrary: g) (simp_all split: sum.split)

lemma bytes_of_frame:
  assumes "serial_read_buffer_unprocessed g = SLIP_END # t" "SLIP_END \<notin> set (t @ bs)"
  shows "\<exists>g'. serial_reads net (one_by_one bs) g = Inr g' \<and> serial_read_buffer_unprocessed g' = SLIP_END # t @ bs \<and>
    tcp_ephemeral_socket_map g' = tcp_ephemeral_socket_map g"
  using assms
proof (induction bs arbitrary: g t)
  case (Cons b bs)
  let ?g = "g\<lparr>serial_read_buffer_unprocessed := SLIP_END # t @ [b], serial_reading := True\<rparr>"
  have "serial_read_handler net [b] g = Inr ?g"
    using Cons.prems read_nothing [of g "[b]" net] decode_no_end(2) [of "t @ [b]"] by simp
  with Cons.IH [of ?g "t @ [b]"] Cons.prems(2) show ?case by simp
qed simp

lemma one_frame:
  assumes "carries k x pkt" "serial_read_buffer_unprocessed g \<in> {[], [SLIP_END]}" "sends_all net"
  shows "\<exists>g'. serial_reads net (one_by_one (frame_of pkt)) g = Inr g' \<and> serial_read_buffer_unprocessed g' = [SLIP_END] \<and>
    tcp_ephemeral_socket_map g' = forward (net_connect net) (k, x, pkt) (tcp_ephemeral_socket_map g)"
proof -
  have pkt: "pkt \<noteq> []" using assms(1) by (auto simp: carries_def)
  let ?g = "g\<lparr>serial_read_buffer_unprocessed := [SLIP_END], serial_reading := True\<rparr>"
  have 1: "serial_read_handler net [SLIP_END] g = Inr ?g"
    using assms(2) decode_two_ends [of "[]"] decode_no_end(2) [of "[]"]
    by (auto simp: serial_read_handler_def dispatch_Nil)
  obtain g2 where g2: "serial_reads net (one_by_one (stuff pkt)) ?g = Inr g2"
    "serial_read_buffer_unprocessed g2 = SLIP_END # stuff pkt"
    "tcp_ephemeral_socket_map g2 = tcp_ephemeral_socket_map g"
    using bytes_of_frame [of ?g "[]" "stuff pkt" net] by auto
  have "serial_read_buffer_unprocessed g2 @ [SLIP_END] = frame_of pkt @ []" using g2(2) frame_of_eq [OF pkt] by simp
  from read_frame [OF this assms(1), of net]
  have "serial_read_handler net [SLIP_END] g2 = Inr (g2\<lparr>serial_read_buffer_unprocessed := [SLIP_END],
      tcp_ephemeral_socket_map := forward (net_connect net) (k, x, pkt) (tcp_ephemeral_socket_map g), serial_reading := True\<rparr>)"
    by (simp add: dispatch_carries [OF assms(1,3)] forward_def g2(3) split: option.split)
  with 1 g2(1) show ?thesis using frame_of_eq [OF pkt] by (auto simp: serial_reads_append)
qed

lemma slow_line_forwards:
  assumes "list_all packet_ok ps" "serial_read_buffer_unprocessed g \<in> {[], [SLIP_END]}" "ps \<noteq> []" "sends_all net"
  shows "\<exists>g'. serial_reads net (one_by_one (on_line ps)) g = Inr g' \<and> serial_read_buffer_unprocessed g' = [SLIP_END] \<and>
    tcp_ephemeral_socket_map g' = fold (forward (net_connect net)) ps (tcp_ephemeral_socket_map g)"
  using assms(1-3)
proof (induction ps arbitrary: g)
  case (Cons p ps)
  obtain k x pkt where p: "p = (k, x, pkt)" by (cases p)
  obtain g1 where g1: "serial_reads net (one_by_one (frame_of pkt)) g = Inr g1"
    "serial_read_buffer_unprocessed g1 = [SLIP_END]"
    "tcp_ephemeral_socket_map g1 = forward (net_connect net) p (tcp_ephemeral_socket_map g)"
    using one_frame [of k x pkt g net] Cons.prems assms(4) p by (auto simp: packet_ok_def)
  show ?case
  proof (cases "ps = []")
    case True
    with g1 p show ?thesis by simp
  next
    case False
    with Cons.IH [of g1] Cons.prems(1) g1 p show ?thesis by (simp add: serial_reads_append)
  qed
qed simp

text \<open>A slow line is no trouble.  When every read gets a single byte, the handler keeps up: when the last byte
  of a frame has been read, the data of every packet so far has been sent on, each on its own connection and in
  order, and nothing but the END of the last frame is left in the buffer, provided that every \<open>send\<close> takes all of its data.\<close>

theorem serial_slow_line_keeps_up:
  assumes "list_all packet_ok ps" "serial_read_buffer_unprocessed g \<in> {[], [SLIP_END]}" "ps \<noteq> []" "sends_all net"
  shows "\<exists>g'. serial_reads net (one_by_one (on_line ps)) g = Inr g' \<and>
    serial_read_buffer_unprocessed g' = [SLIP_END] \<and>
    (\<forall>k. sent_on (tcp_ephemeral_socket_map g') k =
       (if net_connect net (ec_daddr k) (ec_dport k) \<or> tcp_ephemeral_socket_map g k \<noteq> None
        then sent_on (tcp_ephemeral_socket_map g) k @ data_for k ps else []))"
  using slow_line_forwards [OF assms] by (auto simp: fold_forward)

theorem serial_slow_line_keeps_up_witness:
  "\<exists>k pkt g'. carries k (replicate 12 65) pkt \<and>
     serial_reads open_net (one_by_one (frame_of pkt @ frame_of pkt)) bridge_init = Inr g' \<and>
     sent_on (tcp_ephemeral_socket_map g') k = [replicate 12 65, replicate 12 65]"
proof -
  obtain k pkt where c: "carries k (replicate 12 65) pkt" using carries_example by blast
  let ?ps = "[(k, replicate 12 65, pkt), (k, replicate 12 65, pkt)]"
  have "list_all packet_ok ?ps" using c by (simp add: packet_ok_def)
  from serial_slow_line_keeps_up [OF this, of bridge_init open_net] c show ?thesis
    by (fastforce simp: bridge_init_def sent_on_def)
qed

end
