(* ===== verification/Shared_line.thy ===== *)
theory Shared_line
  imports Bridge_stream
begin

text \<open>
  One side of the bridge as a whole: the listening ports and any number of connections, whose handlers share the
  serial port (\<^verbatim>\<open>main.cpp\<close> and \<^verbatim>\<open>Tcp_server_handler.cpp\<close>).  Each handler has its own strand and its own
  queue, and its \<open>async_write\<close> is a sequence of writes of which each takes a part of what is left.  Nothing orders
  the writes of different handlers.  The steps of the program interleave freely: accepted connections, reads
  from clients, posted functions, parts of writes taken by the port, completed writes, and reads from the line.

  What ends the program is no step: a run is what happens up to then.  A read from a client ends it when the next
  word in the client's input has less than 12 bytes, or none at all, or more than 65507, since the headers are then
  built from memory outside the word; so do endpoints that cannot be had because the connection has been
  reset, and a \<open>send\<close> to the network that throws.  No write to the serial port fails here; what a failed write
  does to a connection is shown with the handler.
\<close>

section \<open>The state of one side\<close>

text \<open>\<open>sl_recv\<close>, \<open>sl_words\<close> and the tags in \<open>sl_line\<close> are for the specification: all bytes that were received from
  each client, the words that its handler took out of them, and which handler a byte on the line comes from.
  \<open>sl_taken\<close> is how much of its outstanding write the port has taken.\<close>

record shared_line =
  sl_bridge :: bridge
  sl_ident :: u16
  sl_recv :: "nat \<Rightarrow> bytes"
  sl_words :: "nat \<Rightarrow> bytes list"
  sl_taken :: "nat \<Rightarrow> nat"
  sl_line :: "(nat \<times> u8) list"

abbreviation conn_count :: "shared_line \<Rightarrow> nat" where
  "conn_count s \<equiv> length (tcp_server_handler_list (sl_bridge s))"

text \<open>A handler that has not been used; positions beyond the list count as such.\<close>

definition blank_handler :: "u32 \<Rightarrow> tcp_server_handler" where
  "blank_handler indet = Tcp_server_handler 0 0 0 indet"

definition conn_at :: "shared_line \<Rightarrow> nat \<Rightarrow> tcp_server_handler" where
  "conn_at s i = (if i < conn_count s then tcp_server_handler_list (sl_bridge s) ! i else blank_handler 0)"

definition set_conn :: "nat \<Rightarrow> tcp_server_handler \<Rightarrow> shared_line \<Rightarrow> shared_line" where
  "set_conn i h s = s\<lparr>sl_bridge := (sl_bridge s)
     \<lparr>tcp_server_handler_list := (tcp_server_handler_list (sl_bridge s))[i := h]\<rparr>\<rparr>"

definition line_start :: "bridge \<Rightarrow> u16 \<Rightarrow> shared_line" where
  "line_start g ident =
     \<lparr>sl_bridge = g, sl_ident = ident, sl_recv = (\<lambda>_. []), sl_words = (\<lambda>_. []), sl_taken = (\<lambda>_. 0), sl_line = []\<rparr>"

text \<open>The part of its outstanding write that the port has begun and not yet taken.\<close>

definition rest_of :: "tcp_server_handler \<Rightarrow> nat \<Rightarrow> bytes" where
  "rest_of h t = (if t = 0 then [] else case writing h of None \<Rightarrow> [] | Some w \<Rightarrow> drop t w)"

text \<open>What the program does by itself: it runs what was posted, the port takes a part of a write, a write completes.
  The argument \<open>calm\<close> restricts the runs to those in which the port takes nothing of one write while another one has
  been begun and not finished.\<close>

inductive line_internal :: "bool \<Rightarrow> shared_line \<Rightarrow> shared_line \<Rightarrow> bool" for calm :: bool where
  Strand: "i < conn_count s \<Longrightarrow> posted (conn_at s i) = m # ms \<Longrightarrow>
    queue_message m ((conn_at s i)\<lparr>posted := ms\<rparr>) = Inr h' \<Longrightarrow> line_internal calm s (set_conn i h' s)"
| Taken: "i < conn_count s \<Longrightarrow> writing (conn_at s i) = Some w \<Longrightarrow> 0 < n \<Longrightarrow> sl_taken s i + n \<le> length w \<Longrightarrow>
    (calm \<Longrightarrow> \<forall>j. j \<noteq> i \<longrightarrow> rest_of (conn_at s j) (sl_taken s j) = []) \<Longrightarrow>
    line_internal calm s (s\<lparr>sl_taken := (sl_taken s)(i := sl_taken s i + n),
      sl_line := sl_line s @ map (Pair i) (take n (drop (sl_taken s i) w))\<rparr>)"
| Completed: "i < conn_count s \<Longrightarrow> writing (conn_at s i) = Some w \<Longrightarrow> sl_taken s i = length w \<Longrightarrow>
    write_completes (conn_at s i) w = Inr h' \<Longrightarrow>
    line_internal calm s ((set_conn i h' s)\<lparr>sl_taken := (sl_taken s)(i := 0)\<rparr>)"

text \<open>And what happens to it: connections, reads from the line, and reads from clients, which may fail.\<close>

inductive line_step :: "bool \<Rightarrow> shared_line \<Rightarrow> shared_line \<Rightarrow> bool" for calm :: bool where
  Accepted: "tcp_server_acceptor_map (sl_bridge s) lport = Some (Some i) \<Longrightarrow>
    tcp_server_accept_handler indet raddr rport lport i False (sl_bridge s) = Inr g \<Longrightarrow>
    line_step calm s (s\<lparr>sl_bridge := g\<rparr>)"
| Serial: "serial_read_handler net d (sl_bridge s) = Inr g \<Longrightarrow> line_step calm s (s\<lparr>sl_bridge := g\<rparr>)"
| Received: "i < conn_count s \<Longrightarrow> awaiting_read (conn_at s i) \<Longrightarrow>
    h = (conn_at s i)\<lparr>awaiting_read := False, in_packet := in_packet (conn_at s i) @ d\<rparr> \<Longrightarrow>
    read_packet_done (sl_ident s) iphdr False h = Inr (h', ident') \<Longrightarrow>
    line_step calm s ((set_conn i h' s)\<lparr>sl_ident := ident', sl_recv := (sl_recv s)(i := sl_recv s i @ d),
      sl_words := (sl_words s)(i := sl_words s i @ [fst (extract_string (in_packet h))])\<rparr>)"
| Read_failed: "i < conn_count s \<Longrightarrow> awaiting_read (conn_at s i) \<Longrightarrow>
    read_packet_done (sl_ident s) iphdr True ((conn_at s i)\<lparr>awaiting_read := False\<rparr>) = Inr (h', ident') \<Longrightarrow>
    line_step calm s ((set_conn i h' s)\<lparr>sl_ident := ident'\<rparr>)"
| Internal: "line_internal calm s s' \<Longrightarrow> line_step calm s s'"

text \<open>The states that one side can come to when its set-up has succeeded.\<close>

definition line_reach :: "bool \<Rightarrow> u16 list \<Rightarrow> shared_line \<Rightarrow> bool" where
  "line_reach calm ports s \<longleftrightarrow>
     (\<exists>os indet name rate g ident. main_setup os indet name rate ports = Inr g \<and> (line_step calm)\<^sup>*\<^sup>* (line_start g ident) s)"

lemma line_reach_trans: "line_reach calm ports s \<Longrightarrow> (line_step calm)\<^sup>*\<^sup>* s s' \<Longrightarrow> line_reach calm ports s'"
  unfolding line_reach_def by (meson rtranclp_trans)

text \<open>The bytes of one connection on the line.\<close>

definition own_bytes :: "nat \<Rightarrow> (nat \<times> u8) list \<Rightarrow> bytes" where
  "own_bytes i l = map snd (filter (\<lambda>(j, b). j = i) l)"

section \<open>One connection\<close>

text \<open>The packets \<open>ps\<close> of a connection: those written, queued and posted, each with the connection's key and the data
  that was read for it.\<close>

definition conn_inv :: "tcp_server_handler \<Rightarrow> bytes list \<Rightarrow> nat \<Rightarrow> packet list \<Rightarrow> bool" where
  "conn_inv h xs t ps \<longleftrightarrow>
     tcp_inv h \<and> written h @ send_packet_queue h @ posted h = map (\<lambda>(k, x, p). frame_of p) ps \<and>
     list_all packet_ok ps \<and> map (\<lambda>(k, x, p). x) ps = xs \<and> list_all (\<lambda>(k, x, p). k = key_of h) ps \<and>
     t \<le> (case writing h of None \<Rightarrow> 0 | Some w \<Rightarrow> length w)"

definition sent_part :: "tcp_server_handler \<Rightarrow> nat \<Rightarrow> bytes" where
  "sent_part h t = concat (written h) @ (case writing h of None \<Rightarrow> [] | Some w \<Rightarrow> take t w)"

lemma conn_inv_blank: "conn_inv (blank_handler b) [] 0 []" "sent_part (blank_handler b) 0 = []" "rest_of h 0 = []"
  by (simp_all add: conn_inv_def blank_handler_def Tcp_server_handler_def tcp_inv_def sent_part_def rest_of_def)

lemma conn_inv_started:
  "conn_inv (tcp_start ((blank_handler b)\<lparr>remote_address := raddr, remote_port := rport, local_port := lport\<rparr>)) [] 0 []"
  "sent_part (tcp_start ((blank_handler b)\<lparr>remote_address := raddr, remote_port := rport, local_port := lport\<rparr>)) 0 = []"
  by (simp_all add: conn_inv_def blank_handler_def Tcp_server_handler_def tcp_inv_def sent_part_def tcp_start_def read_packet_def)

lemma conn_inv_blankD: "conn_inv (blank_handler b) xs t ps \<Longrightarrow> xs = [] \<and> t = 0 \<and> ps = []"
  by (auto simp: conn_inv_def blank_handler_def Tcp_server_handler_def)

lemma conn_inv_idle:
  assumes "conn_inv h xs t ps" "writing h = None"
  shows "t = 0" "send_packet_queue h = []"
  using assms by (auto simp: conn_inv_def tcp_inv_def split: list.splits)

lemma conn_inv_stopped: "conn_inv (h\<lparr>awaiting_read := b\<rparr>) xs t ps \<longleftrightarrow> conn_inv h xs t ps"
proof -
  have "tcp_inv (h\<lparr>awaiting_read := b\<rparr>) = tcp_inv h" "key_of (h\<lparr>awaiting_read := b\<rparr>) = key_of h"
    by (simp_all add: tcp_inv_def key_of_def)
  then show ?thesis by (simp add: conn_inv_def)
qed

lemma conn_inv_received:
  assumes "conn_inv h xs t ps"
    "read_packet_done ident iphdr False (h\<lparr>awaiting_read := False, in_packet := b\<rparr>) = Inr (h', ident')"
  shows "\<exists>p. conn_inv h' (xs @ [fst (extract_string b)]) t (ps @ [p])" "written h' = written h" "writing h' = writing h"
proof -
  let ?h = "h\<lparr>awaiting_read := False, in_packet := b\<rparr>" and ?x = "fst (extract_string b)"
  note f = read_packet_done_fields [OF assms(2)]
  have "12 \<le> length ?x \<and> length ?x \<le> 65507" using read_packet_done_sized [OF assms(2)] by simp
  then obtain pkt where c: "posted h' = posted ?h @ [frame_of pkt]" "carries (key_of ?h) ?x pkt"
    using read_packet_done_carries [of ?x ?h ident iphdr] assms(2) by auto
  have k: "key_of h' = key_of h" "key_of ?h = key_of h" using f by (simp_all add: key_of_def)
  have "tcp_inv h'" using assms(1) f by (simp add: conn_inv_def tcp_inv_def)
  then show "\<exists>p. conn_inv h' (xs @ [?x]) t (ps @ [p])"
    using assms(1) f c k
    by (intro exI [of _ "(key_of h, ?x, pkt)"]) (simp add: conn_inv_def packet_ok_def)
  show "written h' = written h" "writing h' = writing h" using f by simp_all
qed

lemma handler_key:
  "queue_message m (h\<lparr>posted := ms\<rparr>) = Inr h' \<Longrightarrow> key_of h' = key_of h"
  "write_completes h w = Inr h' \<Longrightarrow> key_of h' = key_of h"
  by (auto simp: queue_message_def write_completes_def packet_send_done_def start_packet_send_def Let_def key_of_def
      split: if_splits list.splits)

lemma conn_inv_strand:
  assumes "conn_inv h xs t ps" "posted h = m # ms" "queue_message m (h\<lparr>posted := ms\<rparr>) = Inr h'"
  shows "conn_inv h' xs t ps" "written h' = written h" "t = 0 \<or> writing h' = writing h"
proof -
  have inv: "tcp_inv (h\<lparr>posted := ms\<rparr>)" using assms(1) by (simp add: conn_inv_def tcp_inv_def)
  have h': "tcp_inv h'" "written h' = written h" "send_packet_queue h' = send_packet_queue h @ [m]" "posted h' = ms"
    using queue_message_inv [OF inv, of m] assms(3) by auto
  note k = handler_key(1) [OF assms(3)]
  show w: "t = 0 \<or> writing h' = writing h"
    using assms(1) h'(1,3) by (auto simp: conn_inv_def tcp_inv_def split: list.splits)
  show "conn_inv h' xs t ps"
    using assms(1,2) h' k w by (auto simp: conn_inv_def)
  show "written h' = written h" by fact
qed

lemma conn_inv_completed:
  assumes "conn_inv h xs (length w) ps" "writing h = Some w" "write_completes h w = Inr h'"
  shows "conn_inv h' xs 0 ps" "written h' = written h @ [w]"
proof -
  have inv: "tcp_inv h" using assms(1) by (simp add: conn_inv_def)
  obtain ms where h': "tcp_inv h'" "written h' = written h @ [w]" "send_packet_queue h = w # ms" "send_packet_queue h' = ms"
    "posted h' = posted h"
    using write_completes_inv [OF inv assms(2)] assms(3) by auto
  then show "conn_inv h' xs 0 ps" "written h' = written h @ [w]"
    using assms(1) h' handler_key(2) [OF assms(3)] by (simp_all add: conn_inv_def)
qed

lemma conn_inv_taken:
  assumes "conn_inv h xs t ps" "writing h = Some w" "t + n \<le> length w"
  shows "conn_inv h xs (t + n) ps" "sent_part h (t + n) = sent_part h t @ take n (drop t w)"
  using assms by (simp_all add: conn_inv_def sent_part_def take_add)

section \<open>All connections\<close>

text \<open>The handlers that wait for a connection have not been used.\<close>

definition waiting_fresh :: "bridge \<Rightarrow> bool" where
  "waiting_fresh g \<longleftrightarrow> accepting g \<and>
     (\<forall>p i. tcp_server_acceptor_map g p = Some (Some i) \<longrightarrow> (\<exists>b. tcp_server_handler_list g ! i = blank_handler b))"

definition line_inv :: "(nat \<Rightarrow> packet list) \<Rightarrow> shared_line \<Rightarrow> bool" where
  "line_inv P s \<longleftrightarrow> waiting_fresh (sl_bridge s) \<and>
     (\<forall>i. conn_inv (conn_at s i) (sl_words s i) (sl_taken s i) (P i) \<and>
          own_bytes i (sl_line s) = sent_part (conn_at s i) (sl_taken s i))"

lemma line_invD:
  assumes "line_inv P s"
  shows "waiting_fresh (sl_bridge s)" "conn_inv (conn_at s i) (sl_words s i) (sl_taken s i) (P i)"
    "own_bytes i (sl_line s) = sent_part (conn_at s i) (sl_taken s i)"
  using assms by (simp_all add: line_inv_def)

lemma conn_at_cong: "sl_bridge s' = sl_bridge s \<Longrightarrow> conn_at s' j = conn_at s j"
  by (simp add: conn_at_def)

lemma conn_at_fields [simp]:
  "conn_at (s\<lparr>sl_ident := u\<rparr>) j = conn_at s j" "conn_at (s\<lparr>sl_words := xs\<rparr>) j = conn_at s j"
  "conn_at (s\<lparr>sl_recv := bs\<rparr>) j = conn_at s j"
  "conn_at (s\<lparr>sl_taken := t\<rparr>) j = conn_at s j" "conn_at (s\<lparr>sl_line := l\<rparr>) j = conn_at s j"
  by (simp_all add: conn_at_def)

lemma conn_at_set:
  "i < conn_count s \<Longrightarrow> conn_at (set_conn i h s) j = (if j = i then h else conn_at s j)"
  by (simp add: conn_at_def set_conn_def)

lemma set_conn_fields [simp]:
  "sl_words (set_conn i h s) = sl_words s" "sl_recv (set_conn i h s) = sl_recv s" "sl_taken (set_conn i h s) = sl_taken s" "sl_line (set_conn i h s) = sl_line s"
  "sl_ident (set_conn i h s) = sl_ident s"
  by (simp_all add: set_conn_def)

lemma own_bytes_append [simp]: "own_bytes i (l @ l') = own_bytes i l @ own_bytes i l'"
  by (simp add: own_bytes_def)

lemma own_bytes_Pair [simp]: "own_bytes i (map (Pair j) bs) = (if i = j then bs else [])"
  by (induction bs) (auto simp: own_bytes_def)

lemma blank_idle [simp]:
  "\<not> awaiting_read (blank_handler b)" "posted (blank_handler b) = []" "writing (blank_handler b) = None"
  "in_packet (blank_handler b) = []" "written (blank_handler b) = []" "send_packet_queue (blank_handler b) = []"
  by (simp_all add: blank_handler_def Tcp_server_handler_def)

lemma waiting_fresh_set:
  assumes "waiting_fresh (sl_bridge s)" "i < conn_count s"
    "awaiting_read (conn_at s i) \<or> posted (conn_at s i) \<noteq> [] \<or> writing (conn_at s i) \<noteq> None"
  shows "waiting_fresh (sl_bridge (set_conn i h s))"
proof -
  let ?g = "sl_bridge s"
  have no: "tcp_server_acceptor_map ?g p \<noteq> Some (Some i)" for p
  proof
    assume "tcp_server_acceptor_map ?g p = Some (Some i)"
    then obtain b where "conn_at s i = blank_handler b" using assms(1,2) unfolding waiting_fresh_def conn_at_def by auto
    with assms(3) show False by simp
  qed
  have "accepting (sl_bridge (set_conn i h s))"
    using accepting_update [OF _ no] assms(1) by (simp add: waiting_fresh_def set_conn_def)
  moreover have "\<exists>b. (tcp_server_handler_list ?g)[i := h] ! j = blank_handler b"
    if "tcp_server_acceptor_map ?g p = Some (Some j)" for p j
  proof -
    have "j \<noteq> i" using no that by blast
    with assms(1) that show ?thesis by (simp add: waiting_fresh_def)
  qed
  ultimately show ?thesis by (simp add: waiting_fresh_def set_conn_def)
qed

lemma serial_read_handler_keeps:
  assumes "serial_read_handler net d g = Inr g'"
  shows "tcp_server_handler_list g' = tcp_server_handler_list g" "tcp_server_acceptor_map g' = tcp_server_acceptor_map g"
  using assms
  by (auto simp: serial_read_handler_def serial_dispatch_def serial_dispatch_tcp_def socket_send_def Let_def
      split: prod.splits sum.splits if_splits option.splits bool.splits)

lemma line_inv_local:
  assumes "line_inv P s" "i < conn_count s"
    "awaiting_read (conn_at s i) \<or> posted (conn_at s i) \<noteq> [] \<or> writing (conn_at s i) \<noteq> None"
    "conn_inv h xs t ps" "sent_part h t = sent_part (conn_at s i) (sl_taken s i)"
    "sl_bridge s' = sl_bridge (set_conn i h s)" "sl_words s' = (sl_words s)(i := xs)"
    "sl_taken s' = (sl_taken s)(i := t)" "sl_line s' = sl_line s"
  shows "line_inv (P(i := ps)) s'"
  using assms waiting_fresh_set [OF _ assms(2,3), of h] conn_at_cong [OF assms(6)]
  by (simp add: line_inv_def conn_at_set)

lemma line_inv_accepted:
  assumes "line_inv P s" "tcp_server_acceptor_map (sl_bridge s) lport = Some (Some i)"
    "tcp_server_accept_handler indet raddr rport lport i False (sl_bridge s) = Inr g"
  shows "line_inv P (s\<lparr>sl_bridge := g\<rparr>)" "i < conn_count s"
    "conn_at (s\<lparr>sl_bridge := g\<rparr>) j =
      (if j = i then tcp_start ((conn_at s i)\<lparr>remote_address := raddr, remote_port := rport, local_port := lport\<rparr>)
       else if j = conn_count s then blank_handler indet else conn_at s j)"
    "\<exists>b. conn_at s i = blank_handler b"
proof -
  let ?hl = "tcp_server_handler_list (sl_bridge s)"
  let ?h = "tcp_start ((?hl ! i)\<lparr>remote_address := raddr, remote_port := rport, local_port := lport\<rparr>)"
  have fresh: "waiting_fresh (sl_bridge s)" using assms(1) by (simp add: line_inv_def)
  then have acc: "accepting (sl_bridge s)" by (simp add: waiting_fresh_def)
  show i: "i < conn_count s" using accepting_bound [OF acc assms(2)] .
  have g: "tcp_server_handler_list g = ?hl[i := ?h] @ [blank_handler indet]"
    "tcp_server_acceptor_map g = (tcp_server_acceptor_map (sl_bridge s))(lport \<mapsto> Some (length ?hl))"
    using assms(2,3) by (auto simp: tcp_server_accept_handler_def Let_def blank_handler_def)
  show at: "conn_at (s\<lparr>sl_bridge := g\<rparr>) j =
      (if j = i then tcp_start ((conn_at s i)\<lparr>remote_address := raddr, remote_port := rport, local_port := lport\<rparr>)
       else if j = conn_count s then blank_handler indet else conn_at s j)" for j
    using i g(1) by (auto simp: conn_at_def nth_append)
  from fresh assms(2) obtain b where "?hl ! i = blank_handler b" by (auto simp: waiting_fresh_def)
  then have b: "conn_at s i = blank_handler b" using i by (simp add: conn_at_def)
  then show "\<exists>b. conn_at s i = blank_handler b" ..
  have "accepting g" using accept_keeps [OF acc assms(2), of indet raddr rport] assms(3) by auto
  moreover have "\<exists>b. tcp_server_handler_list g ! j = blank_handler b"
    if p: "tcp_server_acceptor_map g p = Some (Some j)" for p j
  proof (cases "p = lport")
    case True
    then show ?thesis using p g i by (auto simp: nth_append)
  next
    case False
    then have "tcp_server_acceptor_map (sl_bridge s) p = Some (Some j)" using p g(2) by simp
    moreover have "j \<noteq> i" using False acc assms(2) calculation by (auto simp: accepting_def)
    ultimately show ?thesis using fresh g(1) accepting_bound [OF acc] by (auto simp: waiting_fresh_def nth_append)
  qed
  ultimately have wf: "waiting_fresh g" by (simp add: waiting_fresh_def)
  note own = line_invD(2,3) [OF assms(1)]
  have used: "sl_words s j = []" "sl_taken s j = 0" "P j = []" "own_bytes j (sl_line s) = []" if "conn_at s j = blank_handler c" for j c
    using own [of j] conn_inv_blankD [of c "sl_words s j" "sl_taken s j" "P j"] conn_inv_blank(2) [of c] that by simp_all
  have n: "conn_at s (conn_count s) = blank_handler 0" by (simp add: conn_at_def)
  have "conn_inv (conn_at (s\<lparr>sl_bridge := g\<rparr>) j) (sl_words s j) (sl_taken s j) (P j) \<and>
      own_bytes j (sl_line s) = sent_part (conn_at (s\<lparr>sl_bridge := g\<rparr>) j) (sl_taken s j)" for j
    using own [of j] used [OF b] used [OF n] conn_inv_blank conn_inv_started
    by (auto simp: at b)
  then show "line_inv P (s\<lparr>sl_bridge := g\<rparr>)" using wf by (simp add: line_inv_def)
qed

lemma setup_blank:
  assumes "main_setup os indet name rate ports = Inr g"
  shows "tcp_server_handler_list g = replicate (length ports) (blank_handler indet)"
proof -
  have "tcp_server_handler_list (fold (listen_on indet) ports g) =
      tcp_server_handler_list g @ replicate (length ports) (blank_handler indet)" for g
    by (induction ports arbitrary: g) (simp_all add: listen_on_def Let_def blank_handler_def)
  then show ?thesis using main_setup_eq [OF assms] by (simp add: bridge_init_def)
qed

lemma line_inv_start:
  assumes "main_setup os indet name rate ports = Inr g"
  shows "line_inv (\<lambda>_. []) (line_start g ident)"
proof -
  note blank = setup_blank [OF assms]
  have "waiting_fresh g"
    using accepting_setup [OF assms] accepting_bound [OF accepting_setup [OF assms]] blank by (auto simp: waiting_fresh_def)
  moreover have "\<exists>b. conn_at (line_start g ident) i = blank_handler b" for i
    using blank by (auto simp: conn_at_def line_start_def)
  then have "conn_inv (conn_at (line_start g ident) i) [] 0 []" "sent_part (conn_at (line_start g ident) i) 0 = []" for i
    using conn_inv_blank by metis+
  ultimately show ?thesis by (simp add: line_inv_def line_start_def own_bytes_def)
qed

lemma read_packet_done_error: "read_packet_done ident iphdr True h = Inr (h, ident)"
  by (simp add: read_packet_done_def)

lemma line_inv_taken:
  assumes "line_inv P s" "writing (conn_at s i) = Some w" "sl_taken s i + n \<le> length w"
  shows "line_inv P (s\<lparr>sl_taken := (sl_taken s)(i := sl_taken s i + n),
      sl_line := sl_line s @ map (Pair i) (take n (drop (sl_taken s i) w))\<rparr>)"
  using line_invD [OF assms(1)] conn_inv_taken [OF line_invD(2) [OF assms(1)] assms(2,3)] by (simp add: line_inv_def)

lemma line_inv_internal:
  assumes "line_internal calm s s'" "line_inv P s"
  shows "line_inv P s'"
  using assms
proof (induction rule: line_internal.induct)
  case (Strand i s m ms h')
  note inv = line_invD(2) [OF Strand.prems, of i]
  note c = conn_inv_strand [OF inv Strand.hyps(2,3)]
  have "line_inv (P(i := P i)) (set_conn i h' s)"
    by (rule line_inv_local [OF Strand.prems Strand.hyps(1) _ c(1)])
      (use Strand.hyps(2) c(2,3) in \<open>auto simp: sent_part_def split: option.split\<close>)
  then show ?case by simp
next
  case (Taken i s w n)
  from line_inv_taken [OF Taken.prems Taken.hyps(2,4)] show ?case .
next
  case (Completed i s w h')
  note c = conn_inv_completed [OF line_invD(2) [OF Completed.prems, of i, unfolded Completed.hyps(3)] Completed.hyps(2,4)]
  have "line_inv (P(i := P i)) ((set_conn i h' s)\<lparr>sl_taken := (sl_taken s)(i := 0)\<rparr>)"
    by (rule line_inv_local [OF Completed.prems Completed.hyps(1) _ c(1)])
      (use Completed.hyps(2,3) c(2) in \<open>auto simp: sent_part_def split: option.split\<close>)
  then show ?case by simp
qed

text \<open>A step keeps the invariant; packets are only ever added at the end.\<close>

lemma line_inv_step:
  assumes "line_step calm s s'" "line_inv P s"
  shows "\<exists>P'. line_inv P' s' \<and> (\<forall>i. \<exists>q. P' i = P i @ q)"
  using assms
proof (induction rule: line_step.induct)
  case (Accepted s lport i indet raddr rport g)
  from line_inv_accepted(1) [OF Accepted.prems Accepted.hyps] show ?case by (intro exI [of _ P]) simp
next
  case (Serial net d s g)
  note k = serial_read_handler_keeps [OF Serial.hyps]
  have "conn_at (s\<lparr>sl_bridge := g\<rparr>) j = conn_at s j" for j using k by (simp add: conn_at_def)
  moreover have "waiting_fresh g" using Serial.prems k by (simp add: line_inv_def waiting_fresh_def accepting_def)
  ultimately have "line_inv P (s\<lparr>sl_bridge := g\<rparr>)" using Serial.prems by (simp add: line_inv_def)
  then show ?case by (intro exI [of _ P]) simp
next
  case (Received i s h d iphdr h' ident')
  note inv = line_invD(2) [OF Received.prems, of i]
  note c = conn_inv_received [OF inv Received.hyps(4) [unfolded Received.hyps(3)]]
  from c(1) obtain p where p: "conn_inv h' (sl_words s i @ [fst (extract_string (in_packet h))]) (sl_taken s i) (P i @ [p])"
    using Received.hyps(3) by auto
  have "line_inv (P(i := P i @ [p])) ((set_conn i h' s)\<lparr>sl_ident := ident', sl_recv := (sl_recv s)(i := sl_recv s i @ d),
      sl_words := (sl_words s)(i := sl_words s i @ [fst (extract_string (in_packet h))])\<rparr>)"
    by (rule line_inv_local [OF Received.prems Received.hyps(1) _ p]) (use Received.hyps(2) c(2,3) in \<open>simp_all add: sent_part_def\<close>)
  then show ?case by (intro exI [of _ "P(i := P i @ [p])"] conjI) (assumption, simp)
next
  case (Read_failed i s iphdr h' ident')
  have h': "h' = (conn_at s i)\<lparr>awaiting_read := False\<rparr>" using Read_failed.hyps(3) by (simp add: read_packet_done_error)
  note inv = line_invD(2) [OF Read_failed.prems, of i]
  have c: "conn_inv h' (sl_words s i) (sl_taken s i) (P i)" using inv h' by (simp add: conn_inv_stopped)
  have "line_inv (P(i := P i)) ((set_conn i h' s)\<lparr>sl_ident := ident'\<rparr>)"
    by (rule line_inv_local [OF Read_failed.prems Read_failed.hyps(1) _ c]) (use Read_failed.hyps(2) h' in \<open>simp_all add: sent_part_def\<close>)
  then show ?case by (intro exI [of _ "P(i := P i)"] conjI) (assumption, simp)
next
  case (Internal s s')
  then show ?case using line_inv_internal by (intro exI [of _ P]) simp
qed

text \<open>What a handler has taken out of its client's bytes: the words, and the white space around them, which goes
  nowhere.  The rest is still in its buffer.\<close>

definition nonspace :: "bytes \<Rightarrow> bytes" where
  "nonspace = filter (\<lambda>c. \<not> isspace c)"

definition recv_inv :: "shared_line \<Rightarrow> bool" where
  "recv_inv s \<longleftrightarrow> (\<forall>i. concat (sl_words s i) @ nonspace (in_packet (conn_at s i)) = nonspace (sl_recv s i))"

lemma nonspace_extract: "nonspace buf = fst (extract_string buf) @ nonspace (snd (extract_string buf))"
proof -
  let ?x = "fst (extract_string buf)"
  obtain ws rest where buf: "buf = ws @ ?x @ rest" and ws: "list_all isspace ws"
    and rest: "snd (extract_string buf) = rest" and x: "list_all (\<lambda>c. \<not> isspace c) ?x"
    using extract_string_parts [of buf] by metis
  have "nonspace ws = []" "nonspace ?x = ?x" using ws x by (simp_all add: nonspace_def list_all_iff)
  then have "nonspace (ws @ ?x @ rest) = ?x @ nonspace rest" by (simp add: nonspace_def)
  with buf rest show ?thesis by metis
qed

lemma read_packet_done_buffer:
  "read_packet_done ident iphdr False h = Inr (h', ident') \<Longrightarrow> in_packet h' = snd (extract_string (in_packet h))"
  by (auto simp: read_packet_done_def read_packet_def tcp_send_def Let_def case_prod_beta split: sum.splits)

text \<open>When a read ends the program.\<close>

lemma read_packet_done_iff:
  "(\<exists>r. read_packet_done ident iphdr False h = Inr r) \<longleftrightarrow>
     12 \<le> length (fst (extract_string (in_packet h))) \<and> length (fst (extract_string (in_packet h))) \<le> 65507"
  using read_packet_done_sized [of ident iphdr h] read_packet_done_carries [of "fst (extract_string (in_packet h))" h ident iphdr]
  by blast

lemma handler_buffer:
  "queue_message m (h\<lparr>posted := ms\<rparr>) = Inr h' \<Longrightarrow> in_packet h' = in_packet h"
  "write_completes h w = Inr h' \<Longrightarrow> in_packet h' = in_packet h"
  by (auto simp: queue_message_def write_completes_def packet_send_done_def start_packet_send_def Let_def
      split: if_splits list.splits)

lemma recv_inv_local:
  assumes "recv_inv s" "i < conn_count s" "in_packet h = in_packet (conn_at s i)"
    "sl_bridge s' = sl_bridge (set_conn i h s)" "sl_recv s' = sl_recv s" "sl_words s' = sl_words s"
  shows "recv_inv s'"
  using assms conn_at_cong [OF assms(4)] by (simp add: recv_inv_def conn_at_set)

lemma recv_inv_internal:
  assumes "line_internal calm s s'" "recv_inv s"
  shows "recv_inv s'"
  using assms
proof (induction rule: line_internal.induct)
  case (Strand i s m ms h')
  from recv_inv_local [OF Strand.prems Strand.hyps(1) handler_buffer(1) [OF Strand.hyps(3)] refl] show ?case by simp
next
  case (Taken i s w n)
  then show ?case by (simp add: recv_inv_def)
next
  case (Completed i s w h')
  from recv_inv_local [OF Completed.prems Completed.hyps(1) handler_buffer(2) [OF Completed.hyps(4)]] show ?case by simp
qed

lemma recv_inv_step:
  assumes "line_step calm s s'" "line_inv P s" "recv_inv s"
  shows "recv_inv s'"
  using assms
proof (induction rule: line_step.induct)
  case (Accepted s lport i indet raddr rport g)
  note a = line_inv_accepted(3,4) [OF Accepted.prems(1) Accepted.hyps]
  have n: "conn_at s (conn_count s) = blank_handler 0" by (simp add: conn_at_def)
  have "in_packet (conn_at (s\<lparr>sl_bridge := g\<rparr>) j) = in_packet (conn_at s j)" for j
    using a n by (auto simp: tcp_start_def read_packet_def)
  then show ?case using Accepted.prems(2) by (simp add: recv_inv_def)
next
  case (Serial net d s g)
  have "conn_at (s\<lparr>sl_bridge := g\<rparr>) j = conn_at s j" for j
    using serial_read_handler_keeps [OF Serial.hyps] by (simp add: conn_at_def)
  then show ?case using Serial.prems(2) by (simp add: recv_inv_def)
next
  case (Received i s h d iphdr h' ident')
  have b: "in_packet h = in_packet (conn_at s i) @ d" using Received.hyps(3) by simp
  have "concat (sl_words s i) @ nonspace (in_packet h) = nonspace (sl_recv s i @ d)"
    using Received.prems(2) by (simp add: b recv_inv_def nonspace_def flip: append_assoc)
  then have "concat (sl_words s i) @ fst (extract_string (in_packet h)) @ nonspace (in_packet h') = nonspace (sl_recv s i @ d)"
    using nonspace_extract [of "in_packet h"] read_packet_done_buffer [OF Received.hyps(4)] by simp
  then show ?case using Received.prems(2) Received.hyps(1) by (simp add: recv_inv_def conn_at_set)
next
  case (Read_failed i s iphdr h' ident')
  have "h' = (conn_at s i)\<lparr>awaiting_read := False\<rparr>" using Read_failed.hyps(3) by (simp add: read_packet_done_error)
  then have "in_packet h' = in_packet (conn_at s i)" by simp
  from recv_inv_local [OF Read_failed.prems(2) Read_failed.hyps(1) this] show ?case by simp
next
  case (Internal s s')
  then show ?case using recv_inv_internal by blast
qed

lemma recv_inv_start:
  assumes "main_setup os indet name rate ports = Inr g"
  shows "recv_inv (line_start g ident)"
proof -
  have "in_packet (conn_at (line_start g ident) i) = []" for i
    using setup_blank [OF assms] by (auto simp: conn_at_def line_start_def)
  then show ?thesis by (simp add: recv_inv_def line_start_def nonspace_def)
qed

lemma line_inv_reach:
  assumes "line_reach calm ports s"
  obtains P where "line_inv P s" "recv_inv s"
proof -
  obtain os indet name rate g ident where g: "main_setup os indet name rate ports = Inr g"
    and run: "(line_step calm)\<^sup>*\<^sup>* (line_start g ident) s" using assms unfolding line_reach_def by blast
  from run have "\<exists>P. line_inv P s \<and> recv_inv s"
  proof (induction rule: rtranclp_induct)
    case base
    show ?case using line_inv_start [OF g] recv_inv_start [OF g] by blast
  next
    case (step s s')
    then show ?case using line_inv_step recv_inv_step by blast
  qed
  then show thesis using that by blast
qed

lemma recv_invD: "recv_inv s \<Longrightarrow> concat (sl_words s i) @ nonspace (in_packet (conn_at s i)) = nonspace (sl_recv s i)"
  by (simp add: recv_inv_def)

lemma frames_written:
  assumes "conn_inv h xs t ps"
  shows "\<exists>m. sent_part h t = take m (on_line ps)"
proof -
  have line: "on_line ps = concat (written h @ send_packet_queue h @ posted h)"
    using assms by (simp add: conn_inv_def on_line_def)
  show ?thesis
  proof (cases "writing h")
    case None
    then show ?thesis using line by (intro exI [of _ "length (concat (written h))"]) (simp add: sent_part_def)
  next
    case (Some w)
    then have "\<exists>ms. send_packet_queue h = w # ms" using assms by (auto simp: conn_inv_def tcp_inv_def split: list.splits)
    then show ?thesis
      using line Some assms by (intro exI [of _ "length (concat (written h)) + t"]) (auto simp: sent_part_def conn_inv_def)
  qed
qed

text \<open>C9: Every connection's own bytes go out in order.  In every run of one side of the program, from a successful
  set-up on, however the accepts, the reads, the strands and the parts of the writes of any number of
  connections interleave, and whatever arrives on the serial line meanwhile, as long as no write fails and nothing
  ends the program (such as a word of less than 12 or more than 65507 bytes): the bytes that a connection has put
  on the line are the beginning of the frames of its own packets.  These have the connection's addresses and
  ports, and the data they carry, put together, is all that was received from the client, in order, without its
  white space, which the handler drops, and without what is still in its input buffer.\<close>

theorem line_bytes_in_order:
  assumes "line_reach calm ports s" "i < conn_count s"
  shows "\<exists>ps m. own_bytes i (sl_line s) = take m (on_line ps) \<and> list_all packet_ok ps \<and>
    concat (map (\<lambda>(k, x, p). x) ps) @ nonspace (in_packet (conn_at s i)) = nonspace (sl_recv s i) \<and>
    list_all (\<lambda>(k, x, p). k = key_of (conn_at s i)) ps"
proof -
  obtain P where P: "line_inv P s" "recv_inv s" using assms(1) by (rule line_inv_reach)
  from P(1) have inv: "conn_inv (conn_at s i) (sl_words s i) (sl_taken s i) (P i)"
    "own_bytes i (sl_line s) = sent_part (conn_at s i) (sl_taken s i)" by (simp_all add: line_inv_def)
  have "concat (map (\<lambda>(k, x, p). x) (P i)) @ nonspace (in_packet (conn_at s i)) = nonspace (sl_recv s i)"
    using recv_invD [OF P(2)] inv(1) by (simp add: conn_inv_def)
  then show ?thesis using inv frames_written [OF inv(1)] by (auto simp: conn_inv_def intro!: exI [of _ "P i"])
qed

section \<open>Writes that do not overlap\<close>

definition started :: "tcp_server_handler \<Rightarrow> nat \<Rightarrow> nat" where
  "started h t = length (written h) + (if t = 0 then 0 else 1)"

text \<open>\<open>F\<close> are the packets on the line, each with its connection, in the order in which their writes began; \<open>rest\<close> is
  what the line still lacks of the last one.\<close>

definition calm_inv :: "(nat \<Rightarrow> packet list) \<Rightarrow> shared_line \<Rightarrow> (nat \<times> packet) list \<Rightarrow> bytes \<Rightarrow> bool" where
  "calm_inv P s F rest \<longleftrightarrow>
     map snd (sl_line s) @ rest = on_line (map snd F) \<and>
     (\<forall>i. map snd (filter (\<lambda>(j, p). j = i) F) = take (started (conn_at s i) (sl_taken s i)) (P i)) \<and>
     (\<exists>i. rest_of (conn_at s i) (sl_taken s i) = rest \<and> (\<forall>j. j \<noteq> i \<longrightarrow> rest_of (conn_at s j) (sl_taken s j) = []))"

lemma started_bound:
  assumes "conn_inv h xs t ps"
  shows "started h t \<le> length ps"
proof -
  have "length ps = length (written h) + length (send_packet_queue h) + length (posted h)"
    using assms by (auto simp: conn_inv_def dest: arg_cong [of _ _ length])
  then show ?thesis
    using assms by (cases "send_packet_queue h") (auto simp: started_def conn_inv_def tcp_inv_def)
qed

lemma calm_inv_frame:
  assumes "calm_inv P s F rest" "line_inv P s" "sl_line s' = sl_line s" "\<And>i. \<exists>q. P' i = P i @ q"
    "\<And>i. started (conn_at s' i) (sl_taken s' i) = started (conn_at s i) (sl_taken s i)"
    "\<And>i. rest_of (conn_at s' i) (sl_taken s' i) = rest_of (conn_at s i) (sl_taken s i)"
  shows "calm_inv P' s' F rest"
proof -
  have "take (started (conn_at s i) (sl_taken s i)) (P' i) = take (started (conn_at s i) (sl_taken s i)) (P i)" for i
  proof -
    have "started (conn_at s i) (sl_taken s i) \<le> length (P i)" by (rule started_bound [OF line_invD(2) [OF assms(2)]])
    then show ?thesis using assms(4) [of i] by auto
  qed
  then show ?thesis using assms by (simp add: calm_inv_def)
qed

lemma next_packet:
  assumes "conn_inv h xs t ps" "writing h = Some w"
  shows "\<exists>k x p. ps ! length (written h) = (k, x, p) \<and> frame_of p = w" "length (written h) < length ps" "w \<noteq> []"
proof -
  obtain ms where q: "send_packet_queue h = w # ms" using assms by (auto simp: conn_inv_def tcp_inv_def split: list.splits)
  have f: "written h @ send_packet_queue h @ posted h = map (\<lambda>(k, x, p). frame_of p) ps" using assms(1) by (simp add: conn_inv_def)
  show l: "length (written h) < length ps" using arg_cong [OF f, of length] q by simp
  have "(case ps ! length (written h) of (k, x, p) \<Rightarrow> frame_of p) = w"
    using arg_cong [OF f, of "\<lambda>l. l ! length (written h)"] q l by (simp add: nth_append)
  then show "\<exists>k x p. ps ! length (written h) = (k, x, p) \<and> frame_of p = w" by (cases "ps ! length (written h)") auto
  then obtain k x p where p: "ps ! length (written h) = (k, x, p)" "frame_of p = w" by blast
  have "packet_ok (ps ! length (written h))" using assms(1) l by (simp add: conn_inv_def list_all_length)
  then have "p \<noteq> []" using p(1) by (auto simp: packet_ok_def carries_def)
  with p(2) show "w \<noteq> []" using frame_of_eq by force
qed

lemma calm_inv_taken:
  assumes "calm_inv P s F rest" "line_inv P s" "writing (conn_at s i) = Some w" "0 < n" "sl_taken s i + n \<le> length w"
    "\<forall>j. j \<noteq> i \<longrightarrow> rest_of (conn_at s j) (sl_taken s j) = []"
  defines "s' \<equiv> s\<lparr>sl_taken := (sl_taken s)(i := sl_taken s i + n),
      sl_line := sl_line s @ map (Pair i) (take n (drop (sl_taken s i) w))\<rparr>"
  shows "\<exists>F'. calm_inv P s' F' (drop (sl_taken s i + n) w)"
proof -
  let ?t = "sl_taken s i"
  note inv = line_invD(2) [OF assms(2), of i]
  have rest: "rest = rest_of (conn_at s i) ?t" using assms(1,6) unfolding calm_inv_def by metis
  have at: "conn_at s' j = conn_at s j" for j by (simp add: s'_def)
  have rest': "rest_of (conn_at s j) (sl_taken s' j) = (if j = i then drop (?t + n) w else [])" for j
  proof (cases "j = i")
    case True
    then show ?thesis using assms(3,4) by (simp add: s'_def rest_of_def)
  next
    case False
    then show ?thesis using assms(6) by (simp add: s'_def)
  qed
  have part: "\<exists>j. rest_of (conn_at s' j) (sl_taken s' j) = drop (?t + n) w \<and>
      (\<forall>j'. j' \<noteq> j \<longrightarrow> rest_of (conn_at s' j') (sl_taken s' j') = [])"
    by (rule exI [of _ i]) (simp add: at rest')
  show ?thesis
  proof (cases "?t = 0")
    case True
    obtain k x p where p: "P i ! length (written (conn_at s i)) = (k, x, p)" "frame_of p = w"
      "length (written (conn_at s i)) < length (P i)"
      using next_packet [OF inv assms(3)] by auto
    have none: "rest = []" using rest True by (simp add: rest_of_def)
    have "calm_inv P s' (F @ [(i, k, x, p)]) (drop (?t + n) w)"
      unfolding calm_inv_def
    proof (intro conjI allI)
      show "map snd (sl_line s') @ drop (?t + n) w = on_line (map snd (F @ [(i, k, x, p)]))"
        using assms(1) none True p(2) by (simp add: calm_inv_def s'_def on_line_def comp_def)
      show "map snd (filter (\<lambda>(j, p). j = j') (F @ [(i, k, x, p)])) = take (started (conn_at s' j') (sl_taken s' j')) (P j')" for j'
        using assms(1,4) True take_Suc_conv_app_nth [OF p(3)] p(1)
        by (auto simp: calm_inv_def at started_def s'_def)
    qed (rule part)
    then show ?thesis ..
  next
    case False
    have "rest = drop ?t w" using rest False assms(3) by (simp add: rest_of_def)
    then have "take n (drop ?t w) @ drop (?t + n) w = rest" by (metis add.commute append_take_drop_id drop_drop)
    then have "calm_inv P s' F (drop (?t + n) w)"
      using assms(1,4) False part unfolding calm_inv_def by (intro conjI) (auto simp: at s'_def started_def comp_def)
    then show ?thesis ..
  qed
qed

lemma calm_inv_internal:
  assumes "line_internal True s s'" "line_inv P s" "calm_inv P s F rest"
  shows "\<exists>F' rest'. calm_inv P s' F' rest'"
proof -
  have frame: ?thesis if "sl_line s' = sl_line s"
    "\<And>i. started (conn_at s' i) (sl_taken s' i) = started (conn_at s i) (sl_taken s i)"
    "\<And>i. rest_of (conn_at s' i) (sl_taken s' i) = rest_of (conn_at s i) (sl_taken s i)"
    using calm_inv_frame [OF assms(3,2) that(1) _ that(2,3), of P] by auto
  from assms(1) show ?thesis
  proof cases
    case (Strand i m ms h')
    note c = conn_inv_strand [OF line_invD(2) [OF assms(2), of i] Strand(3,4)]
    then show ?thesis
      by (intro frame) (auto simp: Strand(1) conn_at_set [OF Strand(2)] started_def rest_of_def)
  next
    case (Taken i w n)
    have "\<forall>j. j \<noteq> i \<longrightarrow> rest_of (conn_at s j) (sl_taken s j) = []" using Taken(6) by simp
    from calm_inv_taken [OF assms(3,2) Taken(3,4,5) this]
    show ?thesis unfolding Taken(1) by blast
  next
    case (Completed i w h')
    note c = conn_inv_completed [OF line_invD(2) [OF assms(2), of i, unfolded Completed(4)] Completed(3,5)]
    have "w \<noteq> []" using next_packet(3) [OF line_invD(2) [OF assms(2), of i] Completed(3)] .
    then show ?thesis
      using c Completed(3,4)
      by (intro frame) (auto simp: Completed(1) conn_at_set [OF Completed(2)] started_def rest_of_def)
  qed
qed

lemma calm_inv_step:
  assumes "line_step True s s'" "line_inv P s" "calm_inv P s F rest"
  shows "\<exists>P' F' rest'. line_inv P' s' \<and> calm_inv P' s' F' rest'"
proof -
  obtain P' where P': "line_inv P' s'" "\<And>i. \<exists>q. P' i = P i @ q" using line_inv_step [OF assms(1,2)] by blast
  have frame: ?thesis if "sl_line s' = sl_line s"
    "\<And>i. started (conn_at s' i) (sl_taken s' i) = started (conn_at s i) (sl_taken s i)"
    "\<And>i. rest_of (conn_at s' i) (sl_taken s' i) = rest_of (conn_at s i) (sl_taken s i)"
    using calm_inv_frame [OF assms(3,2) that(1) P'(2) that(2,3)] P'(1) by blast
  from assms(1) show ?thesis
  proof cases
    case (Accepted lport i indet raddr rport g)
    note a = line_inv_accepted [OF assms(2) Accepted(2,3)]
    obtain b where b: "conn_at s i = blank_handler b" using a(4) by blast
    have n: "conn_at s (conn_count s) = blank_handler 0" by (simp add: conn_at_def)
    have t: "sl_taken s j = 0" if "conn_at s j = blank_handler c" for j c
      using line_invD(2) [OF assms(2), of j] conn_inv_blankD unfolding that by blast
    show ?thesis
      by (rule frame) (use t [OF b] t [OF n] b n in \<open>auto simp: Accepted(1) a(3) started_def rest_of_def tcp_start_def read_packet_def\<close>)
  next
    case (Serial net d g)
    have "conn_at s' j = conn_at s j" for j
      using serial_read_handler_keeps [OF Serial(2)] by (simp add: Serial(1) conn_at_def)
    then show ?thesis by (intro frame) (simp_all add: Serial(1))
  next
    case (Received i h d iphdr h' ident')
    have "written h' = written (conn_at s i)" "writing h' = writing (conn_at s i)"
      using read_packet_done_fields [OF Received(5)] Received(4) by simp_all
    then show ?thesis
      by (intro frame) (simp_all add: Received(1) conn_at_set [OF Received(2)] started_def rest_of_def)
  next
    case (Read_failed i iphdr h' ident')
    have "written h' = written (conn_at s i)" "writing h' = writing (conn_at s i)"
      using read_packet_done_fields [OF Read_failed(4)] by simp_all
    then show ?thesis
      by (intro frame) (simp_all add: Read_failed(1) conn_at_set [OF Read_failed(2)] started_def rest_of_def)
  next
    case Internal
    then show ?thesis using calm_inv_internal [OF _ assms(2,3)] line_inv_internal assms(2) by blast
  qed
qed

lemma calm_reach:
  assumes "line_reach True ports s"
  obtains P F rest where "line_inv P s" "calm_inv P s F rest"
proof -
  obtain os indet name rate g ident where g: "main_setup os indet name rate ports = Inr g"
    and run: "(line_step True)\<^sup>*\<^sup>* (line_start g ident) s" using assms unfolding line_reach_def by blast
  from run have "\<exists>P F rest. line_inv P s \<and> calm_inv P s F rest"
  proof (induction rule: rtranclp_induct)
    case base
    have "calm_inv (\<lambda>_. []) (line_start g ident) [] []"
      by (simp add: calm_inv_def line_start_def rest_of_def)
    then show ?case using line_inv_start [OF g] by blast
  next
    case (step s s')
    then show ?case using calm_inv_step by blast
  qed
  then show thesis using that by blast
qed

lemma data_for_conn:
  assumes "\<And>j k' x p. (j, k', x, p) \<in> set F \<Longrightarrow> k' = k \<longleftrightarrow> j = i"
  shows "data_for k (map snd F) = map (\<lambda>(k, x, p). x) (map snd (filter (\<lambda>(j, p). j = i) F))"
  using assms
proof (induction F)
  case (Cons e F)
  obtain j k' x p where e: "e = (j, k', x, p)" by (cases e)
  then have "k' = k \<longleftrightarrow> j = i" using Cons.prems [of j k' x p] by simp
  moreover have "data_for k (map snd F) = map (\<lambda>(k, x, p). x) (map snd (filter (\<lambda>(j, p). j = i) F))"
    by (rule Cons.IH) (use Cons.prems in auto)
  ultimately show ?case using e by simp
qed simp

lemma take_filter_prefix: "\<exists>m. filter Q (take n l) = take m (filter Q l)"
  by (metis append_eq_conv_conj append_take_drop_id filter_append)

text \<open>What the line carries for a connection whose addresses and ports are its own.\<close>

definition own_key :: "shared_line \<Rightarrow> nat \<Rightarrow> bool" where
  "own_key s i \<longleftrightarrow> i < conn_count s \<and> (\<forall>j < conn_count s. j \<noteq> i \<longrightarrow> key_of (conn_at s j) \<noteq> key_of (conn_at s i))"

lemma on_line_ok:
  assumes "line_inv P s" "calm_inv P s F rest"
  shows "(j, p) \<in> set F \<Longrightarrow> p \<in> set (P j)" "list_all packet_ok (map snd F)"
proof -
  have sub: "map snd (filter (\<lambda>(j, p). j = i) F) = take (started (conn_at s i) (sl_taken s i)) (P i)" for i
    using assms(2) by (simp add: calm_inv_def)
  show mem: "p \<in> set (P j)" if "(j, p) \<in> set F" for j p
  proof -
    have "p \<in> set (map snd (filter (\<lambda>(j', p). j' = j) F))" using that by force
    then show ?thesis using sub [of j] by (metis in_set_takeD)
  qed
  show "list_all packet_ok (map snd F)"
    using mem line_invD(2) [OF assms(1)] by (fastforce simp: list_all_iff conn_inv_def)
qed

lemma on_line_data:
  assumes "line_inv P s" "calm_inv P s F rest" "own_key s i"
  shows "\<exists>m. data_for (key_of (conn_at s i)) (take n (map snd F)) = take m (sl_words s i)"
    "data_for (key_of (conn_at s i)) (map snd F) = take (started (conn_at s i) (sl_taken s i)) (sl_words s i)"
proof -
  let ?k = "key_of (conn_at s i)"
  have sub: "map snd (filter (\<lambda>(j, p). j = i) F) = take (started (conn_at s i) (sl_taken s i)) (P i)"
    using assms(2) by (simp add: calm_inv_def)
  have data: "map (\<lambda>(k, x, p). x) (P i) = sl_words s i" using line_invD(2) [OF assms(1), of i] by (simp add: conn_inv_def)
  have key: "k' = ?k \<longleftrightarrow> j = i" if "(j, k', x, p) \<in> set F" for j k' x p
  proof -
    have p: "(k', x, p) \<in> set (P j)" using on_line_ok(1) [OF assms(1,2)] that by blast
    then have "k' = key_of (conn_at s j)" using line_invD(2) [OF assms(1), of j] by (auto simp: conn_inv_def list_all_iff)
    moreover have "j < conn_count s"
      using p line_invD(2) [OF assms(1), of j] conn_inv_blankD by (fastforce simp: conn_at_def split: if_splits)
    ultimately show ?thesis using assms(3) by (auto simp: own_key_def)
  qed
  have all: "map (\<lambda>(k, x, p). x) (map snd (filter (\<lambda>(j, p). j = i) F)) = take (started (conn_at s i) (sl_taken s i)) (sl_words s i)"
    by (simp only: sub take_map [symmetric] data)
  then show "data_for ?k (map snd F) = take (started (conn_at s i) (sl_taken s i)) (sl_words s i)"
    using data_for_conn [of F ?k i] key by simp
  have "data_for ?k (map snd (take n F)) = map (\<lambda>(k, x, p). x) (map snd (filter (\<lambda>(j, p). j = i) (take n F)))"
    by (rule data_for_conn, rule key, erule in_set_takeD)
  moreover obtain m where "filter (\<lambda>(j, p). j = i) (take n F) = take m (filter (\<lambda>(j, p). j = i) F)"
    using take_filter_prefix by blast
  ultimately have "data_for ?k (take n (map snd F)) = take m (take (started (conn_at s i) (sl_taken s i)) (sl_words s i))"
    by (simp only: take_map [symmetric] all)
  then show "\<exists>m. data_for ?k (take n (map snd F)) = take m (sl_words s i)" by (metis take_take)
qed

lemma sent_on_key:
  assumes "connect (remote_addr_BE h) (local_port h)"
  shows "sent_on (fold (forward connect) ps Map.empty) (key_of h) = data_for (key_of h) ps"
proof -
  have "sent_on Map.empty (key_of h) = []" by (simp add: sent_on_def)
  moreover have "connect (ec_daddr (key_of h)) (ec_dport (key_of h))" using assms by (simp add: key_of_def)
  ultimately show ?thesis by (simp add: fold_forward)
qed

text \<open>C4: The whole program, one way.  On one side any number of clients connect and send; the writes of their handlers do
  not overlap on the line, though the port may take each of them in parts, no write fails, and nothing ends that
  side's run.  Whatever the interleaving, and however the reads of the other side cut what is on the line, as long
  as every \<open>send\<close> of the other side takes all of its data, that side does not fail, and what it sends on for each
  connection is a first part of all the bytes that were received from that client without their white space, in
  order, with nothing of any other client in it, provided that it can connect and that no other connection has
  the same addresses and ports.\<close>

theorem program_delivers:
  assumes "line_reach True ports s" "concat ds @ later = map snd (sl_line s)" "sends_all net"
  shows "\<exists>g. serial_reads net ds bridge_init = Inr g \<and>
    (\<forall>i. own_key s i \<and> net_connect net (remote_addr_BE (conn_at s i)) (local_port (conn_at s i)) \<longrightarrow>
       (\<exists>rest. concat (sent_on (tcp_ephemeral_socket_map g) (key_of (conn_at s i))) @ rest = nonspace (sl_recv s i)))"
proof -
  have recv: "recv_inv s" using assms(1) by (rule line_inv_reach)
  obtain P F rest where inv: "line_inv P s" "calm_inv P s F rest" using assms(1) by (rule calm_reach)
  have line: "concat ds @ (later @ rest) = on_line (map snd F)"
    using inv(2) unfolding calm_inv_def assms(2) [symmetric] by simp
  have init: "serial_read_buffer_unprocessed bridge_init = []" "tcp_ephemeral_socket_map bridge_init = Map.empty"
    by (simp_all add: bridge_init_def)
  obtain g n where g: "serial_reads net ds bridge_init = Inr g"
    "tcp_ephemeral_socket_map g = fold (forward (net_connect net)) (take n (map snd F)) Map.empty"
    using reads_stream [of bridge_init ds "later @ rest" False "map snd F" net] on_line_ok(2) [OF inv] line init assms(3)
    by (auto simp: ahead_def)
  have "\<exists>rest. concat (sent_on (tcp_ephemeral_socket_map g) (key_of (conn_at s i))) @ rest = nonspace (sl_recv s i)"
    if i: "own_key s i" "net_connect net (remote_addr_BE (conn_at s i)) (local_port (conn_at s i))" for i
  proof -
    obtain m where "sent_on (tcp_ephemeral_socket_map g) (key_of (conn_at s i)) = take m (sl_words s i)"
      using on_line_data(1) [OF inv i(1), of n] sent_on_key [of "net_connect net" "conn_at s i", OF i(2)] g(2) by auto
    then have "concat (sent_on (tcp_ephemeral_socket_map g) (key_of (conn_at s i))) @
        concat (drop m (sl_words s i)) @ nonspace (in_packet (conn_at s i)) = nonspace (sl_recv s i)"
      using recv_invD [OF recv, of i] append_take_drop_id [of m "sl_words s i"] by (metis append_assoc concat_append)
    then show ?thesis by blast
  qed
  then show ?thesis using g(1) by blast
qed

section \<open>The line goes quiet\<close>

definition quiet :: "shared_line \<Rightarrow> bool" where
  "quiet s \<longleftrightarrow> (\<forall>i < conn_count s. posted (conn_at s i) = [] \<and> send_packet_queue (conn_at s i) = [])"

text \<open>What is left to do: a posted frame is to be queued, a queued one to be written byte by byte and completed.\<close>

definition work_of :: "tcp_server_handler \<Rightarrow> nat \<Rightarrow> nat" where
  "work_of h t = sum_list (map (\<lambda>m. length m + 2) (posted h)) + sum_list (map (\<lambda>m. length m + 1) (send_packet_queue h)) - t"

definition work :: "shared_line \<Rightarrow> nat" where
  "work s = (\<Sum>i < conn_count s. work_of (conn_at s i) (sl_taken s i))"

lemma queue_head:
  assumes "conn_inv h xs t ps" "writing h = Some w"
  obtains ms where "send_packet_queue h = w # ms" "t \<le> length w"
  using assms by (auto simp: conn_inv_def tcp_inv_def split: list.splits)

lemma taken_queue: "conn_inv h xs t ps \<Longrightarrow> t \<le> sum_list (map (\<lambda>m. length m + 1) (send_packet_queue h))"
  by (cases "writing h") (auto simp: conn_inv_idle elim!: queue_head)

lemma work_less:
  assumes "i < conn_count s" "conn_count s' = conn_count s"
    "work_of (conn_at s' i) (sl_taken s' i) < work_of (conn_at s i) (sl_taken s i)"
    "\<And>j. j \<noteq> i \<Longrightarrow> conn_at s' j = conn_at s j \<and> sl_taken s' j = sl_taken s j"
  shows "work s' < work s"
  unfolding work_def assms(2)
proof (rule sum_strict_mono_ex1)
  show "\<forall>j \<in> {..<conn_count s}. work_of (conn_at s' j) (sl_taken s' j) \<le> work_of (conn_at s j) (sl_taken s j)"
    using assms(3,4) by (metis le_refl less_imp_le)
qed (use assms(1,3) in auto)

lemma conn_count_set [simp]: "conn_count (set_conn i h s) = conn_count s"
  by (simp add: set_conn_def)

lemma internal_works:
  assumes "line_internal calm s s'" "line_inv P s"
  shows "work s' < work s"
  using assms
proof cases
  case (Strand i m ms h')
  note inv = line_invD(2) [OF assms(2), of i]
  have "tcp_inv ((conn_at s i)\<lparr>posted := ms\<rparr>)" using inv by (simp add: conn_inv_def tcp_inv_def)
  then have "send_packet_queue h' = send_packet_queue (conn_at s i) @ [m]" "posted h' = ms"
    using queue_message_inv [of "(conn_at s i)\<lparr>posted := ms\<rparr>" m] Strand(4) by auto
  then show ?thesis
    using Strand taken_queue [OF inv] by (intro work_less [of i]) (simp_all add: conn_at_set work_of_def)
next
  case (Taken i w n)
  obtain ms where "send_packet_queue (conn_at s i) = w # ms" using queue_head [OF line_invD(2) [OF assms(2)] Taken(3)] by blast
  then show ?thesis using Taken by (intro work_less [of i]) (simp_all add: work_of_def)
next
  case (Completed i w h')
  have "tcp_inv (conn_at s i)" using line_invD(2) [OF assms(2), of i] by (simp add: conn_inv_def)
  then obtain ms where "send_packet_queue (conn_at s i) = w # ms" "send_packet_queue h' = ms" "posted h' = posted (conn_at s i)"
    using write_completes_inv [OF _ Completed(3)] Completed(5) by auto
  then show ?thesis using Completed by (intro work_less [of i]) (simp_all add: conn_at_set work_of_def)
qed

lemma internal_keeps:
  assumes "line_internal calm s s'"
  shows "sl_words s' = sl_words s" "sl_recv s' = sl_recv s" "conn_count s' = conn_count s"
    "key_of (conn_at s' j) = key_of (conn_at s j)" "in_packet (conn_at s' j) = in_packet (conn_at s j)"
proof -
  show "sl_words s' = sl_words s" "sl_recv s' = sl_recv s" "conn_count s' = conn_count s" using assms by (cases, simp_all)+
  from assms show "key_of (conn_at s' j) = key_of (conn_at s j)" by cases (auto simp: conn_at_set dest: handler_key)
  from assms show "in_packet (conn_at s' j) = in_packet (conn_at s j)" by cases (auto simp: conn_at_set dest: handler_buffer)
qed

text \<open>As long as there is something left to do, something can be done: the write that has been begun can go on, and
  when none has, any can begin.\<close>

lemma can_write:
  assumes "line_inv P s" "writing (conn_at s i) = Some w"
    "\<And>j. j \<noteq> i \<Longrightarrow> rest_of (conn_at s j) (sl_taken s j) = []"
  shows "\<exists>s'. line_internal True s s'"
proof -
  note inv = line_invD(2) [OF assms(1), of i]
  have i: "i < conn_count s" using assms(2) by (auto simp: conn_at_def split: if_splits)
  have le: "sl_taken s i \<le> length w" using queue_head [OF inv assms(2)] by blast
  show ?thesis
  proof (cases "sl_taken s i = length w")
    case True
    have "tcp_inv (conn_at s i)" using inv by (simp add: conn_inv_def)
    then obtain h' where "write_completes (conn_at s i) w = Inr h'" using write_completes_inv [OF _ assms(2)] by blast
    with i assms(2) True show ?thesis by (blast intro: line_internal.Completed)
  next
    case False
    with le have "0 < (1 :: nat)" "sl_taken s i + 1 \<le> length w" by simp_all
    from line_internal.Taken [OF i assms(2) this, of True] assms(3) show ?thesis by blast
  qed
qed

lemma internal_progress:
  assumes "line_inv P s" "calm_inv P s F rest" "\<not> quiet s"
  shows "\<exists>s'. line_internal True s s'"
proof -
  note inv = line_invD(2) [OF assms(1)]
  obtain i0 where i0: "\<And>j. j \<noteq> i0 \<Longrightarrow> rest_of (conn_at s j) (sl_taken s j) = []" using assms(2) by (auto simp: calm_inv_def)
  from assms(3) obtain i where i: "i < conn_count s" "posted (conn_at s i) \<noteq> [] \<or> send_packet_queue (conn_at s i) \<noteq> []"
    by (auto simp: quiet_def)
  show ?thesis
  proof (cases "posted (conn_at s i)")
    case (Cons m ms)
    have "tcp_inv ((conn_at s i)\<lparr>posted := ms\<rparr>)" using inv [of i] by (simp add: conn_inv_def tcp_inv_def)
    then obtain h' where "queue_message m ((conn_at s i)\<lparr>posted := ms\<rparr>) = Inr h'" by (rule queue_message_inv)
    from line_internal.Strand [OF i(1) Cons this] show ?thesis by blast
  next
    case Nil
    show ?thesis
    proof (cases "rest_of (conn_at s i0) (sl_taken s i0) = []")
      case True
      then have none: "rest_of (conn_at s j) (sl_taken s j) = []" for j using i0 by (cases "j = i0") simp_all
      obtain w where "writing (conn_at s i) = Some w" using conn_inv_idle(2) [OF inv [of i]] i(2) Nil by blast
      from can_write [OF assms(1) this] none show ?thesis by blast
    next
      case False
      then obtain w where "writing (conn_at s i0) = Some w" by (auto simp: rest_of_def split: if_splits option.splits)
      from can_write [OF assms(1) this] i0 show ?thesis by blast
    qed
  qed
qed

lemma calm_runs:
  assumes "(line_internal True ^^ k) s s'" "line_inv P s" "calm_inv P s F rest"
  shows "k + work s' \<le> work s \<and> line_inv P s' \<and> (\<exists>F rest. calm_inv P s' F rest) \<and> sl_words s' = sl_words s \<and>
    sl_recv s' = sl_recv s \<and> conn_count s' = conn_count s \<and> (\<forall>j. key_of (conn_at s' j) = key_of (conn_at s j)) \<and>
    (\<forall>j. in_packet (conn_at s' j) = in_packet (conn_at s j))"
  using assms(1)
proof (induction k arbitrary: s')
  case 0
  then show ?case using assms(2,3) by auto
next
  case (Suc k)
  then obtain s1 where s1: "(line_internal True ^^ k) s s1" "line_internal True s1 s'" by auto
  note IH = Suc.IH [OF s1(1)]
  then have inv: "line_inv P s1" by simp
  from IH obtain F' rest' where calm: "calm_inv P s1 F' rest'" by blast
  show ?case
    using IH internal_works [OF s1(2) inv] internal_keeps [OF s1(2)] line_inv_internal [OF s1(2) inv]
      calm_inv_internal [OF s1(2) inv calm] by simp
qed


lemma line_drains:
  assumes "line_inv P s" "calm_inv P s F rest"
  obtains k s' where "(line_internal True ^^ k) s s'" "quiet s'" "sl_recv s' = sl_recv s" "conn_count s' = conn_count s"
    "\<And>j. key_of (conn_at s' j) = key_of (conn_at s j)" "\<And>j. in_packet (conn_at s' j) = in_packet (conn_at s j)"
proof -
  have "\<exists>k s'. (line_internal True ^^ k) s s' \<and> quiet s'"
    using assms
  proof (induction "work s" arbitrary: s F rest rule: less_induct)
    case less
    show ?case
    proof (cases "quiet s")
      case True
      then show ?thesis by (intro exI [of _ 0]) simp
    next
      case False
      then obtain s1 where s1: "line_internal True s s1" using internal_progress less.prems by blast
      obtain F' rest' where "calm_inv P s1 F' rest'" using calm_inv_internal [OF s1 less.prems] by blast
      from less.hyps [OF internal_works [OF s1 less.prems(1)] line_inv_internal [OF s1 less.prems(1)] this]
      show ?thesis using s1 relpowp_Suc_I2 by metis
    qed
  qed
  then show thesis using calm_runs [OF _ assms] that by blast
qed

lemma quiet_started:
  assumes "line_inv P s" "quiet s"
  shows "started (conn_at s i) (sl_taken s i) = length (sl_words s i)" "rest_of (conn_at s i) (sl_taken s i) = []"
proof -
  note inv = line_invD(2) [OF assms(1), of i]
  have q: "posted (conn_at s i) = []" "send_packet_queue (conn_at s i) = []"
    using assms(2) by (auto simp: quiet_def conn_at_def)
  then have w: "writing (conn_at s i) = None" using queue_head [OF inv] by fastforce
  have "length (written (conn_at s i)) = length (P i)" "length (P i) = length (sl_words s i)"
    using inv q by (auto simp: conn_inv_def dest: arg_cong [of _ _ length])
  then show "started (conn_at s i) (sl_taken s i) = length (sl_words s i)" using conn_inv_idle(1) [OF inv w] by (simp add: started_def)
  show "rest_of (conn_at s i) (sl_taken s i) = []" using w by (simp add: rest_of_def)
qed

text \<open>C3: The program delivers everything but white space.  Any number of clients have connected to one side and
  sent, their handlers' writes have not overlapped and none has failed, nothing has ended the run (each word that
  was taken from a client had 12 to 65507 bytes), and the side has gone quiet.  Once the other side has read the line
  byte by byte, and if each of its \<open>send\<close>s takes all of its data, every byte that was received from a client has
  been sent on, in order and with nothing of any other client in it, except for white space and for what is still
  in the input buffer of the client's handler, provided that the other side can connect and that no other
  connection has the same addresses and ports.\<close>

theorem program_delivers_all:
  assumes "line_reach True ports s" "quiet s" "sends_all net"
  shows "\<exists>g. serial_reads net (one_by_one (map snd (sl_line s))) bridge_init = Inr g \<and>
    (\<forall>i. own_key s i \<and> net_connect net (remote_addr_BE (conn_at s i)) (local_port (conn_at s i)) \<longrightarrow>
       concat (sent_on (tcp_ephemeral_socket_map g) (key_of (conn_at s i))) @ nonspace (in_packet (conn_at s i)) =
         nonspace (sl_recv s i))"
proof -
  have recv: "recv_inv s" using assms(1) by (rule line_inv_reach)
  obtain P F rest where inv: "line_inv P s" "calm_inv P s F rest" using assms(1) by (rule calm_reach)
  have line: "map snd (sl_line s) = on_line (map snd F)"
    using inv(2) quiet_started(2) [OF inv(1) assms(2)] by (auto simp: calm_inv_def)
  have "\<exists>g. serial_reads net (one_by_one (on_line (map snd F))) bridge_init = Inr g \<and>
      tcp_ephemeral_socket_map g = fold (forward (net_connect net)) (map snd F) Map.empty"
    using slow_line_forwards [OF on_line_ok(2) [OF inv] _ _ assms(3), of bridge_init]
    by (cases "F = []") (auto simp: bridge_init_def)
  then obtain g where g: "serial_reads net (one_by_one (map snd (sl_line s))) bridge_init = Inr g"
    "tcp_ephemeral_socket_map g = fold (forward (net_connect net)) (map snd F) Map.empty" unfolding line by blast
  have "concat (sent_on (tcp_ephemeral_socket_map g) (key_of (conn_at s i))) @ nonspace (in_packet (conn_at s i)) =
      nonspace (sl_recv s i)"
    if i: "own_key s i" "net_connect net (remote_addr_BE (conn_at s i)) (local_port (conn_at s i))" for i
  proof -
    have "sent_on (tcp_ephemeral_socket_map g) (key_of (conn_at s i)) = sl_words s i"
      using on_line_data(2) [OF inv i(1)] quiet_started(1) [OF inv(1) assms(2), of i]
        sent_on_key [of "net_connect net" "conn_at s i", OF i(2)] g(2) by simp
    then show ?thesis using recv_invD [OF recv] by simp
  qed
  then show ?thesis using g(1) by blast
qed

section \<open>Writes that overlap\<close>

lemma line_steps2: "line_step c s1 s2 \<Longrightarrow> line_step c s2 s3 \<Longrightarrow> (line_step c)\<^sup>*\<^sup>* s1 s3"
  by (rule converse_rtranclp_into_rtranclp [OF _ r_into_rtranclp])

text \<open>A client's data is read and its frame given to the port.\<close>

lemma send_steps:
  assumes "i < conn_count s" "conn_at s i = h" "awaiting_read h" "in_packet h = []" "posted h = []"
    "send_packet_queue h = []" "list_all (\<lambda>c. \<not> isspace c) x" "12 \<le> length x" "length x \<le> 65507"
  shows "\<exists>h' pkt u. (line_step calm)\<^sup>*\<^sup>* s ((set_conn i h' s)\<lparr>sl_ident := u, sl_recv := (sl_recv s)(i := sl_recv s i @ x), sl_words := (sl_words s)(i := sl_words s i @ [x])\<rparr>) \<and>
    writing h' = Some (frame_of pkt) \<and> carries (key_of h) x pkt \<and> key_of h' = key_of h \<and>
    in_packet h' = []"
proof -
  let ?h = "h\<lparr>awaiting_read := False, in_packet := in_packet h @ x\<rparr>" and ?hdr = "ip4_of_ip (default_ip_hdr 0 0 0 0 0)"
  have ex: "extract_string (in_packet ?h) = (x, [])"
    using extract_string_split [of "[]" x "[]"] assms(4,7,8) by (cases x) auto
  obtain h1 pkt where h1: "read_packet_done (sl_ident s) ?hdr False ?h = Inr (h1, sl_ident s + 1)"
    "posted h1 = posted ?h @ [frame_of pkt]" "carries (key_of ?h) x pkt"
    by (rule read_packet_done_carries [of x ?h "sl_ident s" ?hdr]) (use ex assms(8,9) in simp_all)
  let ?s1 = "(set_conn i h1 s)\<lparr>sl_ident := sl_ident s + 1, sl_recv := (sl_recv s)(i := sl_recv s i @ x), sl_words := (sl_words s)(i := sl_words s i @ [x])\<rparr>"
  have 1: "line_step calm s ?s1"
    using line_step.Received [OF assms(1), of ?h x ?hdr h1 "sl_ident s + 1" calm] assms(2,3) h1(1) ex by simp
  note f = read_packet_done_fields [OF h1(1)]
  have at: "conn_at ?s1 i = h1" using assms(1) by (simp add: conn_at_set)
  let ?h2 = "h1\<lparr>posted := [], send_packet_queue := [frame_of pkt], writing := Some (frame_of pkt)\<rparr>"
  have q: "queue_message (frame_of pkt) (h1\<lparr>posted := []\<rparr>) = Inr ?h2"
    using f(5) assms(6) by (simp add: queue_message_def start_packet_send_def Let_def)
  have 2: "line_step calm ?s1 (set_conn i ?h2 ?s1)"
    by (rule line_step.Internal [OF line_internal.Strand [of i ?s1 "frame_of pkt" "[]"]]) (use q assms(1,5) h1(2) at in \<open>simp_all add: set_conn_def\<close>)
  have "set_conn i ?h2 ?s1 = (set_conn i ?h2 s)\<lparr>sl_ident := sl_ident s + 1, sl_recv := (sl_recv s)(i := sl_recv s i @ x), sl_words := (sl_words s)(i := sl_words s i @ [x])\<rparr>"
    by (simp add: set_conn_def)
  with line_steps2 [OF 1 2]
  have "(line_step calm)\<^sup>*\<^sup>* s ((set_conn i ?h2 s)\<lparr>sl_ident := sl_ident s + 1, sl_recv := (sl_recv s)(i := sl_recv s i @ x), sl_words := (sl_words s)(i := sl_words s i @ [x])\<rparr>)"
    by simp
  moreover have "key_of ?h = key_of h" "key_of ?h2 = key_of h" using f by (simp_all add: key_of_def)
  moreover have "in_packet ?h2 = []" using read_packet_done_buffer [OF h1(1)] ex by simp
  ultimately show ?thesis using h1(3) by (intro exI [of _ ?h2] exI [of _ pkt] exI [of _ "sl_ident s + 1"]) simp
qed

text \<open>Two clients of one port.\<close>

lemma one_port:
  "(line_step calm)\<^sup>*\<^sup>* (line_start (listen_on indet lport bridge_init) ident) s \<Longrightarrow> line_reach calm [lport] s"
proof -
  assume run: "(line_step calm)\<^sup>*\<^sup>* (line_start (listen_on indet lport bridge_init) ident) s"
  have "main_setup good_os indet ''/dev/ttyS0'' 9600 [lport] = Inr (fold (listen_on indet) [lport] bridge_init)"
    by (rule main_setup_ok) (simp_all add: good_os_def)
  then have "main_setup good_os indet ''/dev/ttyS0'' 9600 [lport] = Inr (listen_on indet lport bridge_init)" by simp
  with run show ?thesis unfolding line_reach_def by blast
qed

lemma two_clients:
  fixes ra1 ra2 rp1 rp2 lport indet
  defines "h0 \<equiv> tcp_start (Tcp_server_handler ra1 rp1 lport indet)" and "h1 \<equiv> tcp_start (Tcp_server_handler ra2 rp2 lport indet)"
  shows "\<exists>s. (line_step calm)\<^sup>*\<^sup>* (line_start (listen_on indet lport bridge_init) ident) s \<and>
    tcp_server_handler_list (sl_bridge s) = [h0, h1, blank_handler indet] \<and>
    sl_recv s = (\<lambda>_. []) \<and> sl_words s = (\<lambda>_. []) \<and> sl_taken s = (\<lambda>_. 0) \<and> sl_line s = []"
proof -
  let ?s0 = "line_start (listen_on indet lport bridge_init) ident"
  let ?g1 = "bridge_init\<lparr>tcp_server_handler_list := [h0, blank_handler indet], tcp_server_acceptor_map := [lport \<mapsto> Some 1]\<rparr>"
  let ?g2 = "bridge_init\<lparr>tcp_server_handler_list := [h0, h1, blank_handler indet], tcp_server_acceptor_map := [lport \<mapsto> Some (Suc (Suc 0))]\<rparr>"
  have 1: "line_step calm ?s0 (?s0\<lparr>sl_bridge := ?g1\<rparr>)"
    by (rule line_step.Accepted [of _ lport 0 indet ra1 rp1])
      (simp_all add: line_start_def listen_on_def bridge_init_def tcp_server_accept_handler_def
        Tcp_server_handler_def tcp_start_def read_packet_def h0_def blank_handler_def)
  have 2: "line_step calm (?s0\<lparr>sl_bridge := ?g1\<rparr>) (?s0\<lparr>sl_bridge := ?g1\<rparr>\<lparr>sl_bridge := ?g2\<rparr>)"
    by (rule line_step.Accepted [of _ lport 1 indet ra2 rp2])
      (simp_all add: bridge_init_def tcp_server_accept_handler_def Tcp_server_handler_def tcp_start_def read_packet_def
        h1_def blank_handler_def)
  show ?thesis
    by (intro exI conjI) (rule line_steps2 [OF 1 2], simp_all add: line_start_def)
qed

lemma two_writes:
  assumes "list_all (\<lambda>c. \<not> isspace c) x1" "12 \<le> length x1" "length x1 \<le> 65507"
    "list_all (\<lambda>c. \<not> isspace c) x2" "12 \<le> length x2" "length x2 \<le> 65507"
    "k1 = \<lparr>ec_saddr = ra1, ec_daddr = indet, ec_sport = rp1, ec_dport = lport\<rparr>"
    "k2 = \<lparr>ec_saddr = ra2, ec_daddr = indet, ec_sport = rp2, ec_dport = lport\<rparr>"
  obtains s p1 p2 where "(line_step calm)\<^sup>*\<^sup>* (line_start (listen_on indet lport bridge_init) ident) s" "conn_count s = 3"
    "writing (conn_at s 0) = Some (frame_of p1)" "writing (conn_at s 1) = Some (frame_of p2)" "carries k1 x1 p1" "carries k2 x2 p2"
    "sl_taken s = (\<lambda>_. 0)" "sl_line s = []" "sl_recv s 0 = x1" "sl_recv s 1 = x2"
    "key_of (conn_at s 0) = k1" "key_of (conn_at s 1) = k2" "conn_at s 2 = blank_handler indet" "in_packet (conn_at s 0) = []"
proof -
  let ?h0 = "tcp_start (Tcp_server_handler ra1 rp1 lport indet)" and ?h1 = "tcp_start (Tcp_server_handler ra2 rp2 lport indet)"
  have h: "awaiting_read ?h0" "in_packet ?h0 = []" "posted ?h0 = []" "send_packet_queue ?h0 = []" "key_of ?h0 = k1"
    "awaiting_read ?h1" "in_packet ?h1 = []" "posted ?h1 = []" "send_packet_queue ?h1 = []" "key_of ?h1 = k2"
    by (simp_all add: tcp_start_def read_packet_def Tcp_server_handler_def key_of_def assms(7,8))
  obtain s0 where s0: "(line_step calm)\<^sup>*\<^sup>* (line_start (listen_on indet lport bridge_init) ident) s0"
    "tcp_server_handler_list (sl_bridge s0) = [?h0, ?h1, blank_handler indet]"
    "sl_recv s0 = (\<lambda>_. [])" "sl_words s0 = (\<lambda>_. [])" "sl_taken s0 = (\<lambda>_. 0)" "sl_line s0 = []"
    using two_clients by blast
  have at0: "0 < conn_count s0" "conn_at s0 0 = ?h0" "1 < conn_count s0" "conn_at s0 1 = ?h1" "conn_at s0 2 = blank_handler indet"
    using s0(2) by (simp_all add: conn_at_def)
  obtain h0 p1 u1 where 1: "(line_step calm)\<^sup>*\<^sup>* s0 ((set_conn 0 h0 s0)\<lparr>sl_ident := u1, sl_recv := (sl_recv s0)(0 := sl_recv s0 0 @ x1), sl_words := (sl_words s0)(0 := sl_words s0 0 @ [x1])\<rparr>)"
    "writing h0 = Some (frame_of p1)" "carries k1 x1 p1" "key_of h0 = k1" "in_packet h0 = []"
    using send_steps [OF at0(1,2) h(1-4) assms(1-3), of calm] h(5) by auto
  define s1 where s1: "s1 = (set_conn 0 h0 s0)\<lparr>sl_ident := u1, sl_recv := (sl_recv s0)(0 := sl_recv s0 0 @ x1), sl_words := (sl_words s0)(0 := sl_words s0 0 @ [x1])\<rparr>"
  have c1: "conn_count s1 = 3" using s0(2) by (simp add: s1 set_conn_def)
  have at1: "conn_at s1 0 = h0" "conn_at s1 1 = ?h1" "conn_at s1 2 = blank_handler indet" using at0 by (simp_all add: s1 conn_at_set)
  obtain h1 p2 u2 where 2: "(line_step calm)\<^sup>*\<^sup>* s1 ((set_conn 1 h1 s1)\<lparr>sl_ident := u2, sl_recv := (sl_recv s1)(1 := sl_recv s1 1 @ x2), sl_words := (sl_words s1)(1 := sl_words s1 1 @ [x2])\<rparr>)"
    "writing h1 = Some (frame_of p2)" "carries k2 x2 p2" "key_of h1 = k2"
    using send_steps [OF _ at1(2) h(6-9) assms(4-6), of calm] c1 h(10) by auto
  define s2 where s2: "s2 = (set_conn 1 h1 s1)\<lparr>sl_ident := u2, sl_recv := (sl_recv s1)(1 := sl_recv s1 1 @ x2), sl_words := (sl_words s1)(1 := sl_words s1 1 @ [x2])\<rparr>"
  have run: "(line_step calm)\<^sup>*\<^sup>* (line_start (listen_on indet lport bridge_init) ident) s2"
    using s0(1) 1(1) 2(1) unfolding s1 [symmetric] s2 [symmetric] by (meson rtranclp_trans)
  have c2: "conn_count s2 = 3" using c1 by (simp add: s2 set_conn_def)
  have "conn_at s2 j = (if j = 1 then h1 else conn_at s1 j)" for j using c1 by (simp add: s2 conn_at_set)
  then have "conn_at s2 0 = h0" "conn_at s2 1 = h1" "conn_at s2 2 = blank_handler indet" using at1(1,3) by simp_all
  with that [OF run c2] 1(2-5) 2(2-4) s0(3-6) show thesis by (simp add: s2 s1)
qed

definition take_part :: "nat \<Rightarrow> nat \<Rightarrow> bytes \<Rightarrow> shared_line \<Rightarrow> shared_line" where
  "take_part i n w s = s\<lparr>sl_taken := (sl_taken s)(i := sl_taken s i + n),
     sl_line := sl_line s @ map (Pair i) (take n (drop (sl_taken s i) w))\<rparr>"

lemma take_part_fields [simp]:
  "sl_bridge (take_part i n w s) = sl_bridge s" "sl_recv (take_part i n w s) = sl_recv s"
  "sl_taken (take_part i n w s) = (sl_taken s)(i := sl_taken s i + n)"
  "sl_line (take_part i n w s) = sl_line s @ map (Pair i) (take n (drop (sl_taken s i) w))"
  "conn_at (take_part i n w s) j = conn_at s j"
  by (simp_all add: take_part_def)

lemma take_part_step:
  assumes "i < conn_count s" "writing (conn_at s i) = Some w" "0 < n" "sl_taken s i + n \<le> length w"
  shows "line_step False s (take_part i n w s)"
  unfolding take_part_def by (rule line_step.Internal [OF line_internal.Taken [OF assms]]) simp

lemma mixed_reads:
  assumes "carries k1 x1 p1" "carries k2 x2 p2" "net_connect net (ec_daddr k1) (ec_dport k1)" "sends_all net"
  shows "\<exists>g. serial_reads net [[SLIP_END, SLIP_END], stuff p1 @ stuff p2 @ [SLIP_END]] bridge_init = Inr g \<and>
    tcp_ephemeral_socket_map g = [k1 \<mapsto> [x1 @ p2]]"
proof -
  let ?g = "bridge_init\<lparr>serial_read_buffer_unprocessed := [SLIP_END], serial_reading := True\<rparr>"
  have 1: "serial_read_handler net [SLIP_END, SLIP_END] bridge_init = Inr ?g"
    using decode_two_ends [of "[]"] by (simp add: serial_read_handler_def dispatch_Nil bridge_init_def)
  have c: "carries k1 (x1 @ p2) (p1 @ p2)" using carries_append [OF assms(1)] .
  then have "p1 @ p2 \<noteq> []" by (auto simp: carries_def)
  then have "serial_read_buffer_unprocessed ?g @ stuff p1 @ stuff p2 @ [SLIP_END] = frame_of (p1 @ p2) @ []"
    by (simp add: frame_of_eq)
  from read_frame [OF this c, of net] assms(3)
  have "\<exists>g. serial_read_handler net (stuff p1 @ stuff p2 @ [SLIP_END]) ?g = Inr g \<and>
      tcp_ephemeral_socket_map g = [k1 \<mapsto> [x1 @ p2]]"
    by (simp add: dispatch_carries [OF c assms(4)] bridge_init_def)
  with 1 show ?thesis by auto
qed

lemma mixed_takes:
  assumes "conn_count s = 3" "writing (conn_at s 0) = Some (frame_of p1)" "writing (conn_at s 1) = Some (frame_of p2)"
    "carries k1 x1 p1" "carries k2 x2 p2" "sl_taken s = (\<lambda>_. 0)" "sl_line s = []"
  obtains s' where "(line_step False)\<^sup>*\<^sup>* s s'" "map snd (sl_line s') = [SLIP_END, SLIP_END] @ stuff p1 @ stuff p2 @ [SLIP_END]"
    "sl_recv s' = sl_recv s"
proof -
  let ?w1 = "frame_of p1" and ?w2 = "frame_of p2"
  have p: "p1 \<noteq> []" "p2 \<noteq> []" using assms(4,5) by (auto simp: carries_def)
  have f: "?w1 = SLIP_END # stuff p1 @ [SLIP_END]" "?w2 = SLIP_END # stuff p2 @ [SLIP_END]" using p frame_of_eq by simp_all
  let ?s1 = "take_part 0 1 ?w1 s"
  let ?s2 = "take_part 1 1 ?w2 ?s1"
  let ?s3 = "take_part 0 (length ?w1 - 2) ?w1 ?s2"
  let ?s4 = "take_part 1 (length ?w2 - 1) ?w2 ?s3"
  have "line_step False s ?s1" "line_step False ?s1 ?s2" "line_step False ?s2 ?s3" "line_step False ?s3 ?s4"
    by (rule take_part_step; use assms p f in simp)+
  then have "(line_step False)\<^sup>*\<^sup>* s ?s4" by (meson line_steps2 rtranclp_trans)
  moreover have "map snd (sl_line ?s4) = [SLIP_END, SLIP_END] @ stuff p1 @ stuff p2 @ [SLIP_END]"
    using assms(6,7) f by (simp add: comp_def)
  ultimately show thesis using that by simp
qed

text \<open>C6: Clients can get mixed up.  Each handler writes to the serial port on its own, and a write is taken in parts: when
  two clients send at the same time, the parts can be taken alternately.  For any two clients of a port and any
  data of 12 to 65507 bytes each, without white space, there is a run in which the other side, if it can connect
  and its \<open>send\<close>s take everything, sends the first client's server its data followed by the headers and the data of
  the second client, and the second client's server gets nothing.\<close>

theorem clients_mixed:
  assumes "list_all (\<lambda>c. \<not> isspace c) x1" "12 \<le> length x1" "length x1 \<le> 65507"
    "list_all (\<lambda>c. \<not> isspace c) x2" "12 \<le> length x2" "length x2 \<le> 65507"
    "(ra1, rp1) \<noteq> (ra2, rp2)" "net_connect net indet lport" "sends_all net"
  shows "\<exists>s ds g hdrs. line_reach False [lport] s \<and> sl_recv s 0 = x1 \<and> sl_recv s 1 = x2 \<and>
    concat ds = map snd (sl_line s) \<and> [] \<notin> set ds \<and> serial_reads net ds bridge_init = Inr g \<and> length hdrs = 40 \<and>
    tcp_ephemeral_socket_map g \<lparr>ec_saddr = ra1, ec_daddr = indet, ec_sport = rp1, ec_dport = lport\<rparr> = Some [x1 @ hdrs @ x2] \<and>
    tcp_ephemeral_socket_map g \<lparr>ec_saddr = ra2, ec_daddr = indet, ec_sport = rp2, ec_dport = lport\<rparr> = None"
proof -
  define k1 k2 where k: "k1 = \<lparr>ec_saddr = ra1, ec_daddr = indet, ec_sport = rp1, ec_dport = lport\<rparr>"
    "k2 = \<lparr>ec_saddr = ra2, ec_daddr = indet, ec_sport = rp2, ec_dport = lport\<rparr>"
  obtain s p1 p2 where s: "(line_step False)\<^sup>*\<^sup>* (line_start (listen_on indet lport bridge_init) 0) s" "conn_count s = 3"
    "writing (conn_at s 0) = Some (frame_of p1)" "writing (conn_at s 1) = Some (frame_of p2)" "carries k1 x1 p1" "carries k2 x2 p2"
    "sl_taken s = (\<lambda>_. 0)" "sl_line s = []" "sl_recv s 0 = x1" "sl_recv s 1 = x2"
    by (rule two_writes [OF assms(1-6) k])
  obtain s' where s': "(line_step False)\<^sup>*\<^sup>* s s'" "map snd (sl_line s') = [SLIP_END, SLIP_END] @ stuff p1 @ stuff p2 @ [SLIP_END]"
    "sl_recv s' = sl_recv s"
    by (rule mixed_takes [OF s(2-8)])
  have "line_reach False [lport] s'" by (rule one_port [OF rtranclp_trans [OF s(1) s'(1)]])
  moreover obtain g where "serial_reads net [[SLIP_END, SLIP_END], stuff p1 @ stuff p2 @ [SLIP_END]] bridge_init = Inr g"
    "tcp_ephemeral_socket_map g = [k1 \<mapsto> [x1 @ p2]]"
    using mixed_reads [OF s(5,6) _ assms(9)] assms(8) by (auto simp: k)
  moreover have "p2 = take 40 p2 @ x2" "length (take 40 p2) = 40"
    using s(6) append_take_drop_id [of 40 p2] by (auto simp: carries_def)
  moreover have "k1 \<noteq> k2" using assms(7) by (auto simp: k)
  ultimately show ?thesis
    using s(9,10) s'(2,3) unfolding k [symmetric]
    by (intro exI [of _ s'] exI [of _ "[[SLIP_END, SLIP_END], stuff p1 @ stuff p2 @ [SLIP_END]]"] exI [of _ g] exI [of _ "take 40 p2"]) simp
qed

lemma plain_data: "list_all (\<lambda>c. \<not> isspace c) (replicate 12 (65 :: u8))" "list_all (\<lambda>c. \<not> isspace c) (replicate 12 (66 :: u8))"
  by (simp_all add: isspace_def list_all_iff)

lemma plain_nonspace:
  "nonspace (replicate 12 65) = replicate 12 65" "nonspace (replicate 12 66) = replicate 12 66"
  by (simp_all add: nonspace_def isspace_def)

theorem clients_mixed_witness:
  "\<exists>s ds g hdrs. line_reach False [8888] s \<and> sl_recv s 0 = replicate 12 65 \<and> sl_recv s 1 = replicate 12 66 \<and>
     concat ds = map snd (sl_line s) \<and> serial_reads open_net ds bridge_init = Inr g \<and> length hdrs = 40 \<and>
     tcp_ephemeral_socket_map g \<lparr>ec_saddr = 1, ec_daddr = 9, ec_sport = 5000, ec_dport = 8888\<rparr> =
       Some [replicate 12 65 @ hdrs @ replicate 12 66]"
proof -
  have "12 \<le> length (replicate 12 (65 :: u8))" "length (replicate 12 (65 :: u8)) \<le> 65507"
    "12 \<le> length (replicate 12 (66 :: u8))" "length (replicate 12 (66 :: u8)) \<le> 65507" "(1 :: u32, 5000 :: u16) \<noteq> (1, 5001)" by simp_all
  from clients_mixed [OF plain_data(1) this(1,2) plain_data(2) this(3-5) open_net(2,1), of 8888 9]
  show ?thesis by (elim exE conjE) (intro exI conjI, assumption+)
qed

section \<open>Witnesses\<close>

theorem line_bytes_in_order_witness:
  "\<exists>s ps m. line_reach False [8888] s \<and> sl_recv s 1 = replicate 12 66 \<and> own_bytes 1 (sl_line s) = take m (on_line ps) \<and>
     list_all packet_ok ps \<and>
     concat (map (\<lambda>(k, x, p). x) ps) @ nonspace (in_packet (conn_at s 1)) = replicate 12 66"
proof -
  obtain s p1 p2 where s: "(line_step False)\<^sup>*\<^sup>* (line_start (listen_on 9 8888 bridge_init) 0) s" "conn_count s = 3" "sl_recv s 1 = replicate 12 66"
    by (rule two_writes [of "replicate 12 65" "replicate 12 66" "\<lparr>ec_saddr = 1, ec_daddr = 9, ec_sport = 5000, ec_dport = 8888\<rparr>" 1 9 5000 8888
        "\<lparr>ec_saddr = 1, ec_daddr = 9, ec_sport = 5001, ec_dport = 8888\<rparr>" 1 5001 False 0]) (simp_all add: plain_data)
  have r: "line_reach False [8888] s" using s(1) by (rule one_port)
  have "1 < conn_count s" using s(2) by simp
  moreover have "nonspace (sl_recv s 1) = replicate 12 66" using s(3) by (simp add: plain_nonspace)
  ultimately show ?thesis using line_bytes_in_order [OF r, of 1] s(3) r by metis
qed

text \<open>Two clients that each have a write outstanding, in a run without overlapping writes.\<close>

lemma two_calm:
  obtains s where "line_reach True [8888] s" "sl_recv s 0 = replicate 12 65" "sl_recv s 1 = replicate 12 66" "own_key s 0"
    "key_of (conn_at s 0) = \<lparr>ec_saddr = 1, ec_daddr = 9, ec_sport = 5000, ec_dport = 8888\<rparr>" "\<not> quiet s"
    "\<exists>p. writing (conn_at s 0) = Some (frame_of p) \<and> p \<noteq> []" "sl_taken s = (\<lambda>_. 0)" "sl_line s = []" "conn_count s = 3"
    "in_packet (conn_at s 0) = []"
proof -
  let ?k1 = "\<lparr>ec_saddr = 1, ec_daddr = 9, ec_sport = 5000, ec_dport = 8888\<rparr>" and ?k2 = "\<lparr>ec_saddr = 1, ec_daddr = 9, ec_sport = 5001, ec_dport = 8888\<rparr>"
  obtain s p1 p2 where s: "(line_step True)\<^sup>*\<^sup>* (line_start (listen_on 9 8888 bridge_init) 0) s" "conn_count s = 3"
    "writing (conn_at s 0) = Some (frame_of p1)" "carries ?k1 (replicate 12 65) p1"
    "sl_taken s = (\<lambda>_. 0)" "sl_line s = []" "sl_recv s 0 = replicate 12 65" "sl_recv s 1 = replicate 12 66"
    "key_of (conn_at s 0) = ?k1" "key_of (conn_at s 1) = ?k2" "conn_at s 2 = blank_handler 9" "in_packet (conn_at s 0) = []"
    by (rule two_writes [of "replicate 12 65" "replicate 12 66" ?k1 1 9 5000 8888 ?k2 1 5001 True 0]) (simp_all add: plain_data)
  have r: "line_reach True [8888] s" using s(1) by (rule one_port)
  have own: "own_key s 0" using s(2,9-11) less_Suc_eq numeral_3_eq_3
    by (auto simp: own_key_def key_of_def blank_handler_def Tcp_server_handler_def numeral_2_eq_2)
  obtain P where "line_inv P s" using r by (rule line_inv_reach)
  then have "send_packet_queue (conn_at s 0) \<noteq> []" using queue_head [OF line_invD(2) s(3)] by (metis list.distinct(1))
  then have "\<not> quiet s" using s(2) by (auto simp: quiet_def intro!: exI [of _ 0])
  moreover have "\<exists>p. writing (conn_at s 0) = Some (frame_of p) \<and> p \<noteq> []" using s(3,4) by (auto simp: carries_def)
  ultimately show thesis using that r own s by blast
qed

theorem program_delivers_witness:
  "\<exists>s g rest. line_reach True [8888] s \<and> sl_recv s 0 = replicate 12 65 \<and>
     serial_reads open_net [map snd (sl_line s)] bridge_init = Inr g \<and> sl_line s \<noteq> [] \<and>
     concat (sent_on (tcp_ephemeral_socket_map g) \<lparr>ec_saddr = 1, ec_daddr = 9, ec_sport = 5000, ec_dport = 8888\<rparr>) @ rest =
       replicate 12 65"
proof -
  obtain s p where s: "line_reach True [8888] s" "sl_recv s 0 = replicate 12 65" "own_key s 0"
    "key_of (conn_at s 0) = \<lparr>ec_saddr = 1, ec_daddr = 9, ec_sport = 5000, ec_dport = 8888\<rparr>" "conn_count s = 3"
    "writing (conn_at s 0) = Some (frame_of p)" "p \<noteq> []" "sl_taken s = (\<lambda>_. 0)" "sl_line s = []"
    using two_calm by metis
  let ?w = "frame_of p"
  have w: "0 < length ?w" using frame_of_eq [OF s(7)] by simp
  let ?s = "take_part 0 (length ?w) ?w s"
  have "line_step True s ?s" unfolding take_part_def
    by (rule line_step.Internal [OF line_internal.Taken]) (use s w in \<open>simp_all add: rest_of_def\<close>)
  then have r: "line_reach True [8888] ?s" using s(1) by (blast intro: line_reach_trans)
  have "own_key ?s 0" using s(3) by (simp add: own_key_def)
  moreover have "concat [map snd (sl_line ?s)] @ [] = map snd (sl_line ?s)" by simp
  ultimately obtain g rest where g: "serial_reads open_net [map snd (sl_line ?s)] bridge_init = Inr g"
    "concat (sent_on (tcp_ephemeral_socket_map g) (key_of (conn_at ?s 0))) @ rest = nonspace (sl_recv ?s 0)"
    using program_delivers [OF r _ open_net(1), of "[map snd (sl_line ?s)]" "[]"] open_net(2) by blast
  moreover have "sl_line ?s \<noteq> []" using w s by auto
  moreover have "nonspace (sl_recv ?s 0) = replicate 12 65" using s(2) by (simp add: plain_nonspace)
  ultimately show ?thesis using r s by (intro exI [of _ ?s] exI [of _ g] exI [of _ rest]) simp
qed

lemma two_drained:
  obtains s k s' where "line_reach True [8888] s" "(line_internal True ^^ k) s s'" "0 < k" "quiet s'"
    "line_reach True [8888] s'" "sl_recv s' 0 = replicate 12 65" "sl_recv s' 1 = replicate 12 66" "own_key s' 0"
    "key_of (conn_at s' 0) = \<lparr>ec_saddr = 1, ec_daddr = 9, ec_sport = 5000, ec_dport = 8888\<rparr>" "in_packet (conn_at s' 0) = []"
proof -
  obtain s where s: "line_reach True [8888] s" "sl_recv s 0 = replicate 12 65" "sl_recv s 1 = replicate 12 66" "own_key s 0"
    "key_of (conn_at s 0) = \<lparr>ec_saddr = 1, ec_daddr = 9, ec_sport = 5000, ec_dport = 8888\<rparr>" "\<not> quiet s" "in_packet (conn_at s 0) = []"
    using two_calm by metis
  obtain P F rest where "line_inv P s" "calm_inv P s F rest" using s(1) calm_reach by metis
  then obtain k s' where s': "(line_internal True ^^ k) s s'" "quiet s'" "sl_recv s' = sl_recv s" "conn_count s' = conn_count s"
    "\<And>j. key_of (conn_at s' j) = key_of (conn_at s j)" "\<And>j. in_packet (conn_at s' j) = in_packet (conn_at s j)"
    by (rule line_drains) blast
  have "0 < k" using s' s(6) by (cases k) auto
  moreover have "(line_step True)\<^sup>*\<^sup>* s s'"
    using relpowp_imp_rtranclp [OF s'(1)] by (rule rtranclp_mono [THEN predicate2D, rotated]) (auto intro: line_step.Internal)
  then have "line_reach True [8888] s'" using s(1) by (blast intro: line_reach_trans)
  moreover have "own_key s' 0" using s(4) s'(4,5) by (simp add: own_key_def)
  ultimately show thesis using that s s' by metis
qed


theorem program_delivers_all_witness:
  "\<exists>s g. line_reach True [8888] s \<and> quiet s \<and> sl_recv s 0 = replicate 12 65 \<and> sl_recv s 1 = replicate 12 66 \<and>
     serial_reads open_net (one_by_one (map snd (sl_line s))) bridge_init = Inr g \<and>
     concat (sent_on (tcp_ephemeral_socket_map g) \<lparr>ec_saddr = 1, ec_daddr = 9, ec_sport = 5000, ec_dport = 8888\<rparr>) = replicate 12 65"
proof -
  obtain s where s: "quiet s" "line_reach True [8888] s" "sl_recv s 0 = replicate 12 65" "sl_recv s 1 = replicate 12 66" "own_key s 0"
    "key_of (conn_at s 0) = \<lparr>ec_saddr = 1, ec_daddr = 9, ec_sport = 5000, ec_dport = 8888\<rparr>" "in_packet (conn_at s 0) = []"
    using two_drained by metis
  from program_delivers_all [OF s(2,1) open_net(1)]
  obtain g where "serial_reads open_net (one_by_one (map snd (sl_line s))) bridge_init = Inr g"
    "concat (sent_on (tcp_ephemeral_socket_map g) (key_of (conn_at s 0))) @ nonspace (in_packet (conn_at s 0)) = nonspace (sl_recv s 0)"
    using s(5) by auto
  moreover have "nonspace [] = []" by (simp add: nonspace_def)
  ultimately show ?thesis using s by (intro exI [of _ s] exI [of _ g]) (simp add: plain_nonspace)
qed

end
