(* ===== verification/Ini.thy ===== *)
theory Ini
  imports Prelude
begin

text \<open>
  The INI reader of the program, \<^verbatim>\<open>udptoserial/ini.cpp\<close>, with the compile-time options that
  \<^verbatim>\<open>ini.h\<close> sets: multi-line values, a byte order mark, inline comments introduced by \<open>;\<close>, lines of at
  most 200 characters, and no stop at the first error.

  A C string is a \<^typ>\<open>string\<close> without its terminating null; a pointer into a string is the rest of the
  string or an index.  The handler is a function from the user data to the new user data and whether it
  returned a nonzero value.
\<close>

section \<open>Characters\<close>

definition INI_MAX_LINE :: nat where "INI_MAX_LINE = 200"
definition MAX_SECTION :: nat where "MAX_SECTION = 50"
definition MAX_NAME :: nat where "MAX_NAME = 50"
definition INI_INLINE_COMMENT_PREFIXES :: string where "INI_INLINE_COMMENT_PREFIXES = '';''"

text \<open>\<open>isspace\<close> of the C locale.\<close>

definition is_space :: "char \<Rightarrow> bool" where
  "is_space c \<longleftrightarrow>
     c \<in> {CHR '' '', CHR 0x09, CHR 0x0A, CHR 0x0B, CHR 0x0C, CHR 0x0D}"

definition newline :: char where "newline = CHR 0x0A"

section \<open>Helpers on strings\<close>

definition rstrip :: "string \<Rightarrow> string" where
  "rstrip s = rev (dropWhile is_space (rev s))"

definition lskip :: "string \<Rightarrow> string" where
  "lskip s = dropWhile is_space s"

text \<open>The index where the search stops; \<open>chars\<close> is the empty string for the null pointer.\<close>

fun find_from :: "bool \<Rightarrow> string \<Rightarrow> string \<Rightarrow> nat" where
  "find_from was_space [] chars = 0"
| "find_from was_space (c # s) chars =
     (if c \<notin> set chars \<and> \<not> (was_space \<and> c \<in> set INI_INLINE_COMMENT_PREFIXES)
      then Suc (find_from (is_space c) s chars)
      else 0)"

definition find_chars_or_comment :: "string \<Rightarrow> string \<Rightarrow> nat" where
  "find_chars_or_comment s chars = find_from False s chars"

definition strncpy0 :: "string \<Rightarrow> nat \<Rightarrow> string" where
  "strncpy0 src n = take (n - 1) src"

section \<open>Reading lines\<close>

text \<open>\<open>ini_reader_string\<close>, which behaves as \<open>fgets\<close>: at most \<open>num - 1\<close> characters, up to and including a
  newline.\<close>

fun reader_loop :: "nat \<Rightarrow> string \<Rightarrow> string \<times> string" where
  "reader_loop num [] = ([], [])"
| "reader_loop num (c # s) =
     (if num > 1 then
        (if c = newline then ([c], s)
         else (let (str, rest) = reader_loop (num - 1) s in (c # str, rest)))
      else ([], c # s))"

definition ini_reader_string :: "nat \<Rightarrow> string \<Rightarrow> (string \<times> string) option" where
  "ini_reader_string num stream =
     (if length stream = 0 \<or> num < 2 then None else Some (reader_loop num stream))"

section \<open>The parser\<close>

record 'u ini_state =
  ini_section :: string
  ini_prev_name :: string
  ini_lineno :: nat
  ini_error :: nat
  ini_user :: 'u

type_synonym 'u ini_handler = "'u \<Rightarrow> string \<Rightarrow> string \<Rightarrow> string \<Rightarrow> 'u \<times> bool"

definition note_error :: "'u ini_state \<Rightarrow> 'u ini_state" where
  "note_error st = (if ini_error st = 0 then st\<lparr>ini_error := ini_lineno st\<rparr> else st)"

definition call_handler :: "'u ini_handler \<Rightarrow> string \<Rightarrow> string \<Rightarrow> 'u ini_state \<Rightarrow> 'u ini_state" where
  "call_handler handler name value st =
     (let (u, ok) = handler (ini_user st) (ini_section st) name value;
          st = st\<lparr>ini_user := u\<rparr>
      in if \<not> ok then note_error st else st)"

definition BOM :: string where "BOM = [CHR 0xEF, CHR 0xBB, CHR 0xBF]"

text \<open>A \<open>[section]\<close> line, from behind the bracket.\<close>

definition parse_section :: "string \<Rightarrow> 'u ini_state \<Rightarrow> 'u ini_state" where
  "parse_section s st =
     (let e = find_chars_or_comment s '']''
      in if e < length s \<and> s ! e = CHR '']'' then
           st\<lparr>ini_section := strncpy0 (take e s) MAX_SECTION, ini_prev_name := []\<rparr>
         else note_error st)"

text \<open>A line that must be a pair of a name and a value.\<close>

definition parse_pair :: "'u ini_handler \<Rightarrow> string \<Rightarrow> 'u ini_state \<Rightarrow> 'u ini_state" where
  "parse_pair handler start st =
     (let e = find_chars_or_comment start ''=:''
      in if e < length start \<and> (start ! e = CHR ''='' \<or> start ! e = CHR '':'') then
           (let name = rstrip (take e start);
                value = drop (e + 1) start;
                value = take (find_chars_or_comment value []) value;
                value = rstrip (lskip value)
            in call_handler handler name value (st\<lparr>ini_prev_name := strncpy0 name MAX_NAME\<rparr>))
         else note_error st)"

text \<open>A stripped line; \<open>indented\<close> says that \<open>start\<close> is not at the beginning of the line buffer.\<close>

definition parse_stripped :: "'u ini_handler \<Rightarrow> bool \<Rightarrow> string \<Rightarrow> 'u ini_state \<Rightarrow> 'u ini_state" where
  "parse_stripped handler indented start st =
     (if start \<noteq> [] \<and> (hd start = CHR '';'' \<or> hd start = CHR ''#'') then st
      else if ini_prev_name st \<noteq> [] \<and> start \<noteq> [] \<and> indented then
        call_handler handler (ini_prev_name st) start st
      else if start \<noteq> [] \<and> hd start = CHR ''['' then parse_section (tl start) st
      else if start \<noteq> [] then parse_pair handler start st
      else st)"

text \<open>The body of the loop for one line.  The line buffer is used as a C string, so that a null character in
  the file ends it.\<close>

definition parse_line :: "'u ini_handler \<Rightarrow> string \<Rightarrow> 'u ini_state \<Rightarrow> 'u ini_state" where
  "parse_line handler line st =
     (let st = st\<lparr>ini_lineno := ini_lineno st + 1\<rparr>;
          line = takeWhile (\<lambda>c. c \<noteq> CHR 0x00) line;
          bom = (ini_lineno st = 1 \<and> take 3 line = BOM);
          line' = rstrip (if bom then drop 3 line else line);
          start = lskip line'
      in parse_stripped handler (bom \<or> length start < length line') start st)"

lemma reader_loop_append: "fst (reader_loop num s) @ snd (reader_loop num s) = s"
  by (induction num s rule: reader_loop.induct) (auto simp: case_prod_beta)

lemma reader_progress:
  assumes "ini_reader_string INI_MAX_LINE s = Some (line, rest)"
  shows "length rest < length s"
proof -
  have s: "s \<noteq> []" "reader_loop INI_MAX_LINE s = (line, rest)"
    using assms by (auto simp: ini_reader_string_def split: if_splits)
  then have "line \<noteq> []"
    by (cases s) (auto simp: INI_MAX_LINE_def case_prod_beta split: if_splits)
  moreover have "s = line @ rest" using reader_loop_append [of INI_MAX_LINE s] s(2) by simp
  ultimately show ?thesis by simp
qed

function parse_loop :: "'u ini_handler \<Rightarrow> string \<Rightarrow> 'u ini_state \<Rightarrow> 'u ini_state" where
  "parse_loop handler stream st =
     (case ini_reader_string INI_MAX_LINE stream of
        None \<Rightarrow> st
      | Some (line, rest) \<Rightarrow> parse_loop handler rest (parse_line handler line st))"
  by pat_completeness auto
termination
  by (relation "measure (\<lambda>(_, stream, _). length stream)") (auto dest: reader_progress)

declare parse_loop.simps [simp del]

definition ini_parse_stream :: "'u ini_handler \<Rightarrow> string \<Rightarrow> 'u \<Rightarrow> int \<times> 'u" where
  "ini_parse_stream handler stream user =
     (let st = parse_loop handler stream
            \<lparr>ini_section = [], ini_prev_name = [], ini_lineno = 0, ini_error = 0, ini_user = user\<rparr>
      in (int (ini_error st), ini_user st))"

definition ini_parse_string :: "'u ini_handler \<Rightarrow> string \<Rightarrow> 'u \<Rightarrow> int \<times> 'u" where
  "ini_parse_string handler str user = ini_parse_stream handler str user"

definition ini_parse_file :: "'u ini_handler \<Rightarrow> string \<Rightarrow> 'u \<Rightarrow> int \<times> 'u" where
  "ini_parse_file handler file user = ini_parse_stream handler file user"

text \<open>\<open>fs\<close> gives the contents of the files that can be opened.\<close>

definition ini_parse :: "(string \<rightharpoonup> string) \<Rightarrow> string \<Rightarrow> 'u ini_handler \<Rightarrow> 'u \<Rightarrow> int \<times> 'u" where
  "ini_parse fs filename handler user =
     (case fs filename of
        None \<Rightarrow> (- 1, user)
      | Some file \<Rightarrow> ini_parse_file handler file user)"

section \<open>The parser calls the handler in a fixed order\<close>

text \<open>The calls a text causes: what a handler that only records sees.\<close>

definition record_call :: "(string \<times> string \<times> string) list ini_handler" where
  "record_call u s n v = (u @ [(s, n, v)], True)"

definition ini_calls :: "string \<Rightarrow> (string \<times> string \<times> string) list" where
  "ini_calls src = snd (ini_parse_stream record_call src [])"

definition run_calls :: "'u ini_handler \<Rightarrow> (string \<times> string \<times> string) list \<Rightarrow> 'u \<Rightarrow> 'u" where
  "run_calls handler cs u = fold (\<lambda>(s, n, v) u. fst (handler u s n v)) cs u"

text \<open>A run with any handler and the recording run, side by side.\<close>

definition same_run :: "'u ini_handler \<Rightarrow> 'u \<Rightarrow> 'u ini_state \<Rightarrow>
    (string \<times> string \<times> string) list ini_state \<Rightarrow> bool" where
  "same_run handler u st rec \<longleftrightarrow>
     ini_section st = ini_section rec \<and> ini_prev_name st = ini_prev_name rec \<and>
     ini_lineno st = ini_lineno rec \<and> ini_user st = run_calls handler (ini_user rec) u \<and>
     ((\<forall>u s n v. snd (handler u s n v)) \<longrightarrow> ini_error st = ini_error rec)"

lemma same_run_note_error:
  "same_run handler u st rec \<Longrightarrow> same_run handler u (note_error st) (note_error rec)"
  by (simp add: same_run_def note_error_def)

lemma same_run_call:
  "same_run handler u st rec \<Longrightarrow>
   same_run handler u (call_handler handler n v st) (call_handler record_call n v rec)"
  by (auto simp: same_run_def call_handler_def record_call_def note_error_def run_calls_def Let_def
      case_prod_beta)

lemma same_run_upd:
  assumes "same_run handler u st rec"
  shows "same_run handler u (st\<lparr>ini_lineno := ini_lineno st + 1\<rparr>) (rec\<lparr>ini_lineno := ini_lineno rec + 1\<rparr>)"
    "same_run handler u (st\<lparr>ini_section := x, ini_prev_name := y\<rparr>) (rec\<lparr>ini_section := x, ini_prev_name := y\<rparr>)"
    "same_run handler u (st\<lparr>ini_prev_name := y\<rparr>) (rec\<lparr>ini_prev_name := y\<rparr>)"
  using assms by (simp_all add: same_run_def)

lemma same_run_pair:
  assumes "same_run handler u st rec"
  shows "same_run handler u (parse_pair handler start st) (parse_pair record_call start rec)"
  using assms
  by (auto simp: parse_pair_def Let_def same_run_call same_run_upd same_run_note_error)

lemma same_run_section:
  "same_run handler u st rec \<Longrightarrow> same_run handler u (parse_section s st) (parse_section s rec)"
  by (simp add: parse_section_def Let_def same_run_upd same_run_note_error)

lemma same_run_stripped:
  assumes "same_run handler u st rec"
  shows "same_run handler u (parse_stripped handler i start st) (parse_stripped record_call i start rec)"
proof -
  have "ini_prev_name rec = ini_prev_name st" using assms by (simp add: same_run_def)
  then show ?thesis
    using assms
    by (simp add: parse_stripped_def same_run_call same_run_pair same_run_section)
qed

lemma same_run_line:
  assumes "same_run handler u st rec"
  shows "same_run handler u (parse_line handler line st) (parse_line record_call line rec)"
proof -
  have eq: "ini_lineno rec = ini_lineno st" using assms by (simp add: same_run_def)
  show ?thesis
    unfolding parse_line_def Let_def
    using same_run_stripped [OF same_run_upd(1) [OF assms]] by (simp add: eq)
qed

lemma same_run_loop:
  "same_run handler u st rec \<Longrightarrow>
   same_run handler u (parse_loop handler stream st) (parse_loop record_call stream rec)"
proof (induction handler stream st arbitrary: rec rule: parse_loop.induct)
  case (1 handler stream st)
  show ?case
  proof (cases "ini_reader_string INI_MAX_LINE stream")
    case None
    then show ?thesis using 1(2) by (simp add: parse_loop.simps [of _ stream])
  next
    case (Some lr)
    then show ?thesis
      using 1(1) [OF Some] same_run_line [OF 1(2)]
      by (cases lr) (simp add: parse_loop.simps [of _ stream])
  qed
qed

lemma ini_parse_calls:
  "snd (ini_parse_stream handler src u) = run_calls handler (ini_calls src) u"
  "(\<And>u s n v. snd (handler u s n v)) \<Longrightarrow>
     fst (ini_parse_stream handler src u) = fst (ini_parse_stream record_call src [])"
proof -
  have "same_run handler u
      \<lparr>ini_section = [], ini_prev_name = [], ini_lineno = 0, ini_error = 0, ini_user = u\<rparr>
      \<lparr>ini_section = [], ini_prev_name = [], ini_lineno = 0, ini_error = 0, ini_user = []\<rparr>"
    by (simp add: same_run_def run_calls_def)
  from same_run_loop [OF this, of src]
  show "snd (ini_parse_stream handler src u) = run_calls handler (ini_calls src) u"
    "(\<And>u s n v. snd (handler u s n v)) \<Longrightarrow>
       fst (ini_parse_stream handler src u) = fst (ini_parse_stream record_call src [])"
    by (simp_all add: same_run_def ini_parse_stream_def ini_calls_def Let_def)
qed

section \<open>Reading what was written\<close>

definition ini_line :: "string \<times> string \<Rightarrow> string" where
  "ini_line p = fst p @ '' = '' @ snd p"

definition ini_print_section :: "string \<times> (string \<times> string) list \<Rightarrow> string" where
  "ini_print_section s =
     (CHR ''['' # fst s @ [CHR '']'', newline]) @ concat (map (\<lambda>p. ini_line p @ [newline]) (snd s))"

definition ini_print :: "(string \<times> (string \<times> string) list) list \<Rightarrow> string" where
  "ini_print cfg = concat (map ini_print_section cfg)"

definition wf_section :: "string \<Rightarrow> bool" where
  "wf_section s \<longleftrightarrow> length s < MAX_SECTION \<and> set s \<inter> {CHR '']'', CHR '';'', newline, CHR 0x00} = {}"

definition wf_pair :: "string \<times> string \<Rightarrow> bool" where
  "wf_pair p \<longleftrightarrow>
     fst p \<noteq> [] \<and> hd (fst p) \<notin> {CHR ''#'', CHR ''[''} \<and>
     list_all (\<lambda>c. \<not> is_space c \<and> c \<notin> {CHR ''='', CHR '':'', CHR '';'', CHR 0x00}) (fst p) \<and>
     set (snd p) \<inter> {CHR '';'', newline, CHR 0x00} = {} \<and>
     (snd p \<noteq> [] \<longrightarrow> \<not> is_space (hd (snd p)) \<and> \<not> is_space (last (snd p))) \<and>
     length (ini_line p) < INI_MAX_LINE - 1"

definition wf_ini :: "(string \<times> (string \<times> string) list) list \<Rightarrow> bool" where
  "wf_ini cfg \<longleftrightarrow> list_all (\<lambda>s. wf_section (fst s) \<and> list_all wf_pair (snd s)) cfg"

definition ini_entries :: "(string \<times> (string \<times> string) list) list \<Rightarrow> (string \<times> string \<times> string) list" where
  "ini_entries cfg = concat (map (\<lambda>s. map (\<lambda>p. (fst s, fst p, snd p)) (snd s)) cfg)"

lemma reader_loop_line:
  "newline \<notin> set l \<Longrightarrow> length l + 1 < num \<Longrightarrow> reader_loop num (l @ newline # rest) = (l @ [newline], rest)"
  by (induction l arbitrary: num) auto

lemma parse_loop_line:
  assumes "newline \<notin> set l" "length l < INI_MAX_LINE - 1"
  shows "parse_loop handler (l @ newline # rest) st =
         parse_loop handler rest (parse_line handler (l @ [newline]) st)"
proof -
  have "ini_reader_string INI_MAX_LINE (l @ newline # rest) = Some (l @ [newline], rest)"
    using assms by (simp add: ini_reader_string_def reader_loop_line INI_MAX_LINE_def)
  then show ?thesis by (simp add: parse_loop.simps [of _ "l @ newline # rest"])
qed

lemma space_chars [simp]: "is_space newline" "is_space (CHR '' '')"
  by (simp_all add: is_space_def newline_def)

lemma rstrip_snoc [simp]: "is_space c \<Longrightarrow> rstrip (s @ [c]) = rstrip s"
  by (simp add: rstrip_def)

lemma rstrip_id [simp]: "s = [] \<or> \<not> is_space (last s) \<Longrightarrow> rstrip s = s"
  by (cases s rule: rev_cases) (auto simp: rstrip_def)

lemma lskip_id [simp]: "s = [] \<or> \<not> is_space (hd s) \<Longrightarrow> lskip s = s"
  by (cases s) (auto simp: lskip_def)

lemma find_from_stop:
  "list_all (\<lambda>c. c \<notin> set chars \<and> c \<noteq> CHR '';'') p \<Longrightarrow> c \<in> set chars \<Longrightarrow>
   find_from w (p @ c # q) chars = length p"
  by (induction p arbitrary: w) (auto simp: INI_INLINE_COMMENT_PREFIXES_def)

lemma find_from_all:
  "CHR '';'' \<notin> set p \<Longrightarrow> find_from w p [] = length p"
  by (induction p arbitrary: w) (auto simp: INI_INLINE_COMMENT_PREFIXES_def)

lemma lskip_space [simp]: "is_space c \<Longrightarrow> lskip (c # s) = lskip s"
  by (simp add: lskip_def)

lemma rstrip_hd: "\<not> is_space c \<Longrightarrow> rstrip (c # l) \<noteq> [] \<and> hd (rstrip (c # l)) = c"
proof (induction l rule: rev_induct)
  case (snoc x xs)
  show ?case
  proof (cases "is_space x")
    case True
    then have "rstrip (c # xs @ [x]) = rstrip (c # xs)" using rstrip_snoc [of x "c # xs"] by simp
    then show ?thesis using snoc by simp
  qed (simp add: rstrip_def)
qed (simp add: rstrip_def)

lemma parse_line_plain:
  assumes "l \<noteq> []" "\<not> is_space (hd l)" "hd l \<noteq> CHR 0xEF \<or> ini_lineno st > 0" "CHR 0x00 \<notin> set l"
  shows "parse_line handler (l @ [newline]) st =
    parse_stripped handler False (rstrip l) (st\<lparr>ini_lineno := ini_lineno st + 1\<rparr>)"
proof -
  obtain c l' where l: "l = c # l'" using assms(1) by (cases l) auto
  have nbom: "\<not> (ini_lineno st = 0 \<and> take 3 (l @ [newline]) = BOM)"
    using assms(3) l by (auto simp: BOM_def take_Cons')
  have all: "takeWhile (\<lambda>c. c \<noteq> CHR 0x00) (l @ [newline]) = l @ [newline]"
    using assms(4) by (intro takeWhile_eq_all_conv [THEN iffD2]) (auto simp: newline_def)
  have "lskip (rstrip l) = rstrip l" using rstrip_hd [of c l'] assms(2) l by simp
  then show ?thesis unfolding parse_line_def Let_def all using nbom by auto
qed

lemma parse_line_section:
  assumes "wf_section s"
  shows "parse_line handler ((CHR ''['' # s @ [CHR '']'']) @ [newline]) st =
    st\<lparr>ini_lineno := ini_lineno st + 1, ini_section := s, ini_prev_name := []\<rparr>"
proof -
  have br: "\<not> is_space (CHR ''['')" "\<not> is_space (CHR '']'')" by (simp_all add: is_space_def)
  have "find_chars_or_comment (s @ [CHR '']'']) '']'' = length s"
    unfolding find_chars_or_comment_def
    by (rule find_from_stop) (use assms in \<open>auto simp: wf_section_def list_all_iff\<close>)
  then have "parse_section (s @ [CHR '']'']) (st\<lparr>ini_lineno := ini_lineno st + 1\<rparr>) =
      st\<lparr>ini_lineno := ini_lineno st + 1, ini_section := s, ini_prev_name := []\<rparr>"
    using assms by (simp add: parse_section_def strncpy0_def wf_section_def MAX_SECTION_def)
  then show ?thesis
    using br assms by (subst parse_line_plain) (auto simp: parse_stripped_def wf_section_def)
qed

lemma parse_pair_line:
  assumes "wf_pair p"
  shows "parse_pair handler (rstrip (ini_line p)) st =
    call_handler handler (fst p) (snd p) (st\<lparr>ini_prev_name := strncpy0 (fst p) MAX_NAME\<rparr>)"
proof -
  obtain n v where p: "p = (n, v)" by (cases p)
  note wf = assms [unfolded wf_pair_def p fst_conv snd_conv]
  have eq: "\<not> is_space (CHR ''='')" by (simp add: is_space_def)
  let ?tail = "if v = [] then [] else CHR '' '' # v"
  have strip: "rstrip (ini_line p) = (n @ '' '') @ CHR ''='' # ?tail"
  proof (cases "v = []")
    case True
    have "rstrip ((n @ '' ='') @ [CHR '' '']) = n @ '' =''" using eq by (subst rstrip_snoc) simp_all
    then show ?thesis using True p by (simp add: ini_line_def)
  next
    case False
    then show ?thesis using wf p by (simp add: ini_line_def)
  qed
  have e: "find_chars_or_comment ((n @ '' '') @ CHR ''='' # ?tail) ''=:'' = length n + 1"
    unfolding find_chars_or_comment_def
    using find_from_stop [of "''=:''" "n @ '' ''" "CHR ''=''" False ?tail] wf
    by (fastforce simp: list_all_iff)
  have "n = [] \<or> \<not> is_space (last n)" using wf by (auto simp: list_all_iff)
  then have name: "rstrip (n @ '' '') = n" by simp
  have val: "rstrip (lskip (take (find_chars_or_comment ?tail []) ?tail)) = v"
    using wf find_from_all [of ?tail False]
    by (auto simp: find_chars_or_comment_def)
  show ?thesis
    unfolding strip parse_pair_def Let_def e using name val p by (simp add: nth_append)
qed

lemma parse_line_pair:
  assumes "wf_pair p" "ini_lineno st > 0"
  shows "parse_line handler (ini_line p @ [newline]) st =
    call_handler handler (fst p) (snd p)
      (st\<lparr>ini_lineno := ini_lineno st + 1, ini_prev_name := strncpy0 (fst p) MAX_NAME\<rparr>)"
proof -
  note wf = assms(1) [unfolded wf_pair_def]
  obtain c n where n: "fst p = c # n" using wf by (cases "fst p") auto
  have c: "\<not> is_space c" "c \<notin> {CHR ''#'', CHR ''['', CHR '';''}" using wf n by auto
  have l: "ini_line p \<noteq> []" "hd (ini_line p) = c" using n by (simp_all add: ini_line_def)
  have nul: "CHR 0x00 \<notin> set (ini_line p)" using wf by (auto simp: ini_line_def list_all_iff)
  have "rstrip (ini_line p) \<noteq> [] \<and> hd (rstrip (ini_line p)) = c"
    using rstrip_hd [OF c(1)] n by (simp add: ini_line_def)
  then show ?thesis
    using l(2) c assms(2)
    by (simp add: parse_line_plain [OF l(1) _ _ nul] parse_pair_line [OF assms(1)] parse_stripped_def)
qed

lemma call_record:
  "call_handler record_call n v st = st\<lparr>ini_user := ini_user st @ [(ini_section st, n, v)]\<rparr>"
  by (simp add: call_handler_def record_call_def)

lemma ini_line_newline: "wf_pair p \<Longrightarrow> newline \<notin> set (ini_line p) \<and> length (ini_line p) < INI_MAX_LINE - 1"
  by (auto simp: wf_pair_def ini_line_def list_all_iff newline_def is_space_def)

text \<open>What is known of the state: nothing went wrong and these are the calls so far.\<close>

definition clean :: "(string \<times> string \<times> string) list \<Rightarrow> (string \<times> string \<times> string) list ini_state \<Rightarrow> bool" where
  "clean cs st \<longleftrightarrow> ini_error st = 0 \<and> ini_user st = cs"

lemma parse_loop_pairs:
  assumes "list_all wf_pair ps" "clean cs st" "ini_lineno st > 0" "ini_section st = s"
  shows "\<exists>st'. parse_loop record_call (concat (map (\<lambda>p. ini_line p @ [newline]) ps) @ rest) st =
      parse_loop record_call rest st' \<and> clean (cs @ map (\<lambda>p. (s, fst p, snd p)) ps) st' \<and> ini_lineno st' > 0"
  using assms
proof (induction ps arbitrary: cs st)
  case Nil
  then show ?case by auto
next
  case (Cons p ps)
  let ?st = "parse_line record_call (ini_line p @ [newline]) st"
  let ?r = "concat (map (\<lambda>p. ini_line p @ [newline]) ps) @ rest"
  have "parse_loop record_call (ini_line p @ newline # ?r) st = parse_loop record_call ?r ?st"
    using parse_loop_line [of "ini_line p" record_call ?r st] ini_line_newline [of p] Cons.prems(1) by simp
  moreover have "clean (cs @ [(s, fst p, snd p)]) ?st" "ini_lineno ?st > 0" "ini_section ?st = s"
    using parse_line_pair [of p st] Cons.prems by (simp_all add: call_record clean_def)
  ultimately show ?case
    using Cons.IH [of "cs @ [(s, fst p, snd p)]" ?st] Cons.prems(1) by simp
qed

lemma parse_loop_sections:
  assumes "wf_ini cfg" "clean cs st"
  shows "\<exists>st'. parse_loop record_call (ini_print cfg) st = st' \<and> clean (cs @ ini_entries cfg) st'"
  using assms
proof (induction cfg arbitrary: cs st)
  case Nil
  then show ?case
    by (simp add: ini_print_def ini_entries_def parse_loop.simps [of _ "[]"] ini_reader_string_def)
next
  case (Cons sec cfg)
  obtain s ps where sec: "sec = (s, ps)" by (cases sec)
  have wf: "wf_section s" "list_all wf_pair ps" "wf_ini cfg"
    using Cons.prems(1) sec by (simp_all add: wf_ini_def)
  let ?h = "CHR ''['' # s @ [CHR '']'']"
  let ?st = "parse_line record_call (?h @ [newline]) st"
  let ?r = "concat (map (\<lambda>p. ini_line p @ [newline]) ps) @ ini_print cfg"
  have "newline \<notin> set ?h" "length ?h < INI_MAX_LINE - 1"
    using wf(1) by (auto simp: wf_section_def newline_def MAX_SECTION_def INI_MAX_LINE_def)
  from parse_loop_line [OF this, of record_call ?r st]
  have step: "parse_loop record_call (ini_print (sec # cfg)) st = parse_loop record_call ?r ?st"
    using sec by (simp add: ini_print_def ini_print_section_def)
  have "clean cs ?st" "ini_lineno ?st > 0" "ini_section ?st = s"
    using parse_line_section [OF wf(1), of record_call st] Cons.prems(2) by (simp_all add: clean_def)
  from parse_loop_pairs [OF wf(2) this, of "ini_print cfg"] obtain st1 where
    "parse_loop record_call ?r ?st = parse_loop record_call (ini_print cfg) st1"
    "clean (cs @ map (\<lambda>p. (s, fst p, snd p)) ps) st1" by blast
  with Cons.IH [OF wf(3)] step sec show ?case by (fastforce simp: ini_entries_def)
qed

lemma ini_print_parses:
  assumes "wf_ini cfg"
  shows "ini_calls (ini_print cfg) = ini_entries cfg \<and>
    snd (ini_parse_stream handler (ini_print cfg) u) = run_calls handler (ini_entries cfg) u \<and>
    ((\<forall>u s n v. snd (handler u s n v)) \<longrightarrow> fst (ini_parse_stream handler (ini_print cfg) u) = 0)"
proof -
  let ?st = "\<lparr>ini_section = [], ini_prev_name = [], ini_lineno = 0, ini_error = 0, ini_user = []\<rparr>"
  have "clean [] ?st" by (simp add: clean_def)
  from parse_loop_sections [OF assms this]
  have "clean (ini_entries cfg) (parse_loop record_call (ini_print cfg) ?st)" by simp
  then have "ini_calls (ini_print cfg) = ini_entries cfg"
    "fst (ini_parse_stream record_call (ini_print cfg) []) = 0"
    by (simp_all add: clean_def ini_calls_def ini_parse_stream_def Let_def)
  then show ?thesis using ini_parse_calls [of handler "ini_print cfg" u] by auto
qed

text \<open>C28: Reading what was written.  Take a configuration of sections with name and value pairs, printed one
  per line as \<open>name = value\<close>, in which no null character, newline or \<open>;\<close> occurs, section names have less than
  50 characters and no \<open>]\<close>, names are not empty, have no white space, \<open>=\<close> or \<open>:\<close> and do not begin with \<open>#\<close> or
  \<open>[\<close>, values have no white space at either end, and every line has less than 199 characters.  A handler sees
  exactly the entries of the configuration, in order, each with its section, and if it accepts everything the
  parser reports no error.\<close>

theorem ini_roundtrip:
  assumes "wf_ini cfg"
  shows "ini_calls (ini_print cfg) = ini_entries cfg \<and>
    snd (ini_parse_stream handler (ini_print cfg) u) = run_calls handler (ini_entries cfg) u \<and>
    ((\<forall>u s n v. snd (handler u s n v)) \<longrightarrow> fst (ini_parse_stream handler (ini_print cfg) u) = 0)"
  using assms by (rule ini_print_parses)

theorem ini_roundtrip_witness:
  "ini_calls (ini_print [(''udp ports'', [(''port1'', ''4000''), (''port2'', ''4001'')])]) =
   [(''udp ports'', ''port1'', ''4000''), (''udp ports'', ''port2'', ''4001'')]"
proof -
  have "wf_ini [(''udp ports'', [(''port1'', ''4000''), (''port2'', ''4001'')])]"
    by (simp add: wf_ini_def wf_section_def wf_pair_def ini_line_def is_space_def newline_def
        MAX_SECTION_def INI_MAX_LINE_def)
  from ini_roundtrip [OF this, of record_call "[]"] show ?thesis by (simp add: ini_entries_def)
qed

end
