(* ===== verification/Configuration.thy ===== *)
theory Configuration
  imports Ini
begin

text \<open>
  The program's configuration, \<^verbatim>\<open>udptoserial/Configuration.cpp\<close>: the INI handler that fills a
  temporary structure and the constructor that reads the file.  An \<open>atoi\<close> of a number that is no \<open>int\<close> is
  undefined: the handler then has no structure to go on with, and the constructor gives the error
  \<open>Config_undefined\<close>.  The file system is the parameter \<open>fs\<close>.
\<close>

section \<open>The code\<close>

definition CONFIG_UDP_PORT_COUNT_MAX :: nat where "CONFIG_UDP_PORT_COUNT_MAX = 5"

text \<open>\<open>atoi\<close> of the C library: the number the text begins with, if it is an \<open>int\<close>.\<close>

definition is_digit :: "char \<Rightarrow> bool" where
  "is_digit c \<longleftrightarrow> 48 \<le> (of_char c :: nat) \<and> of_char c \<le> (57 :: nat)"

fun atoi_digits :: "string \<Rightarrow> int \<Rightarrow> int" where
  "atoi_digits [] n = n"
| "atoi_digits (c # s) n = (if is_digit c then atoi_digits s (10 * n + (of_char c - 48)) else n)"

definition atoi_value :: "string \<Rightarrow> int" where
  "atoi_value s =
     (case lskip s of
        [] \<Rightarrow> 0
      | c # r \<Rightarrow>
          (if c = CHR ''-'' then - atoi_digits r 0
           else if c = CHR ''+'' then atoi_digits r 0
           else atoi_digits (c # r) 0))"

definition atoi :: "string \<Rightarrow> int option" where
  "atoi s = (let n = atoi_value s in if - (2 ^ 31) \<le> n \<and> n < 2 ^ 31 then Some n else None)"

record configuration_tmp =
  ct_baud_rate :: int
  ct_throttle_baud_rate :: int
  ct_serial_port_name :: "string option"
  ct_udp_port_count :: nat
  ct_udp_port :: "int list"
  ct_localIP :: "string option"
  ct_remoteIP :: "string option"

definition config_handler :: "configuration_tmp option ini_handler" where
  "config_handler user section name value =
     (case user of
        None \<Rightarrow> (None, False)
      | Some pconfig \<Rightarrow>
          (case (if section = ''serial port'' \<and> name = ''baudrate''
                 then map_option (\<lambda>n. pconfig\<lparr>ct_baud_rate := n\<rparr>) (atoi value) else Some pconfig) of
             None \<Rightarrow> (None, False)
           | Some pconfig \<Rightarrow>
               if section = ''serial port'' \<and> name = ''throttle'' then
                 (map_option (\<lambda>n. pconfig\<lparr>ct_throttle_baud_rate := n\<rparr>) (atoi value), True)
               else if section = ''serial port'' \<and> name = ''name'' then
                 (Some (pconfig\<lparr>ct_serial_port_name := Some value\<rparr>), True)
               else if section = ''network'' \<and> name = ''local_ip'' then
                 (Some (pconfig\<lparr>ct_localIP := Some value\<rparr>), True)
               else if section = ''network'' \<and> name = ''remote_ip'' then
                 (Some (pconfig\<lparr>ct_remoteIP := Some value\<rparr>), True)
               else if section = ''udp ports'' \<and> take 4 name = ''port'' then
                 (if ct_udp_port_count pconfig < CONFIG_UDP_PORT_COUNT_MAX then
                    (map_option (\<lambda>n. pconfig\<lparr>ct_udp_port := (ct_udp_port pconfig)[ct_udp_port_count pconfig := n],
                                             ct_udp_port_count := ct_udp_port_count pconfig + 1\<rparr>) (atoi value), True)
                  else (Some pconfig, True))
               else (Some pconfig, False)))"

record configuration =
  serial_port_name :: string
  baud_rate :: u32
  throttle_baud_rate :: u32
  port_numbers :: "u16 list"
  local_ip :: string
  remote_ip :: string

datatype config_error = Config_runtime_error | Config_undefined

definition config_zero :: configuration_tmp where
  "config_zero =
     \<lparr>ct_baud_rate = 0, ct_throttle_baud_rate = 0, ct_serial_port_name = None,
      ct_udp_port_count = 0, ct_udp_port = replicate CONFIG_UDP_PORT_COUNT_MAX 0,
      ct_localIP = None, ct_remoteIP = None\<rparr>"

definition Configuration :: "(string \<rightharpoonup> string) \<Rightarrow> string \<Rightarrow> config_error + configuration" where
  "Configuration fs filename =
     (let this = \<lparr>serial_port_name = [], baud_rate = 9600, throttle_baud_rate = 0, port_numbers = [],
                  local_ip = [], remote_ip = []\<rparr>;
          (ret, user) = ini_parse fs filename config_handler (Some config_zero)
      in case user of
           None \<Rightarrow> Inl Config_undefined
         | Some config \<Rightarrow>
             if ret < 0 then Inl Config_runtime_error
             else
               (let this = (case ct_serial_port_name config of
                              None \<Rightarrow> this | Some n \<Rightarrow> this\<lparr>serial_port_name := n\<rparr>);
                    this = (case ct_localIP config of None \<Rightarrow> this | Some ip \<Rightarrow> this\<lparr>local_ip := ip\<rparr>);
                    this = (case ct_remoteIP config of None \<Rightarrow> this | Some ip \<Rightarrow> this\<lparr>remote_ip := ip\<rparr>);
                    this = this\<lparr>baud_rate := word_of_int (ct_baud_rate config)\<rparr>;
                    this = this\<lparr>throttle_baud_rate := word_of_int (ct_throttle_baud_rate config)\<rparr>
                in Inr (this\<lparr>port_numbers := port_numbers this @
                             map word_of_int (take (ct_udp_port_count config) (ct_udp_port config))\<rparr>)))"

section \<open>What the handler collects\<close>

type_synonym ini_call = "string \<times> string \<times> string"

text \<open>The values given to a name, and to all the names that begin with \<open>port\<close>.\<close>

definition values_of :: "string \<Rightarrow> string \<Rightarrow> ini_call list \<Rightarrow> string list" where
  "values_of s n cs = map (\<lambda>(_, _, v). v) (filter (\<lambda>(s', n', _). s' = s \<and> n' = n) cs)"

definition port_values :: "ini_call list \<Rightarrow> string list" where
  "port_values cs = map (\<lambda>(_, _, v). v) (filter (\<lambda>(s', n', _). s' = ''udp ports'' \<and> take 4 n' = ''port'') cs)"

definition last_or :: "'a \<Rightarrow> 'a list \<Rightarrow> 'a" where
  "last_or d xs = (if xs = [] then d else last xs)"

text \<open>The texts that are converted to numbers, and those that can be.\<close>

definition config_numbers :: "ini_call list \<Rightarrow> string list" where
  "config_numbers cs = values_of ''serial port'' ''baudrate'' cs @ values_of ''serial port'' ''throttle'' cs @
     take 5 (port_values cs)"

definition fits_int :: "string \<Rightarrow> bool" where
  "fits_int v \<longleftrightarrow> - (2 ^ 31) \<le> atoi_value v \<and> atoi_value v < 2 ^ 31"

lemma atoi_eq: "atoi v = (if fits_int v then Some (atoi_value v) else None)"
  by (auto simp: atoi_def fits_int_def Let_def)

definition collected_tmp :: "ini_call list \<Rightarrow> configuration_tmp \<Rightarrow> bool" where
  "collected_tmp cs t \<longleftrightarrow>
     ct_baud_rate t = last_or 0 (map atoi_value (values_of ''serial port'' ''baudrate'' cs)) \<and>
     ct_throttle_baud_rate t = last_or 0 (map atoi_value (values_of ''serial port'' ''throttle'' cs)) \<and>
     ct_serial_port_name t = last_or None (map Some (values_of ''serial port'' ''name'' cs)) \<and>
     ct_localIP t = last_or None (map Some (values_of ''network'' ''local_ip'' cs)) \<and>
     ct_remoteIP t = last_or None (map Some (values_of ''network'' ''remote_ip'' cs)) \<and>
     ct_udp_port_count t = min 5 (length (port_values cs)) \<and> length (ct_udp_port t) = 5 \<and>
     take (min 5 (length (port_values cs))) (ct_udp_port t) = map atoi_value (take 5 (port_values cs))"

definition collected :: "ini_call list \<Rightarrow> configuration_tmp option \<Rightarrow> bool" where
  "collected cs r \<longleftrightarrow>
     (if list_all fits_int (config_numbers cs) then \<exists>t. r = Some t \<and> collected_tmp cs t else r = None)"

lemma values_of_snoc [simp]:
  "values_of s n (cs @ [(s', n', v)]) = values_of s n cs @ (if s' = s \<and> n' = n then [v] else [])"
  by (simp add: values_of_def)

lemma port_values_snoc [simp]:
  "port_values (cs @ [(s', n', v)]) =
     port_values cs @ (if s' = ''udp ports'' \<and> take 4 n' = ''port'' then [v] else [])"
  by (simp add: port_values_def)

lemma last_or_snoc [simp]: "last_or d (xs @ [x]) = x" "last_or d [] = d"
  by (simp_all add: last_or_def)

text \<open>What a call adds to the numbers, and that it stops the handler if what it adds does not fit.\<close>

lemma config_numbers_snoc:
  "list_all fits_int (config_numbers (cs @ [(s, n, v)])) \<longleftrightarrow> list_all fits_int (config_numbers cs) \<and>
     (s = ''serial port'' \<and> n \<in> {''baudrate'', ''throttle''} \<or>
      s = ''udp ports'' \<and> take 4 n = ''port'' \<and> length (port_values cs) < 5 \<longrightarrow> fits_int v)"
  by (auto simp: config_numbers_def take_Cons')

lemma handler_port:
  assumes "s = ''udp ports'' \<and> take 4 n = ''port''"
  shows "fst (config_handler (Some t) s n v) =
    (if ct_udp_port_count t < 5
     then map_option (\<lambda>i. t\<lparr>ct_udp_port := (ct_udp_port t)[ct_udp_port_count t := i],
            ct_udp_port_count := ct_udp_port_count t + 1\<rparr>) (atoi v) else Some t)"
  using assms by (simp add: config_handler_def CONFIG_UDP_PORT_COUNT_MAX_def)

lemma handler_number:
  "fst (config_handler (Some t) ''serial port'' ''baudrate'' v) = map_option (\<lambda>n. t\<lparr>ct_baud_rate := n\<rparr>) (atoi v)"
  "fst (config_handler (Some t) ''serial port'' ''throttle'' v) =
     map_option (\<lambda>n. t\<lparr>ct_throttle_baud_rate := n\<rparr>) (atoi v)"
  by (cases "atoi v"; simp add: config_handler_def)+

lemma handler_other:
  assumes "\<not> (s = ''udp ports'' \<and> take 4 n = ''port'')" "\<not> (s = ''serial port'' \<and> n \<in> {''baudrate'', ''throttle''})"
  shows "fst (config_handler (Some t) s n v) =
    Some (t\<lparr>ct_serial_port_name := (if s = ''serial port'' \<and> n = ''name'' then Some v else ct_serial_port_name t),
            ct_localIP := (if s = ''network'' \<and> n = ''local_ip'' then Some v else ct_localIP t),
            ct_remoteIP := (if s = ''network'' \<and> n = ''remote_ip'' then Some v else ct_remoteIP t)\<rparr>)"
  using assms by (auto simp: config_handler_def)

lemma collected_port:
  assumes "collected_tmp cs t" "s = ''udp ports'' \<and> take 4 n = ''port''" "length (port_values cs) < 5 \<longrightarrow> fits_int v"
  shows "\<exists>t'. fst (config_handler (Some t) s n v) = Some t' \<and> collected_tmp (cs @ [(s, n, v)]) t'"
proof (cases "length (port_values cs) < 5")
  case len: True
  let ?k = "length (port_values cs)"
  have k: "ct_udp_port_count t = ?k" "length (ct_udp_port t) = 5"
    "take ?k (ct_udp_port t) = map atoi_value (port_values cs)"
    using assms(1) len by (auto simp: collected_tmp_def)
  have "take (Suc ?k) ((ct_udp_port t)[?k := atoi_value v]) = map atoi_value (port_values cs) @ [atoi_value v]"
    using k len by (simp add: take_Suc_conv_app_nth)
  then show ?thesis unfolding handler_port [OF assms(2)] using assms len k by (simp add: collected_tmp_def atoi_eq)
next
  case False
  then show ?thesis unfolding handler_port [OF assms(2)] using assms by (auto simp: collected_tmp_def)
qed

lemma collected_Some:
  assumes "collected_tmp cs t" "list_all fits_int (config_numbers (cs @ [(s, n, v)]))"
  shows "\<exists>t'. fst (config_handler (Some t) s n v) = Some t' \<and> collected_tmp (cs @ [(s, n, v)]) t'"
proof -
  note fits = assms(2) [unfolded config_numbers_snoc]
  consider (port) "s = ''udp ports'' \<and> take 4 n = ''port''" | (baud) "s = ''serial port''" "n = ''baudrate''"
    | (throttle) "s = ''serial port''" "n = ''throttle''"
    | (other) "\<not> (s = ''udp ports'' \<and> take 4 n = ''port'')" "\<not> (s = ''serial port'' \<and> n \<in> {''baudrate'', ''throttle''})"
    by auto
  then show ?thesis
  proof cases
    case port
    then show ?thesis using collected_port [OF assms(1) port, of v] fits by blast
  next
    case baud
    then show ?thesis using assms(1) fits by (simp add: handler_number atoi_eq collected_tmp_def)
  next
    case throttle
    then show ?thesis using assms(1) fits by (simp add: handler_number atoi_eq collected_tmp_def)
  next
    case other
    then have "port_values (cs @ [(s, n, v)]) = port_values cs"
      "values_of ''serial port'' ''baudrate'' (cs @ [(s, n, v)]) = values_of ''serial port'' ''baudrate'' cs"
      "values_of ''serial port'' ''throttle'' (cs @ [(s, n, v)]) = values_of ''serial port'' ''throttle'' cs" by auto
    then show ?thesis unfolding handler_other [OF other] using assms(1) unfolding collected_tmp_def by simp
  qed
qed

lemma collected_step:
  assumes "collected cs r"
  shows "collected (cs @ [(s, n, v)]) (fst (config_handler r s n v))"
proof (cases r)
  case None
  then show ?thesis
    using assms by (auto simp: collected_def config_numbers_snoc config_handler_def split: if_splits)
next
  case (Some t)
  then have t: "collected_tmp cs t" "list_all fits_int (config_numbers cs)"
    using assms by (auto simp: collected_def split: if_splits)
  show ?thesis
  proof (cases "list_all fits_int (config_numbers (cs @ [(s, n, v)]))")
    case True
    then show ?thesis using collected_Some [OF t(1)] Some by (simp add: collected_def)
  next
    case False
    then have f: "\<not> fits_int v" "s = ''serial port'' \<and> n \<in> {''baudrate'', ''throttle''} \<or>
        s = ''udp ports'' \<and> take 4 n = ''port'' \<and> length (port_values cs) < 5"
      using t(2) by (auto simp: config_numbers_snoc)
    have "ct_udp_port_count t = min 5 (length (port_values cs))" using t(1) by (simp add: collected_tmp_def)
    then have "fst (config_handler (Some t) s n v) = None"
      using f handler_port [of s n t v] by (auto simp: handler_number atoi_eq)
    then show ?thesis using False Some by (simp add: collected_def)
  qed
qed

lemma collected_calls: "collected cs (run_calls config_handler cs (Some config_zero))"
proof (induction cs rule: rev_induct)
  case Nil
  show ?case
    by (simp add: run_calls_def config_zero_def collected_def collected_tmp_def config_numbers_def values_of_def
        port_values_def CONFIG_UDP_PORT_COUNT_MAX_def)
next
  case (snoc c cs)
  then show ?case using collected_step [of cs] by (cases c) (simp add: run_calls_def)
qed

definition config_of :: "ini_call list \<Rightarrow> configuration" where
  "config_of cs =
     \<lparr>serial_port_name = last_or [] (values_of ''serial port'' ''name'' cs),
      baud_rate = word_of_int (last_or 0 (map atoi_value (values_of ''serial port'' ''baudrate'' cs))),
      throttle_baud_rate = word_of_int (last_or 0 (map atoi_value (values_of ''serial port'' ''throttle'' cs))),
      port_numbers = map (\<lambda>v. word_of_int (atoi_value v)) (take 5 (port_values cs)),
      local_ip = last_or [] (values_of ''network'' ''local_ip'' cs),
      remote_ip = last_or [] (values_of ''network'' ''remote_ip'' cs)\<rparr>"

lemma Configuration_eq:
  "Configuration fs filename =
     (case fs filename of
        None \<Rightarrow> Inl Config_runtime_error
      | Some src \<Rightarrow>
          if list_all fits_int (config_numbers (ini_calls src)) then Inr (config_of (ini_calls src))
          else Inl Config_undefined)"
proof (cases "fs filename")
  case None
  then show ?thesis by (simp add: Configuration_def ini_parse_def)
next
  case (Some src)
  let ?r = "run_calls config_handler (ini_calls src) (Some config_zero)"
  note c = collected_calls [of "ini_calls src", unfolded collected_def]
  obtain e where e: "ini_parse fs filename config_handler (Some config_zero) = (int e, ?r)"
    using ini_parse_calls(1) [of config_handler src "Some config_zero"] Some
    by (simp add: ini_parse_def ini_parse_file_def ini_parse_stream_def Let_def)
  show ?thesis
  proof (cases "list_all fits_int (config_numbers (ini_calls src))")
    case True
    then obtain t where t: "?r = Some t" "collected_tmp (ini_calls src) t" using c by auto
    have "take (ct_udp_port_count t) (ct_udp_port t) = map atoi_value (take 5 (port_values (ini_calls src)))"
      using t(2) by (simp add: collected_tmp_def)
    then have ports: "map word_of_int (take (ct_udp_port_count t) (ct_udp_port t)) =
        map (\<lambda>v. word_of_int (atoi_value v)) (take 5 (port_values (ini_calls src)))"
      by (simp only: map_map comp_def)
    note flds = t(2) [unfolded collected_tmp_def]
    have opt: "last_or None (map Some vs) = (if vs = [] then None else Some (last_or [] vs))"
      for vs :: "string list"
      by (simp add: last_or_def last_map)
    show ?thesis
      using flds True by (simp add: Configuration_def e t(1) Some ports opt config_of_def Let_def)
  qed (use c Some e in \<open>simp add: Configuration_def\<close>)
qed

text \<open>C27: What the configuration of a file is, for every text.  If some number that is looked at (a
  \<open>baudrate\<close>, a \<open>throttle\<close> or one of the first five ports) does not fit an \<open>int\<close>, the conversion is
  undefined.  Otherwise the configuration has the last value of each name and the first five of the ports,
  in order, the numbers cut to the width of their fields.  A file without a \<open>baudrate\<close> gives a rate of 0, not
  the 9600 the constructor starts from, and entries the handler rejects or lines the parser rejects do not
  make the constructor fail: only a file that cannot be opened does.\<close>

theorem configuration_result:
  "Configuration fs filename =
     (case fs filename of
        None \<Rightarrow> Inl Config_runtime_error
      | Some src \<Rightarrow>
          let cs = ini_calls src
          in if list_all fits_int (config_numbers cs) then
               Inr \<lparr>serial_port_name = last_or [] (values_of ''serial port'' ''name'' cs),
                    baud_rate = word_of_int (last_or 0 (map atoi_value (values_of ''serial port'' ''baudrate'' cs))),
                    throttle_baud_rate =
                      word_of_int (last_or 0 (map atoi_value (values_of ''serial port'' ''throttle'' cs))),
                    port_numbers = map (\<lambda>v. word_of_int (atoi_value v)) (take 5 (port_values cs)),
                    local_ip = last_or [] (values_of ''network'' ''local_ip'' cs),
                    remote_ip = last_or [] (values_of ''network'' ''remote_ip'' cs)\<rparr>
             else Inl Config_undefined)"
  unfolding Configuration_eq config_of_def Let_def by (rule refl)

end
