(* ===== verification/Echo_server.thy ===== *)
theory Echo_server
  imports Configuration
begin

text \<open>
  The experiment \<^verbatim>\<open>hack/async_udp_echo_server.cpp\<close>, which was used to try out the asynchronous sockets: a server that
  sends every UDP datagram back to its sender.  The state has the object's buffer and endpoint, which operation is
  outstanding, and what has been sent.  A datagram that does not fit into the buffer is cut off, as the
  system does on Linux.
\<close>

section \<open>The server\<close>

type_synonym udp_endpoint = "u32 \<times> u16"

definition max_length :: nat where "max_length = 1024"

record echo_server =
  es_port :: u16
  sender_endpoint :: udp_endpoint
  data_buf :: bytes
  es_receiving :: bool
  es_sending :: "(udp_endpoint \<times> bytes) option"
  es_sent :: "(udp_endpoint \<times> bytes) list"

definition do_receive :: "echo_server \<Rightarrow> echo_server" where
  "do_receive s = s\<lparr>es_receiving := True\<rparr>"

definition do_send :: "nat \<Rightarrow> echo_server \<Rightarrow> echo_server" where
  "do_send len s = s\<lparr>es_sending := Some (sender_endpoint s, take len (data_buf s))\<rparr>"

text \<open>The constructor: the port number is converted to \<open>short\<close> and then to the unsigned port of the endpoint.\<close>

definition echo_server_new :: "int \<Rightarrow> bytes \<Rightarrow> echo_server" where
  "echo_server_new port buf =
     do_receive \<lparr>es_port = word_of_int port, sender_endpoint = (0, 0), data_buf = buf, es_receiving = False,
       es_sending = None, es_sent = []\<rparr>"

text \<open>The completion of a receive, which has put the datagram and its sender into the object.\<close>

definition receive_handler :: "bool \<Rightarrow> nat \<Rightarrow> echo_server \<Rightarrow> echo_server" where
  "receive_handler ec bytes_recvd s =
     (if \<not> ec \<and> bytes_recvd > 0 then do_send bytes_recvd s else do_receive s)"

definition send_handler :: "bool \<Rightarrow> nat \<Rightarrow> echo_server \<Rightarrow> echo_server" where
  "send_handler ec bytes_sent s = do_receive s"

definition datagram_arrives :: "udp_endpoint \<Rightarrow> bytes \<Rightarrow> echo_server \<Rightarrow> echo_server" where
  "datagram_arrives e d s =
     (let n = min (length d) max_length
      in receive_handler False n
           (s\<lparr>es_receiving := False, sender_endpoint := e, data_buf := take n d @ drop n (data_buf s)\<rparr>))"

text \<open>\<open>main\<close>: the exit status, or the server that runs; no result when the port is no \<open>int\<close>, which is
  undefined.  A port that cannot be bound throws, and the exception is reported without an effect on the
  status.\<close>

definition echo_main :: "string list \<Rightarrow> (u16 \<Rightarrow> bool) \<Rightarrow> bytes \<Rightarrow> (int + echo_server) option" where
  "echo_main argv bind_ok buf =
     (if length argv \<noteq> 2 then Some (Inl 1)
      else case atoi (argv ! 1) of
             None \<Rightarrow> None
           | Some port \<Rightarrow>
               (let s = echo_server_new port buf
                in if \<not> bind_ok (es_port s) then Some (Inl 0) else Some (Inr s)))"

section \<open>What it sends\<close>

inductive echo_step :: "(udp_endpoint \<times> bytes) list \<Rightarrow> echo_server \<Rightarrow> echo_server \<Rightarrow> bool" where
  Arrives: "es_receiving s \<Longrightarrow> echo_step [(e, d)] s (datagram_arrives e d s)"
| Receive_fails: "es_receiving s \<Longrightarrow> echo_step [] s (receive_handler True n (s\<lparr>es_receiving := False\<rparr>))"
| Sent: "es_sending s = Some m \<Longrightarrow>
    echo_step [] s (send_handler ec n (s\<lparr>es_sending := None, es_sent := es_sent s @ [m]\<rparr>))"

inductive echo_run :: "echo_server \<Rightarrow> (udp_endpoint \<times> bytes) list \<Rightarrow> echo_server \<Rightarrow> bool" where
  Refl: "echo_run s [] s"
| Step: "echo_run s ds s' \<Longrightarrow> echo_step d s' s'' \<Longrightarrow> echo_run s (ds @ d) s''"

definition echoes :: "(udp_endpoint \<times> bytes) list \<Rightarrow> (udp_endpoint \<times> bytes) list" where
  "echoes ds = map (\<lambda>(e, d). (e, take max_length d)) (filter (\<lambda>(e, d). d \<noteq> []) ds)"

text \<open>Every datagram that is not empty goes back to its sender, in order, cut off after 1024 bytes; exactly one
  operation is outstanding at any time, so that the buffer is not received into while it is sent.\<close>

theorem echo_in_order:
  assumes "echo_run (echo_server_new port buf) ds s"
  shows "es_sent s @ (case es_sending s of None \<Rightarrow> [] | Some m \<Rightarrow> [m]) = echoes ds \<and>
    (es_receiving s \<longleftrightarrow> es_sending s = None)"
proof -
  have "es_sent s @ (case es_sending s of None \<Rightarrow> [] | Some m \<Rightarrow> [m]) = echoes ds \<and>
      (es_receiving s \<longleftrightarrow> es_sending s = None)"
    if "echo_run s0 ds s" "s0 = echo_server_new port buf" for s0
    using that
  proof (induction rule: echo_run.induct)
    case (Refl s)
    then show ?case by (simp add: echo_server_new_def do_receive_def echoes_def)
  next
    case (Step s0 ds s' d s'')
    then have IH: "es_sent s' @ (case es_sending s' of None \<Rightarrow> [] | Some m \<Rightarrow> [m]) = echoes ds"
      "es_receiving s' \<longleftrightarrow> es_sending s' = None" by simp_all
    from Step.hyps(2) show ?case
    proof cases
      case (Arrives e b)
      moreover have "take (min (length b) 1024) b = take 1024 b" by (cases "length b \<le> 1024") (simp_all add: min_def)
      ultimately show ?thesis
        using IH by (simp add: datagram_arrives_def receive_handler_def do_send_def do_receive_def echoes_def max_length_def Let_def)
    next
      case (Receive_fails n)
      then show ?thesis using IH by (simp add: receive_handler_def do_receive_def)
    next
      case (Sent m ec n)
      then show ?thesis using IH by (simp add: send_handler_def do_receive_def)
    qed
  qed
  then show ?thesis using assms by blast
qed

theorem echo_in_order_witness:
  "\<exists>s. echo_run (echo_server_new 7 []) [((1, 2), [65, 66])] s \<and> es_sending s = Some ((1, 2), [65, 66])"
proof -
  let ?s = "datagram_arrives (1, 2) [65, 66] (echo_server_new 7 [])"
  have r: "echo_run (echo_server_new 7 []) ([] @ [((1, 2), [65, 66])]) ?s"
    by (rule echo_run.Step [OF echo_run.Refl echo_step.Arrives]) (simp add: echo_server_new_def do_receive_def)
  have "es_sent ?s = []"
    by (simp add: datagram_arrives_def receive_handler_def do_send_def do_receive_def echo_server_new_def max_length_def Let_def)
  then show ?thesis
    using r echo_in_order [OF r] by (auto simp: echoes_def max_length_def split: option.splits)
qed

text \<open>The status does not tell a failure from an orderly end, and large port numbers wrap around.\<close>

lemma echo_main_status:
  "length argv \<noteq> 2 \<Longrightarrow> echo_main argv bind_ok buf = Some (Inl 1)"
  "length argv = 2 \<Longrightarrow> atoi (argv ! 1) = Some n \<Longrightarrow> \<not> bind_ok (word_of_int n) \<Longrightarrow>
     echo_main argv bind_ok buf = Some (Inl 0)"
  by (simp_all add: echo_main_def echo_server_new_def do_receive_def)

end
