(* ===== verification/Serial_reader.thy ===== *)
theory Serial_reader
  imports Serial_port
begin

text \<open>
  The receiving half of the asynchronous serial port, \<^verbatim>\<open>udptoserial/Serial_port.cpp\<close>: setting it up and the
  read handler, and what this handler makes of what the sending half of the same file puts on the line.

  \<open>tcp_send\<close>, which gets the endpoints and the data of a received packet, is declared and defined nowhere:
  it is the parameter \<open>tcp_send_to\<close>, a function on the state \<open>'n\<close> of the network.  In the branch for TCP there is a
  statement that is not C++ (it has words in the place of arguments) where a read handler should be added;
  it has no counterpart.
\<close>

section \<open>The code\<close>

record serial_reader =
  sr_device :: string
  sr_baud :: int
  sr_unprocessed :: bytes
  sr_reading :: bool

text \<open>\<open>open_ok\<close> says whether the device can be opened; if not, an exception is thrown.  Opening starts the
  first read.\<close>

definition serial_port_init_asio :: "(string \<Rightarrow> bool) \<Rightarrow> string \<Rightarrow> int \<Rightarrow> bytes \<Rightarrow> serial_reader option" where
  "serial_port_init_asio open_ok name baud unprocessed =
     (if \<not> open_ok name then None
      else Some \<lparr>sr_device = name, sr_baud = baud, sr_unprocessed = unprocessed, sr_reading = True\<rparr>)"

text \<open>The endpoints are made from the fields as they stand in the headers, in network byte order.\<close>

definition sp_dispatch_tcp ::
    "(endpoint \<Rightarrow> endpoint \<Rightarrow> bytes \<Rightarrow> 'n \<Rightarrow> 'n) \<Rightarrow> bytes \<Rightarrow> 'n \<Rightarrow> bridge_error + 'n" where
  "sp_dispatch_tcp tcp_send_to slip_msg n =
     (case (ip_hdr_at slip_msg, tcp_ports_at slip_msg) of
        (Some ih, Some (source_port, destination_port)) \<Rightarrow>
          (let saddr = \<lparr>ep_address = ih_saddr ih, ep_port = source_port\<rparr>;
               daddr = \<lparr>ep_address = ih_daddr ih, ep_port = destination_port\<rparr>
           in case payload_at slip_msg of
                Inl e \<Rightarrow> Inl e
              | Inr slip_msg \<Rightarrow> Inr (tcp_send_to saddr daddr slip_msg n))
      | _ \<Rightarrow> Inl Br_out_of_bounds)"

definition sp_dispatch ::
    "(endpoint \<Rightarrow> endpoint \<Rightarrow> bytes \<Rightarrow> 'n \<Rightarrow> 'n) \<Rightarrow> bytes \<Rightarrow> 'n \<Rightarrow> bridge_error + 'n" where
  "sp_dispatch tcp_send_to slip_msg n =
     (if ip_bytevector_validate slip_msg then
        (case ip_bytevector_is_udp slip_msg of
           Inl e \<Rightarrow> Inl (Br_ip e)
         | Inr True \<Rightarrow> Inr n
         | Inr False \<Rightarrow>
             (case ip_bytevector_is_tcp slip_msg of
                Inl e \<Rightarrow> Inl (Br_ip e)
              | Inr True \<Rightarrow> sp_dispatch_tcp tcp_send_to slip_msg n
              | Inr False \<Rightarrow> Inr n))
      else Inr n)"

text \<open>The error code of the read is not looked at.\<close>

definition sp_serial_read_handler ::
    "(endpoint \<Rightarrow> endpoint \<Rightarrow> bytes \<Rightarrow> 'n \<Rightarrow> 'n) \<Rightarrow> bytes \<Rightarrow> serial_reader \<Rightarrow> 'n \<Rightarrow>
     bridge_error + serial_reader \<times> 'n" where
  "sp_serial_read_handler tcp_send_to data r n =
     (let r = r\<lparr>sr_unprocessed := sr_unprocessed r @ data\<rparr>
      in case slip_decode [] (sr_unprocessed r) False of
           (_, Inl e) \<Rightarrow> Inl (Br_slip e)
         | (slip_msg, Inr bytes_decoded) \<Rightarrow>
             (if bytes_decoded > 0 then
                (let r = r\<lparr>sr_unprocessed := drop bytes_decoded (sr_unprocessed r)\<rparr>
                 in case sp_dispatch tcp_send_to slip_msg n of
                      Inl e \<Rightarrow> Inl e
                    | Inr n' \<Rightarrow> Inr (r\<lparr>sr_reading := True\<rparr>, n'))
              else Inr (r\<lparr>sr_reading := True\<rparr>, n)))"

fun sp_reads ::
    "(endpoint \<Rightarrow> endpoint \<Rightarrow> bytes \<Rightarrow> 'n \<Rightarrow> 'n) \<Rightarrow> bytes list \<Rightarrow> serial_reader \<Rightarrow> 'n \<Rightarrow>
     bridge_error + serial_reader \<times> 'n" where
  "sp_reads tcp_send_to [] r n = Inr (r, n)"
| "sp_reads tcp_send_to (d # ds) r n =
     (case sp_serial_read_handler tcp_send_to d r n of
        Inl e \<Rightarrow> Inl e
      | Inr (r', n') \<Rightarrow> sp_reads tcp_send_to ds r' n')"

section \<open>The two halves of the file\<close>

lemma reads_no_end:
  assumes "SLIP_END \<notin> set (sr_unprocessed r @ concat ds)"
  shows "\<exists>r'. sp_reads tcp_send_to ds r n = Inr (r', n) \<and> sr_unprocessed r' = sr_unprocessed r @ concat ds"
  using assms
proof (induction ds arbitrary: r)
  case (Cons d ds)
  then have "slip_decode [] (sr_unprocessed r @ d) False = ([], Inr 0)" by (intro decode_no_end(1)) auto
  moreover have "SLIP_END \<notin> set (sr_unprocessed (r\<lparr>sr_unprocessed := sr_unprocessed r @ d, sr_reading := True\<rparr>) @ concat ds)"
    using Cons.prems by simp
  ultimately show ?case using Cons.IH by (fastforce simp: sp_serial_read_handler_def)
qed simp

lemma sp_dispatch_carries:
  assumes "carries k x pkt"
  shows "sp_dispatch tcp_send_to pkt n =
    Inr (tcp_send_to \<lparr>ep_address = htonl (ec_saddr k), ep_port = htons (ec_sport k)\<rparr>
                  \<lparr>ep_address = htonl (ec_daddr k), ep_port = htons (ec_dport k)\<rparr> x n)"
  using assms
  by (auto simp: carries_def sp_dispatch_def sp_dispatch_tcp_def payload_at_def ntohl_def ntohs_def
      split: option.splits)

text \<open>What the network is told for a packet.\<close>

definition handed_on ::
    "(endpoint \<Rightarrow> endpoint \<Rightarrow> bytes \<Rightarrow> 'n \<Rightarrow> 'n) \<Rightarrow> ephemeral_connection \<Rightarrow> bytes \<Rightarrow> 'n \<Rightarrow> 'n" where
  "handed_on tcp_send_to k x n =
     tcp_send_to \<lparr>ep_address = htonl (ec_saddr k), ep_port = htons (ec_sport k)\<rparr>
       \<lparr>ep_address = htonl (ec_daddr k), ep_port = htons (ec_dport k)\<rparr> x n"

lemma sp_read_frame:
  assumes "carries k x pkt" "sr_unprocessed r @ d = frame_of pkt"
  shows "sp_serial_read_handler tcp_send_to d r n =
    Inr (r\<lparr>sr_unprocessed := [SLIP_END], sr_reading := True\<rparr>, handed_on tcp_send_to k x n)"
proof -
  have p: "pkt \<noteq> []" using assms(1) by (auto simp: carries_def)
  then have "0 < length (frame_of pkt) - 1" using frame_of_eq [OF p] by simp
  then show ?thesis
    using decode_frame [OF p, of "[]"] drop_frame [OF p, of "[]"] assms
    by (simp add: sp_serial_read_handler_def sp_dispatch_carries handed_on_def)
qed

lemma sp_read_waits:
  assumes "slip_decode [] (sr_unprocessed r @ d) False = ([], Inr 0)"
  shows "sp_serial_read_handler tcp_send_to d r n =
    Inr (r\<lparr>sr_unprocessed := sr_unprocessed r @ d, sr_reading := True\<rparr>, n)"
  using assms by (simp add: sp_serial_read_handler_def)

lemma sp_reads_nothing:
  assumes "sr_unprocessed r = [SLIP_END]" "concat ds = []"
  shows "\<exists>r'. sp_reads tcp_send_to ds r n = Inr (r', n) \<and> sr_unprocessed r' = [SLIP_END]"
  using assms
proof (induction ds arbitrary: r)
  case (Cons d ds)
  then have "sp_serial_read_handler tcp_send_to d r n =
      Inr (r\<lparr>sr_unprocessed := [SLIP_END], sr_reading := True\<rparr>, n)"
    using sp_read_waits [of r d tcp_send_to n] decode_no_end(2) [of "[]"] by simp
  then show ?case using Cons.IH [of "r\<lparr>sr_unprocessed := [SLIP_END], sr_reading := True\<rparr>"] Cons.prems(2) by simp
qed simp

lemma frame_part:
  assumes "pkt \<noteq> []" "b @ rest = frame_of pkt" "length b < length (frame_of pkt)"
  shows "slip_decode [] b False = ([], Inr 0)"
proof -
  have "b @ rest = (SLIP_END # stuff pkt) @ [SLIP_END]" "length b \<le> length (SLIP_END # stuff pkt)"
    using assms frame_of_eq [OF assms(1)] by simp_all
  then have "b = take (length b) (SLIP_END # stuff pkt)" unfolding append_eq_append_conv_if by simp
  then have "b = [] \<or> (\<exists>j. b = SLIP_END # take j (stuff pkt))" by (cases "length b") auto
  moreover have "SLIP_END \<notin> set (take j (stuff pkt))" for j
    using SLIP_END_notin_stuff [of pkt] by (meson in_set_takeD)
  ultimately show ?thesis using decode_no_end by auto
qed

text \<open>A frame that comes in any number of reads.\<close>

lemma sp_reads_frame:
  assumes "carries k x pkt" "sr_unprocessed r @ concat ds = frame_of pkt"
    "length (sr_unprocessed r) < length (frame_of pkt)"
  shows "\<exists>r'. sp_reads tcp_send_to ds r n = Inr (r', handed_on tcp_send_to k x n) \<and> sr_unprocessed r' = [SLIP_END]"
  using assms(2,3)
proof (induction ds arbitrary: r)
  case (Cons d ds)
  have p: "pkt \<noteq> []" using assms(1) by (auto simp: carries_def)
  have b: "(sr_unprocessed r @ d) @ concat ds = frame_of pkt" using Cons.prems(1) by simp
  show ?case
  proof (cases "length (sr_unprocessed r @ d) < length (frame_of pkt)")
    case True
    let ?r = "r\<lparr>sr_unprocessed := sr_unprocessed r @ d, sr_reading := True\<rparr>"
    have "sp_serial_read_handler tcp_send_to d r n = Inr (?r, n)"
      by (rule sp_read_waits [OF frame_part [OF p b True]])
    then show ?thesis using Cons.IH [of ?r] b True by simp
  next
    case False
    then have "sr_unprocessed r @ d = frame_of pkt" "concat ds = []" using b append_eq_conv_conj [of "sr_unprocessed r @ d"] by auto
    then show ?thesis
      using sp_read_frame [OF assms(1), of r d tcp_send_to n] sp_reads_nothing [of "r\<lparr>sr_unprocessed := [SLIP_END], sr_reading := True\<rparr>" ds] by simp
  qed
qed simp

text \<open>C40: The two halves of the asynchronous serial port do not understand each other.  What the sending half
  posts for a payload of 12 to 65507 bytes is a bare packet.  If the SLIP END byte does not happen to occur in it,
  the receiving half of another program, which starts with an empty buffer, keeps the packet there and hands
  nothing to the network, however the line cuts it into reads and whatever comes behind it, as long as that has no
  END byte either.  Had the packet been framed, the payload would have been handed on whole, also for any cutting
  into reads, but for endpoints whose addresses and ports have their bytes reversed, and with the source's port as
  destination port.\<close>

theorem serial_halves_disagree:
  assumes "12 \<le> length payload" "length payload \<le> 65507" "sr_unprocessed r = []"
  shows "\<exists>c' pkt. serial_port_send_tcp ident iphdr source dest payload c = Inr (c', ident + 1) \<and>
    sp_posted c' = sp_posted c @ [pkt] \<and>
    (\<forall>ds more. SLIP_END \<notin> set pkt \<union> set more \<and> concat ds = pkt @ more \<longrightarrow>
       (\<exists>r'. sp_reads tcp_send_to ds r n = Inr (r', n) \<and> sr_unprocessed r' = pkt @ more)) \<and>
    (\<forall>ds. concat ds = frame_of pkt \<longrightarrow>
       (\<exists>r'. sp_reads tcp_send_to ds r n =
          Inr (r', tcp_send_to \<lparr>ep_address = htonl (ep_address source), ep_port = htons (ep_port source)\<rparr>
                    \<lparr>ep_address = htonl (ep_address dest), ep_port = htons (ep_port source)\<rparr> payload n) \<and>
          sr_unprocessed r' = [SLIP_END]))"
proof -
  let ?k = "\<lparr>ec_saddr = ep_address source, ec_daddr = ep_address dest, ec_sport = ep_port source, ec_dport = ep_port source\<rparr>"
  obtain c' pkt where send: "serial_port_send_tcp ident iphdr source dest payload c = Inr (c', ident + 1)"
    "sp_posted c' = sp_posted c @ [pkt]" and k: "carries ?k payload pkt"
    using serial_send_tcp_carries [OF assms(1,2)] by blast
  have "\<exists>r'. sp_reads tcp_send_to ds r n = Inr (r', n) \<and> sr_unprocessed r' = pkt @ more"
    if "SLIP_END \<notin> set pkt \<union> set more" "concat ds = pkt @ more" for ds more
    using reads_no_end [of r ds tcp_send_to n] that assms(3) by simp
  moreover have "pkt \<noteq> []" using k by (auto simp: carries_def)
  then have "0 < length (frame_of pkt)" by (simp add: frame_of_eq)
  then have "\<exists>r'. sp_reads tcp_send_to ds r n = Inr (r', handed_on tcp_send_to ?k payload n) \<and> sr_unprocessed r' = [SLIP_END]"
    if "concat ds = frame_of pkt" for ds
    using sp_reads_frame [OF k, of r ds tcp_send_to n] that assms(3) by simp
  ultimately show ?thesis using send by (intro exI [of _ c'] exI [of _ pkt]) (simp add: handed_on_def)
qed

theorem serial_halves_disagree_witness:
  "let r = \<lparr>sr_device = ''COM1'', sr_baud = 9600, sr_unprocessed = [], sr_reading = True\<rparr>;
       c = \<lparr>sp_posted = [], sp_queue = [], sp_writing = None, sp_written = []\<rparr>
   in \<exists>c' pkt r'. serial_port_send_tcp 0 (default_ip_hdr 0 0 0 0 0) \<lparr>ep_address = 1, ep_port = 80\<rparr>
        \<lparr>ep_address = 2, ep_port = 90\<rparr> (replicate 12 65) c = Inr (c', 0 + 1) \<and> sp_posted c' = [pkt] \<and>
      sp_reads (\<lambda>s d x n. n @ [(s, d, x)]) [take 30 (frame_of pkt), drop 30 (frame_of pkt)] r [] =
        Inr (r', [(\<lparr>ep_address = htonl 1, ep_port = htons 80\<rparr>, \<lparr>ep_address = htonl 2, ep_port = htons 80\<rparr>,
                   replicate 12 65)])"
proof -
  let ?r = "\<lparr>sr_device = ''COM1'', sr_baud = 9600, sr_unprocessed = [], sr_reading = True\<rparr>"
  let ?c = "\<lparr>sp_posted = [], sp_queue = [], sp_writing = None, sp_written = []\<rparr>"
  have "12 \<le> length (replicate 12 (65 :: u8))" "length (replicate 12 (65 :: u8)) \<le> 65507" "sr_unprocessed ?r = []"
    by simp_all
  from serial_halves_disagree [OF this, of 0 "default_ip_hdr 0 0 0 0 0" "\<lparr>ep_address = 1, ep_port = 80\<rparr>"
      "\<lparr>ep_address = 2, ep_port = 90\<rparr>" ?c "\<lambda>s d x n. n @ [(s, d, x)]" "[]"]
  obtain c' pkt where pkt: "serial_port_send_tcp 0 (default_ip_hdr 0 0 0 0 0) \<lparr>ep_address = 1, ep_port = 80\<rparr>
      \<lparr>ep_address = 2, ep_port = 90\<rparr> (replicate 12 65) ?c = Inr (c', 0 + 1)" "sp_posted c' = [pkt]"
    "\<And>ds. concat ds = frame_of pkt \<Longrightarrow> \<exists>r'. sp_reads (\<lambda>s d x n. n @ [(s, d, x)]) ds ?r [] =
       Inr (r', [(\<lparr>ep_address = htonl 1, ep_port = htons 80\<rparr>, \<lparr>ep_address = htonl 2, ep_port = htons 80\<rparr>, replicate 12 65)])"
    by clarsimp blast
  have "concat [take 30 (frame_of pkt), drop 30 (frame_of pkt)] = frame_of pkt" by simp
  from pkt(3) [OF this] pkt(1,2) show ?thesis unfolding Let_def by blast
qed

end
