(* ===== verification/Overlapped_port.thy ===== *)
theory Overlapped_port
  imports Serial_port
begin

text \<open>
  The first version of the polled serial port, \<^verbatim>\<open>udptoserial/Serial_port.cpp\<close>: reading and writing with one
  overlapped operation each, before the byte queues.  It stands under \<open>#if 0\<close>; it is modelled to compare the
  two.  What the Win32 calls return is an argument of each call; an exception is an error value.
\<close>

section \<open>The code\<close>

datatype 'a io_result = Io_done 'a | Io_pending | Io_failed

record overlapped_port =
  ov_waiting_on_read :: bool
  ov_waiting_on_write :: bool
  ov_written :: bytes

datatype overlapped_error = Ov_read | Ov_reset | Ov_write | Ov_write_completion

text \<open>\<open>ReadFile\<close>, \<open>WaitForSingleObject\<close>, \<open>GetOverlappedResult\<close> and \<open>ResetEvent\<close>.  A failed \<open>GetOverlappedResult\<close> is
  ignored.\<close>

record read_calls =
  rc_read :: "bytes io_result"
  rc_wait :: wait_result
  rc_result :: "bytes option"
  rc_reset :: bool

definition old_serial_port_read ::
    "read_calls \<Rightarrow> bytes \<Rightarrow> overlapped_port \<Rightarrow> overlapped_error + bytes \<times> overlapped_port" where
  "old_serial_port_read os out s =
     (if \<not> ov_waiting_on_read s then
        (case rc_read os of
           Io_failed \<Rightarrow> Inl Ov_read
         | Io_pending \<Rightarrow> Inr (out, s\<lparr>ov_waiting_on_read := True\<rparr>)
         | Io_done bs \<Rightarrow> Inr (out @ bs, s\<lparr>ov_waiting_on_read := False\<rparr>))
      else if rc_wait os = WAIT_OBJECT 0 then
        (let out = (case rc_result os of None \<Rightarrow> out | Some bs \<Rightarrow> out @ bs)
         in if \<not> rc_reset os then Inl Ov_reset else Inr (out, s\<lparr>ov_waiting_on_read := False\<rparr>))
      else Inr (out, s))"

text \<open>\<open>WriteFile\<close>, the wait for it and \<open>GetOverlappedResult\<close>.\<close>

record write_calls =
  wc_write :: "unit io_result"
  wc_wait :: wait_result
  wc_result :: bool

definition old_serial_port_write :: "write_calls \<Rightarrow> bytes \<Rightarrow> overlapped_port \<Rightarrow> overlapped_error + overlapped_port" where
  "old_serial_port_write os inp s =
     (if \<not> ov_waiting_on_write s then
        (case wc_write os of
           Io_done _ \<Rightarrow> Inr (s\<lparr>ov_written := ov_written s @ inp\<rparr>)
         | Io_failed \<Rightarrow> Inl Ov_write
         | Io_pending \<Rightarrow>
             (let s = s\<lparr>ov_written := ov_written s @ inp, ov_waiting_on_write := True\<rparr>
              in if wc_wait os = WAIT_OBJECT 0 then
                   (if \<not> wc_result os then Inl Ov_write_completion else Inr (s\<lparr>ov_waiting_on_write := False\<rparr>))
                 else Inr s))
      else Inr s)"

datatype old_op = Old_read read_calls | Old_write write_calls bytes

fun old_run :: "old_op list \<Rightarrow> bytes \<Rightarrow> overlapped_port \<Rightarrow> overlapped_error + bytes \<times> overlapped_port" where
  "old_run [] out s = Inr (out, s)"
| "old_run (Old_read os # ops) out s =
     (case old_serial_port_read os out s of Inl e \<Rightarrow> Inl e | Inr (out', s') \<Rightarrow> old_run ops out' s')"
| "old_run (Old_write os inp # ops) out s =
     (case old_serial_port_write os inp s of Inl e \<Rightarrow> Inl e | Inr s' \<Rightarrow> old_run ops out s')"

section \<open>The first late write is the last\<close>

lemma old_read_keeps:
  assumes "old_serial_port_read os out s = Inr (out', s')"
  shows "ov_waiting_on_write s' = ov_waiting_on_write s \<and> ov_written s' = ov_written s"
  using assms by (auto simp: old_serial_port_read_def Let_def split: if_splits io_result.splits)

lemma old_run_mute:
  assumes "old_run ops out s = Inr (out', s')" "ov_waiting_on_write s"
  shows "ov_waiting_on_write s' \<and> ov_written s' = ov_written s"
  using assms
proof (induction ops arbitrary: out s)
  case (Cons op ops)
  show ?case
  proof (cases op)
    case (Old_read os)
    then obtain out1 s1 where "old_serial_port_read os out s = Inr (out1, s1)" "old_run ops out1 s1 = Inr (out', s')"
      using Cons.prems(1) by (auto split: sum.splits)
    with Cons.IH [of out1 s1] old_read_keeps [of os out s out1 s1] Cons.prems(2) show ?thesis by simp
  next
    case (Old_write os inp)
    then show ?thesis using Cons.IH Cons.prems by (simp add: old_serial_port_write_def)
  qed
qed simp

text \<open>A write that has not completed when the wait for it ends is never taken up again: the flag it leaves is
  reset nowhere, and whatever reads and writes follow, not one more byte is written.\<close>

theorem old_write_mutes:
  assumes "\<not> ov_waiting_on_write s" "wc_write os = Io_pending" "wc_wait os \<noteq> WAIT_OBJECT 0"
    "old_run (Old_write os inp # ops) out s = Inr (out', s')"
  shows "ov_written s' = ov_written s @ inp"
  using assms old_run_mute [of ops out "s\<lparr>ov_written := ov_written s @ inp, ov_waiting_on_write := True\<rparr>" out' s']
  by (simp add: old_serial_port_write_def)

end
