(* ===== verification/Udp_path.thy ===== *)
theory Udp_path
  imports Prelude
begin

text \<open>
  The UDP side of the program: \<^verbatim>\<open>udptoserial/udp_packet.cpp\<close> (a packet and its serial form),
  \<^verbatim>\<open>udptoserial/input_queue.cpp\<close> (bytes from the serial port turned into packets) and
  \<^verbatim>\<open>udptoserial/Udp_ports.cpp\<close> (the local UDP ports).

  The sockets are a parameter: what the calls of the socket library return for each port.  A throw of
  \<open>throw_win32_sock_error\<close> is an error value.
\<close>

section \<open>Packets\<close>

definition UDP_PACKET_HEADER_SIZE :: nat where "UDP_PACKET_HEADER_SIZE = 8"

record udp_packet =
  pk_source_port :: u16
  pk_dest_port :: u16
  pk_checksum :: u16
  pk_length :: u16
  pk_data :: bytes

definition update_length :: "udp_packet \<Rightarrow> udp_packet" where
  "update_length p =
     (let p = p\<lparr>pk_length := of_nat (length (pk_data p) + 8)\<rparr>
      in if length (pk_data p) mod 2 = 1 then p\<lparr>pk_length := pk_length p + 1\<rparr> else p)"

text \<open>The loop over the data, two bytes at a time; \<open>data[i+1]\<close> of an odd vector is outside it.\<close>

fun checksum_loop :: "bytes \<Rightarrow> u32 \<Rightarrow> u32 option" where
  "checksum_loop [] s = Some s"
| "checksum_loop [_] s = None"
| "checksum_loop (a # b # d) s = checksum_loop d (s + ucast a + push_bit 8 (ucast b))"

definition update_checksum :: "udp_packet \<Rightarrow> udp_packet option" where
  "update_checksum p =
     (let s = ucast (pk_source_port p) + ucast (pk_dest_port p) + ucast (pk_length p)
      in map_option
           (\<lambda>s. p\<lparr>pk_checksum := ucast (NOT (drop_bit 16 (s AND 0xFFFF0000) OR (s AND 0xFFFF)))\<rparr>)
           (checksum_loop (pk_data p) s))"

definition udp_packet_default :: "udp_packet option" where
  "udp_packet_default =
     update_checksum (update_length
       \<lparr>pk_source_port = 0, pk_dest_port = 0, pk_checksum = 0, pk_length = 0, pk_data = []\<rparr>)"

definition udp_packet_make :: "u16 \<Rightarrow> u16 \<Rightarrow> bytes \<Rightarrow> udp_packet option" where
  "udp_packet_make source_port dest_port data =
     (let p = \<lparr>pk_source_port = source_port, pk_dest_port = dest_port, pk_checksum = 0, pk_length = 0,
               pk_data = data\<rparr>;
          p = (if length (pk_data p) mod 2 \<noteq> 0 then p\<lparr>pk_data := pk_data p @ [0]\<rparr> else p)
      in update_checksum (update_length p))"

definition packet_is_empty :: "udp_packet \<Rightarrow> bool" where
  "packet_is_empty p \<longleftrightarrow> pk_length p \<le> 8"

text \<open>\<open>raw\<close> is built and dropped: the call of the encoder is commented out.\<close>

definition packet_raw :: "udp_packet \<Rightarrow> bytes" where
  "packet_raw p =
     concat (map (\<lambda>x. [ucast (x AND 0x00FF), ucast (drop_bit 8 (x AND 0xFF00))])
       [pk_source_port p, pk_dest_port p, pk_length p, pk_checksum p]) @ pk_data p"

definition to_bytes :: "udp_packet \<Rightarrow> bytes" where
  "to_bytes p = (let raw = packet_raw p; output = [] in output)"

text \<open>The decoder is commented out as well, so \<open>i\<close> is 0 and the function returns at once.\<close>

definition from_bytes :: "udp_packet \<Rightarrow> bytes \<Rightarrow> nat \<times> udp_packet" where
  "from_bytes p raw = (let i = (0 :: nat) in if i = 0 then (0, p) else (0, p))"

section \<open>The input queue\<close>

record input_queue =
  iq_raw :: bytes
  iq_packets :: "udp_packet list"

definition input_queue_new :: input_queue where
  "input_queue_new = \<lparr>iq_raw = [], iq_packets = []\<rparr>"

lemma default_packet:
  "udp_packet_default =
     Some \<lparr>pk_source_port = 0, pk_dest_port = 0, pk_checksum = 0xFFF7, pk_length = 8, pk_data = []\<rparr>"
  by (simp add: udp_packet_default_def update_length_def update_checksum_def)

lemma default_is_empty: "udp_packet_default = Some p \<Longrightarrow> packet_is_empty p"
  by (auto simp: default_packet packet_is_empty_def)

lemma from_bytes_eq [simp]: "from_bytes p raw = (0, p)"
  by (simp add: from_bytes_def)

function move_loop :: "input_queue \<Rightarrow> int \<Rightarrow> (int \<times> input_queue) option" where
  "move_loop q count =
     (if length (iq_raw q) > 0 then
        (case udp_packet_default of
           None \<Rightarrow> None
         | Some p \<Rightarrow>
             (case from_bytes p (iq_raw q) of
                (bytes_used, p) \<Rightarrow>
                  (let q = q\<lparr>iq_raw := drop bytes_used (iq_raw q)\<rparr>
                   in if \<not> packet_is_empty p then
                        move_loop (q\<lparr>iq_packets := iq_packets q @ [p]\<rparr>) (count + 1)
                      else Some (count, q))))
      else Some (count, q))"
  by pat_completeness auto
termination
  by (relation "{}") (auto dest: default_is_empty)

declare move_loop.simps [simp del]

definition move_bytes_to_packets :: "input_queue \<Rightarrow> (int \<times> input_queue) option" where
  "move_bytes_to_packets q = move_loop q 0"

definition push_bytes :: "bytes \<Rightarrow> input_queue \<Rightarrow> input_queue option" where
  "push_bytes inp q = map_option snd (move_bytes_to_packets (q\<lparr>iq_raw := iq_raw q @ inp\<rparr>))"

definition is_packet_available :: "input_queue \<Rightarrow> bool" where
  "is_packet_available q \<longleftrightarrow> length (iq_packets q) > 0"

definition pop_packet :: "input_queue \<Rightarrow> (udp_packet \<times> input_queue) option" where
  "pop_packet q =
     (case iq_packets q of
        p # ps \<Rightarrow> Some (p, q\<lparr>iq_packets := ps\<rparr>)
      | [] \<Rightarrow> map_option (\<lambda>p. (p, q)) udp_packet_default)"

section \<open>The UDP ports\<close>

text \<open>A \<open>std::map\<close> from port numbers to sockets: an association list in the order of the keys.\<close>

type_synonym port_map = "(u16 \<times> nat) list"

fun emplace :: "u16 \<Rightarrow> nat \<Rightarrow> port_map \<Rightarrow> port_map" where
  "emplace n s [] = [(n, s)]"
| "emplace n s ((n', s') # m) =
     (if n < n' then (n, s) # (n', s') # m
      else if n = n' then (n', s') # m
      else (n', s') # emplace n s m)"

definition assign :: "u16 \<Rightarrow> nat \<Rightarrow> port_map \<Rightarrow> port_map" where
  "assign n s m = map (\<lambda>(n', s'). if n' = n then (n', s) else (n', s')) (emplace n s m)"

record udp_ports =
  default_local_ip :: string
  port_sockets :: port_map

datatype udp_error = Udp_sock_error | Udp_undefined

definition Udp_ports :: "string \<Rightarrow> string \<Rightarrow> u16 list \<Rightarrow> udp_ports" where
  "Udp_ports local_ip remote_ip ports =
     \<lparr>default_local_ip = local_ip, port_sockets = fold (\<lambda>n m. emplace n 0 m) ports []\<rparr>"

text \<open>The default constructor leaves the map empty; the destructor closes every socket of the map.\<close>

definition Udp_ports_default :: udp_ports where
  "Udp_ports_default = \<lparr>default_local_ip = [], port_sockets = []\<rparr>"

definition Udp_ports_destroy :: "udp_ports \<Rightarrow> nat list \<times> udp_ports" where
  "Udp_ports_destroy u = (map snd (port_sockets u), u\<lparr>port_sockets := []\<rparr>)"

text \<open>\<open>create n\<close> is the socket opened, made non-blocking and bound for port \<open>n\<close>, or \<^const>\<open>None\<close> when one of
  the three calls fails.\<close>

fun open_loop :: "(u16 \<Rightarrow> nat option) \<Rightarrow> u16 list \<Rightarrow> udp_ports \<Rightarrow> udp_error + udp_ports" where
  "open_loop create [] u = Inr u"
| "open_loop create (n # ns) u =
     (case create n of
        None \<Rightarrow> Inl Udp_sock_error
      | Some sock \<Rightarrow> open_loop create ns (u\<lparr>port_sockets := assign n sock (port_sockets u)\<rparr>))"

definition open_ports :: "(u16 \<Rightarrow> nat option) \<Rightarrow> udp_ports \<Rightarrow> udp_error + udp_ports" where
  "open_ports create u = open_loop create (map fst (port_sockets u)) u"

text \<open>The datagram \<open>send_packet\<close> gives to \<open>sendto\<close>: socket, destination port in network order, bytes.\<close>

definition send_packet :: "udp_packet \<Rightarrow> udp_ports \<Rightarrow> (nat \<times> u16 \<times> bytes) option" where
  "send_packet P u =
     (case map_of (port_sockets u) (pk_source_port P) of
        None \<Rightarrow> None
      | Some sock \<Rightarrow> Some (sock, htons (pk_dest_port P), to_bytes P))"

text \<open>What a socket has to read: nothing, a datagram from a port (as \<open>sin_port\<close> gives it), or an error.\<close>

datatype recv_result = Nothing_there | Datagram u16 bytes | Recv_failed

fun recv_loop :: "(nat \<Rightarrow> recv_result) \<Rightarrow> port_map \<Rightarrow> bytes \<Rightarrow> udp_error + bytes" where
  "recv_loop net [] output = Inr output"
| "recv_loop net ((n, sock) # m) output =
     (case net sock of
        Nothing_there \<Rightarrow> recv_loop net m output
      | Recv_failed \<Rightarrow> Inl Udp_sock_error
      | Datagram sin_port data \<Rightarrow>
          (if length data > 0 then
             (case udp_packet_make sin_port n data of
                None \<Rightarrow> Inl Udp_undefined
              | Some p \<Rightarrow> recv_loop net m (output @ to_bytes p))
           else recv_loop net m output))"

definition recv_bytes :: "(nat \<Rightarrow> recv_result) \<Rightarrow> udp_ports \<Rightarrow> udp_error + bytes" where
  "recv_bytes net u = recv_loop net (port_sockets u) []"

text \<open>Ports that were never opened have the socket 0, which the destructor closes.\<close>

lemma emplace_sockets: "set (map snd (emplace n s m)) \<subseteq> insert s (set (map snd m))"
  by (induction n s m rule: emplace.induct) auto

lemma fold_emplace_sockets:
  "set (map snd m) \<subseteq> {0} \<Longrightarrow> set (map snd (fold (\<lambda>n m. emplace n 0 m) ps m)) \<subseteq> {0}"
proof (induction ps arbitrary: m)
  case (Cons p ps)
  have "set (map snd (emplace p 0 m)) \<subseteq> {0}" using emplace_sockets [of p 0 m] Cons.prems by blast
  from Cons.IH [OF this] show ?case by simp
qed simp

lemma destroy_unopened: "set (fst (Udp_ports_destroy (Udp_ports l r ps))) \<subseteq> {0}"
  using fold_emplace_sockets [of "[]" ps] by (simp add: Udp_ports_destroy_def Udp_ports_def)

section \<open>Packets are well formed\<close>

fun words_sum :: "bytes \<Rightarrow> u32" where
  "words_sum (a # b # d) = ucast a + push_bit 8 (ucast b) + words_sum d"
| "words_sum _ = 0"

lemma checksum_loop_eq:
  "checksum_loop d s = (if even (length d) then Some (s + words_sum d) else None)"
  by (induction d s rule: checksum_loop.induct) (auto simp: ac_simps)

text \<open>Building a packet always succeeds and never reads outside the data: odd data is padded with a
  zero byte first, the stored length is that of the padded data plus the header, modulo \<open>2 ^ 16\<close>, and the
  ports and the data are kept.\<close>

theorem udp_packet_make_total:
  "\<exists>p. udp_packet_make sp dp data = Some p \<and> pk_source_port p = sp \<and> pk_dest_port p = dp \<and>
     pk_data p = data @ (if even (length data) then [] else [0]) \<and> even (length (pk_data p)) \<and>
     unat (pk_length p) = (length (pk_data p) + 8) mod 65536"
proof -
  let ?d = "data @ (if even (length data) then [] else [0])"
  have "update_length \<lparr>pk_source_port = sp, pk_dest_port = dp, pk_checksum = 0, pk_length = 0, pk_data = ?d\<rparr> =
      \<lparr>pk_source_port = sp, pk_dest_port = dp, pk_checksum = 0, pk_length = of_nat (length ?d + 8),
       pk_data = ?d\<rparr>"
    by (simp add: update_length_def even_iff_mod_2_eq_zero [symmetric] odd_iff_mod_2_eq_one [symmetric])
  moreover have "udp_packet_make sp dp data =
      update_checksum (update_length
        \<lparr>pk_source_port = sp, pk_dest_port = dp, pk_checksum = 0, pk_length = 0, pk_data = ?d\<rparr>)"
    by (simp add: udp_packet_make_def even_iff_mod_2_eq_zero)
  moreover have "unat (of_nat (length ?d + 8) :: u16) = (length ?d + 8) mod 65536"
    by (simp add: unat_of_nat del: of_nat_add)
  ultimately show ?thesis
    by (simp add: update_checksum_def checksum_loop_eq del: of_nat_add)
qed

section \<open>Nothing is forwarded\<close>

lemma move_loop_eq: "move_loop q count = Some (count, q)"
  by (simp add: move_loop.simps default_packet packet_is_empty_def)

lemma push_bytes_eq: "push_bytes inp q = Some (q\<lparr>iq_raw := iq_raw q @ inp\<rparr>)"
  by (simp add: push_bytes_def move_bytes_to_packets_def move_loop_eq)

fun push_all :: "bytes list \<Rightarrow> input_queue \<Rightarrow> input_queue option" where
  "push_all [] q = Some q"
| "push_all (inp # inps) q = (case push_bytes inp q of None \<Rightarrow> None | Some q' \<Rightarrow> push_all inps q')"

lemma push_all_eq: "push_all inps q = Some (q\<lparr>iq_raw := iq_raw q @ concat inps\<rparr>)"
  by (induction inps arbitrary: q) (simp_all add: push_bytes_eq)

lemma recv_loop_eq:
  "list_all (\<lambda>(n, sock). net sock \<noteq> Recv_failed) m \<Longrightarrow> recv_loop net m out = Inr out"
proof (induction m arbitrary: out)
  case (Cons x m)
  obtain n sock where x: "x = (n, sock)" by (cases x)
  have IH: "recv_loop net m out = Inr out" for out using Cons by simp
  show ?case
  proof (cases "net sock")
    case (Datagram sp data)
    obtain p where "udp_packet_make sp n data = Some p"
      by (cases "even (length data)") (auto simp: udp_packet_make_def update_checksum_def
          update_length_def checksum_loop_eq Let_def odd_iff_mod_2_eq_one)
    then show ?thesis using Datagram IH x by (simp add: to_bytes_def)
  qed (use Cons IH x in simp_all)
qed simp

text \<open>The UDP path forwards nothing.  With the SLIP calls commented out, every byte pushed into the
  input queue stays in its raw buffer, no packet ever becomes available and \<open>pop_packet\<close> gives an empty
  packet; and whatever datagrams the ports receive, \<open>recv_bytes\<close> has nothing for the serial port.\<close>

theorem udp_path_forwards_nothing:
  "push_all inps input_queue_new = Some \<lparr>iq_raw = concat inps, iq_packets = []\<rparr> \<and>
   \<not> is_packet_available \<lparr>iq_raw = concat inps, iq_packets = []\<rparr> \<and>
   (\<exists>p. pop_packet \<lparr>iq_raw = concat inps, iq_packets = []\<rparr> =
          Some (p, \<lparr>iq_raw = concat inps, iq_packets = []\<rparr>) \<and> packet_is_empty p) \<and>
   (list_all (\<lambda>(n, sock). net sock \<noteq> Recv_failed) (port_sockets u) \<longrightarrow> recv_bytes net u = Inr [])"
proof (intro conjI impI)
  show "push_all inps input_queue_new = Some \<lparr>iq_raw = concat inps, iq_packets = []\<rparr>"
    by (simp add: push_all_eq input_queue_new_def)
  show "\<exists>p. pop_packet \<lparr>iq_raw = concat inps, iq_packets = []\<rparr> =
          Some (p, \<lparr>iq_raw = concat inps, iq_packets = []\<rparr>) \<and> packet_is_empty p"
    using default_is_empty by (simp add: pop_packet_def default_packet)
qed (simp_all add: is_packet_available_def recv_bytes_def recv_loop_eq)

theorem udp_path_forwards_nothing_witness:
  "push_all [[192, 1], [2]] input_queue_new = Some \<lparr>iq_raw = [192, 1, 2], iq_packets = []\<rparr> \<and>
   recv_bytes (\<lambda>_. Datagram 80 [1, 2, 3]) (Udp_ports [] [] [4000, 4001]) = Inr []"
  using udp_path_forwards_nothing [of "[[192, 1], [2]]" "\<lambda>_. Datagram 80 [1, 2, 3]"
      "Udp_ports [] [] [4000, 4001]"] by (simp add: Udp_ports_def)

section \<open>The disabled rest of the decoder\<close>

text \<open>
  What follows the early return of \<open>from_bytes\<close> stands under \<open>#if 0\<close>.  \<open>unpack_udp\<close> is its last part, which takes the
  bytes of a UDP packet apart; \<open>from_bytes_rest\<close> is what happens to a decoded message \<open>input\<close> of \<open>i\<close> bytes on the
  wire.  The method \<open>from_bytes\<close> of the class \<open>IPv4\<close> is declared and defined nowhere: the parameter \<open>ip_from\<close>
  gives the length of the header in words and the protocol, or \<^const>\<open>None\<close> for an invalid header.  The value \<^const>\<open>None\<close>
  of the result stands for reading or erasing outside the vector.
\<close>

definition unpack_udp :: "bytes \<Rightarrow> udp_packet \<Rightarrow> udp_packet option" where
  "unpack_udp inp p =
     (if length inp mod 2 = 0 \<and> UDP_PACKET_HEADER_SIZE \<le> length inp then
        (let source_port = of_le16 (inp ! 0) (inp ! 1);
             dest_port = of_le16 (inp ! 2) (inp ! 3);
             length_expected = of_le16 (inp ! 4) (inp ! 5);
             checksum_expected = of_le16 (inp ! 6) (inp ! 7)
         in if unat length_expected = length inp then
              (case checksum_loop (drop UDP_PACKET_HEADER_SIZE inp)
                      (ucast source_port + ucast dest_port + ucast length_expected) of
                 None \<Rightarrow> None
               | Some s \<Rightarrow>
                   (let checksum_measured = ucast (NOT (drop_bit 16 (s AND 0xFFFF0000) OR (s AND 0xFFFF)))
                    in if checksum_measured = checksum_expected then
                         Some (p\<lparr>pk_source_port := source_port, pk_dest_port := dest_port, pk_length := length_expected,
                                 pk_checksum := checksum_expected, pk_data := drop UDP_PACKET_HEADER_SIZE inp\<rparr>)
                       else Some p))
            else Some p)
      else Some p)"

definition from_bytes_rest ::
    "(bytes \<Rightarrow> (nat \<times> u8) option) \<Rightarrow> nat \<Rightarrow> bytes \<Rightarrow> udp_packet \<Rightarrow> (nat \<times> udp_packet) option" where
  "from_bytes_rest ip_from i inp p =
     (case ip_from inp of
        None \<Rightarrow> Some (i, p)
      | Some (header_length_words, protocol) \<Rightarrow>
          (if protocol \<noteq> 0x11 then Some (i, p)
           else if length inp < header_length_words * 4 then None
           else map_option (Pair i) (unpack_udp (drop (header_length_words * 4) inp) p)))"

lemma split_word: "of_le16 (ucast (x AND 0x00FF)) (ucast (drop_bit 8 (x AND 0xFF00))) = (x :: u16)"
proof (rule bit_eqI)
  fix n
  assume "possible_bit TYPE(16 word) n"
  then have "n < 16" by simp
  moreover have "bit (0xFF :: u16) n \<longleftrightarrow> n < 8" if "n < 16" for n
  proof -
    have m: "(0xFF :: u16) = mask 8" by (simp add: mask_eq_exp_minus_1)
    show ?thesis unfolding m bit_mask_iff using that by simp
  qed
  moreover have "bit (0xFF00 :: u16) n \<longleftrightarrow> 8 \<le> n" if "n < 16" for n
  proof -
    have m: "(0xFF00 :: u16) = push_bit 8 (mask 8)" by (simp add: mask_eq_exp_minus_1 push_bit_eq_mult)
    show ?thesis unfolding m bit_push_bit_iff bit_mask_iff using that by auto
  qed
  ultimately show "bit (of_le16 (ucast (x AND 0x00FF)) (ucast (drop_bit 8 (x AND 0xFF00)))) n \<longleftrightarrow> bit x n"
    by (auto simp: of_le16_def bit_or_iff bit_push_bit_iff bit_ucast_iff bit_drop_bit_eq bit_and_iff)
qed

lemma packet_raw_parts:
  "length (packet_raw p) = 8 + length (pk_data p)" "drop 8 (packet_raw p) = pk_data p"
  "of_le16 (packet_raw p ! 0) (packet_raw p ! 1) = pk_source_port p"
  "of_le16 (packet_raw p ! 2) (packet_raw p ! 3) = pk_dest_port p"
  "of_le16 (packet_raw p ! 4) (packet_raw p ! 5) = pk_length p"
  "of_le16 (packet_raw p ! 6) (packet_raw p ! 7) = pk_checksum p"
  using split_word by (simp_all add: packet_raw_def numeral_eq_Suc)

lemma make_checksum:
  assumes "udp_packet_make sp dp data = Some p"
  shows "\<exists>s. checksum_loop (pk_data p) (ucast (pk_source_port p) + ucast (pk_dest_port p) + ucast (pk_length p)) = Some s \<and>
    pk_checksum p = ucast (NOT (drop_bit 16 (s AND 0xFFFF0000) OR (s AND 0xFFFF)))"
  using assms by (auto simp: udp_packet_make_def update_checksum_def Let_def update_length_def split: if_splits)

text \<open>The two disabled halves fit together.  What \<open>to_bytes\<close> lays out for a packet, behind an IP header that is
  valid, of protocol UDP and of the length it states, is read back as that packet, whatever the packet object held
  before; but not when the data with its padding exceeds 65527 bytes, for then the stored length has wrapped
  around and the packet is passed over.\<close>

theorem udp_layout_roundtrip:
  assumes "udp_packet_make sp dp data = Some p" "ip_from (hdr @ packet_raw p) = Some (w, 0x11)" "length hdr = w * 4"
  shows "from_bytes_rest ip_from i (hdr @ packet_raw p) q = Some (i, if length (pk_data p) + 8 < 65536 then p else q)"
proof -
  obtain s where s: "checksum_loop (pk_data p) (ucast (pk_source_port p) + ucast (pk_dest_port p) + ucast (pk_length p)) = Some s"
    "pk_checksum p = ucast (NOT (drop_bit 16 (s AND 0xFFFF0000) OR (s AND 0xFFFF)))"
    using make_checksum [OF assms(1)] by blast
  have len: "even (length (pk_data p))" "unat (pk_length p) = (length (pk_data p) + 8) mod 65536"
    using udp_packet_make_total [of sp dp data] assms(1) by auto
  have "unat (pk_length p) = 8 + length (pk_data p) \<longleftrightarrow> length (pk_data p) + 8 < 65536"
    using len(2) by (metis add.commute mod_less mod_less_divisor zero_less_numeral)
  moreover have "q\<lparr>pk_source_port := pk_source_port p, pk_dest_port := pk_dest_port p, pk_length := pk_length p,
      pk_checksum := pk_checksum p, pk_data := pk_data p\<rparr> = p" by (cases p; cases q) simp
  moreover have "(8 + length (pk_data p)) mod 2 = 0" using len(1) by presburger
  ultimately have "unpack_udp (packet_raw p) q = Some (if length (pk_data p) + 8 < 65536 then p else q)"
    unfolding unpack_udp_def Let_def UDP_PACKET_HEADER_SIZE_def packet_raw_parts s(1) option.case s(2) [symmetric]
    by simp
  then show ?thesis using assms(2,3) by (simp add: from_bytes_rest_def)
qed

theorem udp_layout_roundtrip_witness:
  "\<exists>p. udp_packet_make 4000 4001 [66, 108, 97] = Some p \<and>
     from_bytes_rest (\<lambda>_. Some (5, 0x11)) 30 (replicate 20 0 @ packet_raw p) p = Some (30, p) \<and> pk_data p = [66, 108, 97, 0]"
proof -
  obtain p where p: "udp_packet_make 4000 4001 [66, 108, 97] = Some p" "pk_data p = [66, 108, 97, 0]"
    using udp_packet_make_total [of 4000 4001 "[66, 108, 97]"] by auto
  with udp_layout_roundtrip [OF p(1), of "\<lambda>_. Some (5, 0x11)" "replicate 20 0" 5 30 p] show ?thesis by auto
qed

end
