(* ===== verification/C_lang.thy ===== *)
theory C_lang
  imports Prelude
begin

text \<open>
  What the C sources (\<^verbatim>\<open>udptoserial/*.c\<close>) use of their language and library: the ways a C program goes
  wrong as values, results that carry them, character classes, hexadecimal printing and \<open>strlen\<close>.
  Text buffers are strings, binary data are bytes.
\<close>

section \<open>Errors and results\<close>

text \<open>A failed \<open>assert\<close>, a call of \<open>abort()\<close>, and the undefined behaviours: an access outside an object,
  through a null pointer or a pointer that was freed or never set, signed overflow, and a negative character given to a
  function of \<^verbatim>\<open>ctype.h\<close>.\<close>

datatype c_error =
    Assertion_failed
  | Abort_called
  | Out_of_bounds
  | Null_pointer
  | Dangling_pointer
  | Indeterminate_pointer
  | Signed_overflow
  | Negative_character

type_synonym 'a c_result = "c_error + 'a"

definition c_bind :: "'a c_result \<Rightarrow> ('a \<Rightarrow> 'b c_result) \<Rightarrow> 'b c_result" where
  "c_bind r f = (case r of Inl e \<Rightarrow> Inl e | Inr x \<Rightarrow> f x)"

lemma c_bind_simps [simp]: "c_bind (Inl e) f = Inl e" "c_bind (Inr x) f = f x"
  by (simp_all add: c_bind_def)

lemma c_bind_Inr: "c_bind r f = Inr y \<longleftrightarrow> (\<exists>x. r = Inr x \<and> f x = Inr y)"
  by (cases r) simp_all

text \<open>A computation that may not return at all, which is \<^const>\<open>None\<close>.\<close>

type_synonym 'a c_run = "'a c_result option"

definition run_bind :: "'a c_run \<Rightarrow> ('a \<Rightarrow> 'b c_run) \<Rightarrow> 'b c_run" where
  "run_bind r f = (case r of None \<Rightarrow> None | Some (Inl e) \<Rightarrow> Some (Inl e) | Some (Inr x) \<Rightarrow> f x)"

lemma run_bind_simps [simp]:
  "run_bind None f = None" "run_bind (Some (Inl e)) f = Some (Inl e)" "run_bind (Some (Inr x)) f = f x"
  by (simp_all add: run_bind_def)

section \<open>Characters\<close>

text \<open>Sixteen-bit numbers print as four hexadecimal digits under \<^verbatim>\<open>%04x\<close>; larger ones take more.\<close>

definition hex_digit :: "nat \<Rightarrow> char" where
  "hex_digit n = ''0123456789abcdef'' ! n"

fun hex_digits :: "nat \<Rightarrow> string" where
  "hex_digits n = (if n < 16 then [hex_digit n] else hex_digits (n div 16) @ [hex_digit (n mod 16)])"

declare hex_digits.simps [simp del]

definition hex04 :: "nat \<Rightarrow> string" where
  "hex04 n = (let s = hex_digits n in replicate (4 - length s) CHR ''0'' @ s)"

text \<open>\<open>isxdigit\<close>, and its call with a plain character.\<close>

definition isxdigit :: "char \<Rightarrow> bool" where
  "isxdigit c \<longleftrightarrow> c \<in> set ''0123456789abcdefABCDEF''"

definition isxdigit_char :: "char \<Rightarrow> bool c_result" where
  "isxdigit_char c = (if ascii c then Inr (isxdigit c) else Inl Negative_character)"

text \<open>The conjunction of the calls on several characters, which stops at the first one that is not a digit.\<close>

fun all_xdigits :: "string \<Rightarrow> bool c_result" where
  "all_xdigits [] = Inr True"
| "all_xdigits (c # s) = c_bind (isxdigit_char c) (\<lambda>b. if b then all_xdigits s else Inr False)"

lemma all_xdigits_cases:
  "(\<exists>b. all_xdigits s = Inr b \<and> (b \<longrightarrow> list_all isxdigit s)) \<or>
   all_xdigits s = Inl Negative_character \<and> \<not> list_all ascii s"
proof (induction s)
  case (Cons c s)
  then show ?case by (cases "ascii c"; cases "isxdigit c") (auto simp: isxdigit_char_def)
qed auto

lemma isxdigit_ascii: "isxdigit c \<Longrightarrow> ascii c"
  by (auto simp: isxdigit_def)

lemma all_xdigits_True: "list_all isxdigit s \<Longrightarrow> all_xdigits s = Inr True"
  by (induction s) (simp_all add: isxdigit_char_def isxdigit_ascii)

text \<open>A buffer as a string; \<open>strlen\<close> is where its first null character is, if there is one.\<close>

definition NUL :: char where "NUL = CHR 0x00"

definition c_strlen :: "string \<Rightarrow> nat c_result" where
  "c_strlen s = (case find_index (\<lambda>c. c = NUL) s of None \<Rightarrow> Inl Out_of_bounds | Some n \<Rightarrow> Inr n)"

section \<open>Hexadecimal text\<close>

lemma nibble_cases:
  "n < 16 \<Longrightarrow> n \<in> set [0, 1, 2, 3, 4, 5, 6, 7, 8, 9, 10, 11, 12, 13, 14, 15 :: nat]"
  by (simp, arith)

lemma hex_digit_plain:
  assumes "n < 16"
  shows "isxdigit (hex_digit n)" "hex_digit n \<in> set ''0123456789abcdef''"
  using nibble_cases [OF assms] by (auto simp: hex_digit_def isxdigit_def)

lemma hex_digits_simps:
  "n < 16 \<Longrightarrow> hex_digits n = [hex_digit n]"
  "16 \<le> n \<Longrightarrow> hex_digits n = hex_digits (n div 16) @ [hex_digit (n mod 16)]"
  by (simp_all add: hex_digits.simps [of n])

lemma hex04_eq:
  assumes "n < 65536"
  shows "hex04 n = [hex_digit (n div 4096), hex_digit (n div 256 mod 16), hex_digit (n div 16 mod 16),
    hex_digit (n mod 16)]"
proof -
  have zero: "hex_digit 0 = CHR ''0''" by (simp add: hex_digit_def)
  consider "n < 16" | "16 \<le> n" "n < 256" | "256 \<le> n" "n < 4096" | "4096 \<le> n" by linarith
  then show ?thesis
  proof cases
    case 1
    then show ?thesis by (simp add: hex04_def hex_digits_simps zero numeral_3_eq_3)
  next
    case 2
    then have "n div 16 < 16" by simp
    then show ?thesis using 2 by (simp add: hex04_def hex_digits_simps zero numeral_2_eq_2)
  next
    case 3
    then have "16 \<le> n div 16" "n div 16 div 16 < 16" by simp_all
    then show ?thesis using 3 by (simp add: hex04_def hex_digits_simps zero div_mult2_eq [symmetric])
  next
    case 4
    then have "16 \<le> n div 16" "16 \<le> n div 16 div 16" "n div 16 div 16 div 16 < 16"
      using assms by (simp_all add: div_mult2_eq [symmetric])
    then show ?thesis using 4 by (simp add: hex04_def hex_digits_simps div_mult2_eq [symmetric])
  qed
qed

lemma hex04_text:
  assumes "n < 65536"
  shows "length (hex04 n) = 4" "set (hex04 n) \<subseteq> set ''0123456789abcdef''"
proof -
  have "n div 4096 < 16" using assms by simp
  then show "length (hex04 n) = 4" "set (hex04 n) \<subseteq> set ''0123456789abcdef''"
    unfolding hex04_eq [OF assms] using hex_digit_plain(2) by simp_all
qed

end
