(* ===== verification/Serial_c.thy ===== *)
theory Serial_c
  imports C_lang
begin

text \<open>
  The serial port of the C program, \<^verbatim>\<open>udptoserial/serial.c\<close>: finding and opening the device, reading its
  settings and writing to it, on Linux and on Windows.  The operating system is a parameter, a record of
  what its calls return; the terminal flags are those of Linux.  Messages to the user are left out.
\<close>

section \<open>Types\<close>

datatype serial_port_parity = SP_NOPARITY | SP_ODDPARITY | SP_EVENPARITY

record serial_port =
  sp_handle :: int
  sp_ttyname :: "string option"
  sp_baud_rate :: int
  sp_byte_size :: int
  sp_stop_bits :: int
  sp_parity :: serial_port_parity

text \<open>What \<open>memset\<close> with zero gives.\<close>

definition zero_port :: serial_port where
  "zero_port = \<lparr>sp_handle = 0, sp_ttyname = None, sp_baud_rate = 0, sp_byte_size = 0, sp_stop_bits = 0,
     sp_parity = SP_NOPARITY\<rparr>"

section \<open>Strings on the heap\<close>

text \<open>The string that a buffer holds, for a function that reads up to the null character.\<close>

definition c_string :: "string \<Rightarrow> string c_result" where
  "c_string buf = c_bind (c_strlen buf) (\<lambda>n. Inr (take n buf))"

text \<open>\<open>strdup\<close> of a string: a block of its characters and the null character, or a null pointer.\<close>

definition strdup :: "(nat \<Rightarrow> bool) \<Rightarrow> string \<Rightarrow> string option" where
  "strdup alloc s = (if alloc (length s + 1) then Some (s @ [NUL]) else None)"

definition isdigit :: "char \<Rightarrow> bool" where "isdigit c \<longleftrightarrow> c \<in> set ''0123456789''"

text \<open>A port name is a null pointer or a string.  The last case fills the whole block, so that the block
  holds no null character.\<close>

definition make_full_port_name_linux :: "(nat \<Rightarrow> bool) \<Rightarrow> string option \<Rightarrow> string option c_result" where
  "make_full_port_name_linux alloc port_name =
     (case port_name of
        None \<Rightarrow> Inr (strdup alloc ''/dev/ttyS1'')
      | Some name \<Rightarrow>
          if length name = 0 then Inr (strdup alloc ''/dev/ttyS1'')
          else if name ! 0 = CHR ''/'' then Inr (strdup alloc name)
          else if length name = 1 \<or> isdigit (name ! 0) then
            (case strdup alloc ''/dev/ttyS0'' of
               None \<Rightarrow> Inl Null_pointer
             | Some full \<Rightarrow> Inr (Some (full[9 := name ! 0])))
          else if alloc (length name + 5) then Inr (Some (''/dev/'' @ name))
          else Inl Null_pointer)"

section \<open>Terminal settings\<close>

record termios =
  c_iflag :: u32
  c_oflag :: u32
  c_cflag :: u32
  c_lflag :: u32

definition CSIZE :: u32 where "CSIZE = 0x30"
definition CS5 :: u32 where "CS5 = 0x00"
definition CS6 :: u32 where "CS6 = 0x10"
definition CS7 :: u32 where "CS7 = 0x20"
definition CS8 :: u32 where "CS8 = 0x30"
definition CSTOPB :: u32 where "CSTOPB = 0x40"
definition PARENB :: u32 where "PARENB = 0x100"
definition PARODD :: u32 where "PARODD = 0x200"
definition CBAUD :: u32 where "CBAUD = 0x100F"

lemmas cflag_defs = CSIZE_def CS5_def CS6_def CS7_def CS8_def CSTOPB_def PARENB_def PARODD_def CBAUD_def

definition cfmakeraw :: "termios \<Rightarrow> termios" where
  "cfmakeraw t =
     t\<lparr>c_iflag := c_iflag t AND NOT 0x5EB, c_oflag := c_oflag t AND NOT 1,
       c_cflag := (c_cflag t AND NOT (CSIZE OR PARENB)) OR CS8, c_lflag := c_lflag t AND NOT 0x804B\<rparr>"

definition cfgetospeed :: "termios \<Rightarrow> u32" where "cfgetospeed t = c_cflag t AND CBAUD"

definition speed_to_bps :: "u32 \<Rightarrow> int" where
  "speed_to_bps speed =
     (if speed = 0 then 0 else if speed = 1 then 50 else if speed = 2 then 75 else if speed = 3 then 110
      else if speed = 4 then 134 else if speed = 5 then 150 else if speed = 6 then 200
      else if speed = 7 then 300 else if speed = 8 then 600 else if speed = 9 then 1200
      else if speed = 10 then 1800 else if speed = 11 then 2400 else if speed = 12 then 4800
      else if speed = 13 then 9600 else if speed = 14 then 19200 else if speed = 15 then 38400
      else if speed = 0x1001 then 57600 else if speed = 0x1002 then 115200
      else if speed = 0x1003 then 230400 else - 1)"

section \<open>Opening on Linux\<close>

text \<open>The calls: the name is \<^const>\<open>None\<close> for a null pointer, \<open>os_ttyname\<close> is the name of the terminal
  behind a handle and \<open>os_tcsetattr\<close> says whether new settings are taken.\<close>

record tty_os =
  os_open :: "string option \<Rightarrow> int"
  os_isatty :: "int \<Rightarrow> int"
  os_ttyname :: "int \<Rightarrow> string option"
  os_tcgetattr :: "int \<Rightarrow> termios option"
  os_tcsetattr :: "int \<Rightarrow> termios \<Rightarrow> bool"

definition TTY_NAME_MAX_LEN_LINUX :: nat where "TTY_NAME_MAX_LEN_LINUX = 13"

text \<open>\<open>ttyname_r\<close> fails when the buffer has no room for the name and its null character.\<close>

definition ttyname_r :: "tty_os \<Rightarrow> int \<Rightarrow> nat \<Rightarrow> string option" where
  "ttyname_r os fd buflen =
     (case os_ttyname os fd of
        None \<Rightarrow> None
      | Some name \<Rightarrow> if length name < buflen then Some name else None)"

definition open_name :: "tty_os \<Rightarrow> string option \<Rightarrow> int c_result" where
  "open_name os full =
     (case full of
        None \<Rightarrow> Inr (os_open os None)
      | Some buf \<Rightarrow> c_bind (c_string buf) (\<lambda>name. Inr (os_open os (Some name))))"

definition gather_settings :: "termios \<Rightarrow> serial_port \<Rightarrow> serial_port" where
  "gather_settings tinfo sp =
     (let size = c_cflag tinfo AND CSIZE;
          sp = sp\<lparr>sp_baud_rate := speed_to_bps (cfgetospeed tinfo),
                  sp_byte_size := (if size = CS5 then 5 else if size = CS6 then 6 else if size = CS7 then 7
                                   else if size = CS8 then 8 else sp_byte_size sp),
                  sp_stop_bits := (if c_cflag tinfo AND CSTOPB \<noteq> 0 then 2 else 1)\<rparr>
      in sp\<lparr>sp_parity := (if c_cflag tinfo AND PARENB = 0 then SP_NOPARITY
                          else if c_cflag tinfo AND PARODD \<noteq> 0 then SP_ODDPARITY else SP_EVENPARITY)\<rparr>)"

text \<open>The label \<open>err_tty\<close>: the handles closed, and the null pointer returned.\<close>

definition err_tty :: "serial_port \<Rightarrow> serial_port option \<times> int list" where
  "err_tty sp = (None, if sp_handle sp > 0 then [sp_handle sp] else [])"

text \<open>The result is the port or a null pointer, and the handles that were closed again.\<close>

definition serial_port_setup :: "(nat \<Rightarrow> bool) \<Rightarrow> tty_os \<Rightarrow> int \<Rightarrow> serial_port option \<times> int list" where
  "serial_port_setup alloc os handle =
     (let sp = zero_port\<lparr>sp_handle := handle\<rparr>
      in if handle = - 1 \<or> os_isatty os handle \<noteq> 1 then (None, [])
         else
           (case ttyname_r os handle TTY_NAME_MAX_LEN_LINUX of
              None \<Rightarrow> err_tty sp
            | Some name \<Rightarrow>
                (let sp = sp\<lparr>sp_ttyname := strdup alloc name\<rparr>
                 in case os_tcgetattr os handle of
                      None \<Rightarrow> err_tty sp
                    | Some tinfo \<Rightarrow>
                        (let tinfo = cfmakeraw tinfo
                         in if \<not> os_tcsetattr os handle tinfo then err_tty sp
                            else (Some (gather_settings tinfo sp), [])))))"

definition serial_port_new_linux ::
    "(nat \<Rightarrow> bool) \<Rightarrow> tty_os \<Rightarrow> string option \<Rightarrow> (serial_port option \<times> int list) c_result" where
  "serial_port_new_linux alloc os port_name =
     (if \<not> alloc 40 then Inl Null_pointer
      else
        c_bind (make_full_port_name_linux alloc port_name) (\<lambda>full.
        c_bind (open_name os full) (\<lambda>handle.
        Inr (serial_port_setup alloc os handle))))"

section \<open>Opening on Windows\<close>

text \<open>The part of the device control block that is used, with the values of Windows: stop bits 0, 1 and 2
  for one, one and a half and two, parity 0, 1 and 2 for none, odd and even.\<close>

record dcb =
  BaudRate :: u32
  ByteSize :: u8
  Parity :: u8
  StopBits :: u8

record comm_os =
  CreateFileA :: "string \<Rightarrow> int"
  GetCommState :: "int \<Rightarrow> dcb option"

definition zero_dcb :: dcb where "zero_dcb = \<lparr>BaudRate = 0, ByteSize = 0, Parity = 0, StopBits = 0\<rparr>"

text \<open>A call that fails is reported and the opening goes on.  The rate is an unsigned number kept in an
  \<open>int\<close>.\<close>

definition serial_port_new_win32 :: "(nat \<Rightarrow> bool) \<Rightarrow> comm_os \<Rightarrow> string \<Rightarrow> serial_port c_result" where
  "serial_port_new_win32 alloc os port_name =
     (if \<not> alloc 40 then Inl Null_pointer
      else
        (let h_serial = CreateFileA os port_name;
             params = (case GetCommState os h_serial of None \<Rightarrow> zero_dcb | Some d \<Rightarrow> d);
             sp = zero_port\<lparr>sp_baud_rate := sint (BaudRate params), sp_byte_size := uint (ByteSize params),
                            sp_handle := h_serial\<rparr>;
             sp = (if Parity params = 0 then sp\<lparr>sp_parity := SP_NOPARITY\<rparr> else sp);
             sp = (if Parity params = 1 then sp\<lparr>sp_parity := SP_ODDPARITY\<rparr> else sp);
             sp = (if Parity params = 2 then sp\<lparr>sp_parity := SP_EVENPARITY\<rparr> else sp);
             sp = (if StopBits params = 0 then sp\<lparr>sp_stop_bits := 1\<rparr> else sp);
             sp = (if StopBits params = 2 then sp\<lparr>sp_stop_bits := 2\<rparr> else sp)
         in Inr (sp\<lparr>sp_ttyname := strdup alloc port_name\<rparr>)))"

section \<open>Sending\<close>

text \<open>What has been written: the characters on the line and those on the standard output.  \<open>wr\<close> is what
  \<open>write\<close> returns for a text, the number of characters taken or a negative number.\<close>

record io =
  tty_out :: string
  std_out :: string

definition serial_port_send_linux ::
    "(string \<Rightarrow> int) \<Rightarrow> serial_port option \<Rightarrow> string \<Rightarrow> nat \<Rightarrow> io \<Rightarrow> io c_result" where
  "serial_port_send_linux wr sp buf len io =
     (if length buf < len then Inl Out_of_bounds
      else
        (case sp of
           None \<Rightarrow> Inr (io\<lparr>std_out := std_out io @ ''NO SERIAL PORT...'' @ [CHR 0x0A] @ take len buf @ [CHR 0x0A]\<rparr>)
         | Some port \<Rightarrow>
             (let bytes_written = wr (take len buf)
              in if bytes_written < 0 then Inr io
                 else Inr (io\<lparr>tty_out := tty_out io @ take (nat bytes_written) (take len buf)\<rparr>))))"

text \<open>On Windows \<open>wr\<close> returns the status and the number of characters taken; after a failure the error
  flags are fetched and dropped.\<close>

definition serial_port_send_win32 ::
    "(string \<Rightarrow> bool \<times> u32) \<Rightarrow> serial_port option \<Rightarrow> string \<Rightarrow> nat \<Rightarrow> io \<Rightarrow> io c_result" where
  "serial_port_send_win32 wr sp buf len io =
     (if length buf < len then Inl Out_of_bounds
      else
        (case sp of
           None \<Rightarrow> Inr (io\<lparr>std_out := std_out io @ ''NO SERIAL PORT...'' @ [CHR 0x0A] @ take len buf @ [CHR 0x0A]\<rparr>)
         | Some port \<Rightarrow>
             (let dNoOFBytestoWrite = len mod 2 ^ 32; (status, written) = wr (take dNoOFBytestoWrite buf)
              in Inr (io\<lparr>tty_out := tty_out io @ take (unat written) (take dNoOFBytestoWrite buf)\<rparr>))))"

text \<open>The entry points, on Linux.\<close>

definition serial_port_new ::
    "(nat \<Rightarrow> bool) \<Rightarrow> tty_os \<Rightarrow> string option \<Rightarrow> (serial_port option \<times> int list) c_result" where
  "serial_port_new = serial_port_new_linux"

definition serial_port_send ::
    "(string \<Rightarrow> int) \<Rightarrow> serial_port option \<Rightarrow> string \<Rightarrow> nat \<Rightarrow> io \<Rightarrow> io c_result" where
  "serial_port_send = serial_port_send_linux"

section \<open>Port names\<close>

lemma c_string_terminated: "NUL \<notin> set s \<Longrightarrow> c_string (s @ NUL # rest) = Inr s"
proof -
  assume "NUL \<notin> set s"
  then have "find_index (\<lambda>c. c = NUL) (s @ NUL # rest) = Some (length s)"
    by (intro find_index_skip) auto
  then show ?thesis by (simp only: c_string_def c_strlen_def) simp
qed

lemma c_string_unterminated: "NUL \<notin> set s \<Longrightarrow> c_string s = Inl Out_of_bounds"
proof -
  assume "NUL \<notin> set s"
  then have "find_index (\<lambda>c. c = NUL) s = None" by auto
  then show ?thesis by (simp only: c_string_def c_strlen_def) simp
qed

text \<open>The names that the documentation of the function gives, for a name that is empty, a path, a number
  or something else.\<close>

definition port_path :: "string \<Rightarrow> string" where
  "port_path name =
     (if name = [] then ''/dev/ttyS1''
      else if hd name = CHR ''/'' then name
      else if length name = 1 \<or> isdigit (hd name) then ''/dev/ttyS'' @ [hd name]
      else ''/dev/'' @ name)"

text \<open>A name that is neither empty nor a path nor begins with a digit nor is a single character.\<close>

definition device_name :: "string \<Rightarrow> bool" where
  "device_name name \<longleftrightarrow> 1 < length name \<and> hd name \<noteq> CHR ''/'' \<and> \<not> isdigit (hd name)"

lemma full_port_name:
  assumes "\<And>n. alloc n"
  shows "make_full_port_name_linux alloc (Some name) =
    Inr (Some (port_path name @ (if device_name name then [] else [NUL])))"
proof (cases name)
  case (Cons c cs)
  have nine: "''/dev/ttyS0'' @ [NUL] = ''/dev/ttyS'' @ CHR ''0'' # [NUL]" by simp
  then have "(''/dev/ttyS0'' @ [NUL])[9 := c] = ''/dev/ttyS'' @ [c, NUL]"
    unfolding nine by (simp only: list_update_append) simp
  then show ?thesis using Cons
    by (auto simp: make_full_port_name_linux_def strdup_def assms port_path_def device_name_def)
qed (simp add: make_full_port_name_linux_def strdup_def assms port_path_def device_name_def)

text \<open>Opening by name: the device of the path is opened, unless the name is that of a device without its
  directory, whose path has no end.\<close>

lemma open_name_result:
  assumes "\<And>n. alloc n" "NUL \<notin> set name"
  shows "c_bind (make_full_port_name_linux alloc (Some name)) (open_name os) =
    (if device_name name then Inl Out_of_bounds else Inr (os_open os (Some (port_path name))))"
proof -
  have "NUL \<notin> set (port_path name)"
    using assms(2) hd_in_set [of name] by (auto simp: port_path_def NUL_def)
  then show ?thesis
    by (simp add: full_port_name [OF assms(1)] open_name_def c_string_terminated c_string_unterminated)
qed

section \<open>Settings\<close>

lemma raw_settings:
  "sp_byte_size (gather_settings (cfmakeraw t) sp) = 8"
  "sp_parity (gather_settings (cfmakeraw t) sp) = SP_NOPARITY"
  "sp_stop_bits (gather_settings (cfmakeraw t) sp) = (if c_cflag t AND CSTOPB = 0 then 1 else 2)"
  "sp_baud_rate (gather_settings (cfmakeraw t) sp) = speed_to_bps (cfgetospeed t)"
  "sp_handle (gather_settings (cfmakeraw t) sp) = sp_handle sp"
  "sp_ttyname (gather_settings (cfmakeraw t) sp) = sp_ttyname sp"
proof -
  let ?c = "c_cflag (cfmakeraw t)"
  have c: "?c = (c_cflag t AND NOT 0x130) OR 0x30" by (simp add: cfmakeraw_def cflag_defs)
  have s: "?c AND CSIZE = CS8" "?c AND PARENB = 0" "?c AND CSTOPB = c_cflag t AND CSTOPB"
    "?c AND CBAUD = c_cflag t AND CBAUD"
    unfolding c cflag_defs by (simp_all add: bit.conj_disj_distrib2 and.assoc)
  have "CS8 \<noteq> CS5" "CS8 \<noteq> CS6" "CS8 \<noteq> CS7" by (simp_all add: cflag_defs)
  then show "sp_byte_size (gather_settings (cfmakeraw t) sp) = 8"
    "sp_parity (gather_settings (cfmakeraw t) sp) = SP_NOPARITY"
    "sp_stop_bits (gather_settings (cfmakeraw t) sp) = (if c_cflag t AND CSTOPB = 0 then 1 else 2)"
    "sp_baud_rate (gather_settings (cfmakeraw t) sp) = speed_to_bps (cfgetospeed t)"
    "sp_handle (gather_settings (cfmakeraw t) sp) = sp_handle sp"
    "sp_ttyname (gather_settings (cfmakeraw t) sp) = sp_ttyname sp"
    by (simp_all add: gather_settings_def Let_def s cfgetospeed_def)
qed

section \<open>Opening\<close>

text \<open>Opening a serial port by name.  For a path, a number, a single character or an empty name the
  device is looked for at one place under \<^verbatim>\<open>/dev\<close>; a port is returned only for a terminal, and it has the
  handle and the rate of that terminal, eight bits and no parity, whatever its settings were before.  A
  terminal that cannot be set up is closed again.  For the bare name of a device, such as \<^verbatim>\<open>ttyS1\<close>, the
  function reads past the end of the path it has built.\<close>

theorem serial_port_new_linux_outcome:
  fixes os :: tty_os
  assumes "\<And>n. alloc n" "NUL \<notin> set name"
  defines "fd \<equiv> os_open os (Some (port_path name))"
  shows "if device_name name then serial_port_new_linux alloc os (Some name) = Inl Out_of_bounds
    else \<exists>r closed. serial_port_new_linux alloc os (Some name) = Inr (r, closed) \<and>
      (case r of
         Some sp \<Rightarrow> closed = [] \<and> sp_handle sp = fd \<and> os_isatty os fd = 1 \<and> sp_byte_size sp = 8 \<and>
           sp_parity sp = SP_NOPARITY \<and> sp_stop_bits sp \<in> {1, 2} \<and>
           (\<exists>t. os_tcgetattr os fd = Some t \<and> sp_baud_rate sp = speed_to_bps (cfgetospeed t))
       | None \<Rightarrow> os_isatty os fd = 1 \<and> 0 < fd \<longrightarrow> closed = [fd])"
proof -
  have "serial_port_new_linux alloc os (Some name) =
      c_bind (c_bind (make_full_port_name_linux alloc (Some name)) (open_name os))
        (\<lambda>handle. Inr (serial_port_setup alloc os handle))"
    by (simp add: serial_port_new_linux_def assms(1) full_port_name)
  then have "serial_port_new_linux alloc os (Some name) =
      (if device_name name then Inl Out_of_bounds else Inr (serial_port_setup alloc os fd))"
    by (simp add: open_name_result [OF assms(1,2)] fd_def)
  moreover have "case serial_port_setup alloc os fd of (r, closed) \<Rightarrow>
      (case r of
         Some sp \<Rightarrow> closed = [] \<and> sp_handle sp = fd \<and> os_isatty os fd = 1 \<and> sp_byte_size sp = 8 \<and>
           sp_parity sp = SP_NOPARITY \<and> sp_stop_bits sp \<in> {1, 2} \<and>
           (\<exists>t. os_tcgetattr os fd = Some t \<and> sp_baud_rate sp = speed_to_bps (cfgetospeed t))
       | None \<Rightarrow> os_isatty os fd = 1 \<and> 0 < fd \<longrightarrow> closed = [fd])"
    by (auto simp: serial_port_setup_def Let_def err_tty_def raw_settings zero_port_def split: option.split)
  ultimately show ?thesis by auto
qed

text \<open>A device that is not a terminal stays open.\<close>

lemma not_a_tty_leaks: "os_isatty os handle \<noteq> 1 \<Longrightarrow> serial_port_setup alloc os handle = (None, [])"
  by (simp add: serial_port_setup_def)

text \<open>On Windows a port that cannot be opened is returned all the same, with the rate zero.\<close>

lemma win32_open_failed:
  assumes "alloc 40" "GetCommState os (CreateFileA os name) = None"
  shows "\<exists>sp. serial_port_new_win32 alloc os name = Inr sp \<and> sp_baud_rate sp = 0 \<and> sp_stop_bits sp = 1"
  using assms by (simp add: serial_port_new_win32_def zero_dcb_def zero_port_def Let_def)

text \<open>A system with one terminal, at 9600 bits per second with seven bits and even parity.\<close>

definition one_tty :: tty_os where
  "one_tty = \<lparr>os_open = (\<lambda>n. if n = Some ''/dev/ttyS1'' then 3 else - 1), os_isatty = (\<lambda>_. 1),
     os_ttyname = (\<lambda>_. Some ''/dev/ttyS1''),
     os_tcgetattr = (\<lambda>_. Some \<lparr>c_iflag = 0x500, c_oflag = 5, c_cflag = 0x12D, c_lflag = 0x8A3B\<rparr>),
     os_tcsetattr = (\<lambda>_ _. True)\<rparr>"

theorem serial_port_new_linux_outcome_witness:
  "\<exists>sp. serial_port_new_linux (\<lambda>_. True) one_tty (Some ''1'') = Inr (Some sp, []) \<and> sp_handle sp = 3 \<and>
     sp_byte_size sp = 8 \<and> sp_baud_rate sp = 9600"
proof -
  have p: "port_path ''1'' = ''/dev/ttyS1''" "\<not> device_name ''1''"
    by (simp_all add: port_path_def device_name_def)
  have "\<exists>sp. serial_port_new_linux (\<lambda>_. True) one_tty (Some ''1'') = Inr (Some sp, [])"
    by (simp add: serial_port_new_linux_def full_port_name p open_name_def c_string_def c_strlen_def NUL_def
        serial_port_setup_def one_tty_def ttyname_r_def TTY_NAME_MAX_LEN_LINUX_def)
  then show ?thesis
    using serial_port_new_linux_outcome [of "\<lambda>_. True" "''1''" one_tty]
    by (auto simp: p NUL_def one_tty_def cfgetospeed_def CBAUD_def speed_to_bps_def)
qed

section \<open>The terminal probe\<close>

text \<open>The disabled \<open>main\<close> at the end of \<^verbatim>\<open>main.c\<close>: it opens a fixed device, reports on it and puts it into raw mode.
  The result is the exit status and the settings it has given to a terminal, if any; the reports are left out.\<close>

definition tty_main :: "tty_os \<Rightarrow> int \<times> (int \<times> termios) option" where
  "tty_main os =
     (let fd = os_open os (Some ''/dev/ttyS4'')
      in if fd = - 1 then (1, None)
         else if os_isatty os fd = 1 then
           (case ttyname_r os fd 99 of
              None \<Rightarrow> (1, None)
            | Some buf \<Rightarrow>
                (case os_tcgetattr os fd of
                   None \<Rightarrow> (1, None)
                 | Some tinfo \<Rightarrow>
                     (let tinfo = cfmakeraw tinfo
                      in if \<not> os_tcsetattr os fd tinfo then (1, None) else (0, Some (fd, tinfo)))))
         else (0, None))"

text \<open>Where the later code opens a port, the probe has set the same terminal to the same settings; the probe also
  serves terminals whose names are too long for the later code, up to 98 characters instead of 12.\<close>

lemma tty_main_setup:
  assumes "fd = os_open os (Some ''/dev/ttyS4'')" "os_ttyname os fd = Some name" "length name < 99"
  shows "fst (serial_port_setup alloc os fd) =
    (if length name < 13 then
       map_option (\<lambda>(h, tinfo). gather_settings tinfo (zero_port\<lparr>sp_handle := h, sp_ttyname := strdup alloc name\<rparr>)) (snd (tty_main os))
     else None)"
  using assms
  by (auto simp: serial_port_setup_def tty_main_def ttyname_r_def TTY_NAME_MAX_LEN_LINUX_def err_tty_def Let_def split: option.splits)

end
