(* ===== verification/Win32_port.thy ===== *)
theory Win32_port
  imports Serial_c
begin

text \<open>
  Setting up the polled serial port, \<^verbatim>\<open>udptoserial/Serial_port.cpp\<close>: the globals are set and two events created,
  then the device is opened and configured.  What the Win32 calls return is a parameter.  A failed call
  throws an exception; the globals keep what was assigned before it.
\<close>

section \<open>State and system\<close>

record win_port =
  wp_name :: string
  wp_baud_rate :: u32
  wp_desired_throughput :: u32
  wp_read_event :: int
  wp_write_event :: int
  wp_read_initialized :: bool
  wp_handle :: int

record win_setup_os =
  ws_create_read_event :: "int option"
  ws_create_write_event :: "int option"
  ws_create_file :: "string \<Rightarrow> int option"
  ws_get_comm_state :: "int \<Rightarrow> dcb option"
  ws_set_comm_state :: "int \<Rightarrow> dcb \<Rightarrow> bool"

datatype win_error = Create_event_failed | Open_failed string | Get_settings_failed | Set_settings_failed

section \<open>The functions\<close>

definition serial_port_init ::
    "win_setup_os \<Rightarrow> string \<Rightarrow> u32 \<Rightarrow> u32 \<Rightarrow> win_port \<Rightarrow> win_port \<times> win_error option" where
  "serial_port_init os name baud throttle s =
     (let s = s\<lparr>wp_name := name, wp_baud_rate := baud, wp_desired_throughput := throttle\<rparr>
      in case ws_create_read_event os of
           None \<Rightarrow> (s, Some Create_event_failed)
         | Some r \<Rightarrow>
             (let s = s\<lparr>wp_read_event := r\<rparr>
              in case ws_create_write_event os of
                   None \<Rightarrow> (s, Some Create_event_failed)
                 | Some w \<Rightarrow> (s\<lparr>wp_write_event := w, wp_read_initialized := False\<rparr>, None)))"

definition open_win32_port :: "win_setup_os \<Rightarrow> string \<Rightarrow> win_error + int" where
  "open_win32_port os name = (case ws_create_file os name of None \<Rightarrow> Inl (Open_failed name) | Some h \<Rightarrow> Inr h)"

text \<open>The settings asked for: eight bits, one stop bit, no parity.\<close>

definition serial_port_open :: "win_setup_os \<Rightarrow> win_port \<Rightarrow> win_port \<times> win_error option" where
  "serial_port_open os s =
     (case open_win32_port os (wp_name s) of
        Inl e \<Rightarrow> (s, Some e)
      | Inr h_serial \<Rightarrow>
          (case ws_get_comm_state os h_serial of
             None \<Rightarrow> (s, Some Get_settings_failed)
           | Some params \<Rightarrow>
               if \<not> ws_set_comm_state os h_serial
                      (params\<lparr>BaudRate := wp_baud_rate s, ByteSize := 8, StopBits := 0, Parity := 0\<rparr>)
               then (s, Some Set_settings_failed)
               else (s\<lparr>wp_handle := h_serial\<rparr>, None)))"

section \<open>What is configured\<close>

text \<open>The settings that \<^verbatim>\<open>main\<close> asks for by name and rate.\<close>

definition asked :: "u32 \<Rightarrow> dcb" where "asked baud = \<lparr>BaudRate = baud, ByteSize = 8, Parity = 0, StopBits = 0\<rparr>"

text \<open>Setting up a port.  It ends without an exception exactly when the events, the device and its settings
  can be had; then the port has the handle of the named device, which has been given the rate asked for,
  eight bits, one stop bit and no parity.  After an exception the handle is the old one.\<close>

theorem win32_setup_outcome:
  assumes "serial_port_init os name baud throttle s = (s1, e1)" "serial_port_open os s1 = (s2, e2)"
  shows "(e1 = None \<longleftrightarrow> ws_create_read_event os \<noteq> None \<and> ws_create_write_event os \<noteq> None) \<and>
    (e2 = None \<longleftrightarrow> (\<exists>h params. ws_create_file os name = Some h \<and> ws_get_comm_state os h = Some params \<and>
       ws_set_comm_state os h (asked baud))) \<and>
    (case e2 of None \<Rightarrow> ws_create_file os name = Some (wp_handle s2) | Some _ \<Rightarrow> wp_handle s2 = wp_handle s) \<and>
    wp_baud_rate s2 = baud \<and> wp_desired_throughput s2 = throttle"
proof -
  have s1: "wp_name s1 = name" "wp_baud_rate s1 = baud" "wp_desired_throughput s1 = throttle" "wp_handle s1 = wp_handle s"
    "e1 = None \<longleftrightarrow> ws_create_read_event os \<noteq> None \<and> ws_create_write_event os \<noteq> None"
    using assms(1) by (auto simp: serial_port_init_def Let_def split: option.splits)
  have "params\<lparr>BaudRate := b, ByteSize := 8, StopBits := 0, Parity := 0\<rparr> = asked b" for params :: dcb and b
    by (cases params) (simp add: asked_def)
  then show ?thesis
    using assms(2) s1 by (auto simp: serial_port_open_def open_win32_port_def split: option.splits if_splits)
qed

end
