(* ===== verification/Poll_main.thy ===== *)
theory Poll_main
  imports Udp_path Win32_port Configuration Serial_port
begin

text \<open>
  The polling program: the loop in \<^verbatim>\<open>main\<close> of \<^verbatim>\<open>udptoserial/main.cpp\<close> that puts the polled serial port, the UDP ports
  and the input queue together.  The loop stands under \<open>#if 0\<close>, beside the event loop that replaced it; the
  parts it is made of are compiled.

  A round gets from its environment what the sockets have to read at each call of \<open>recv_bytes\<close> and what
  the Win32 calls of the tick return.  An exception ends the program; it is an error value.
\<close>

section \<open>The program\<close>

datatype polled_error = Po_win win_error | Po_udp udp_error | Po_serial serial_error | Po_undefined

record polled =
  po_win :: win_port
  po_queues :: serial_queues
  po_ports :: udp_ports
  po_inq :: input_queue
  po_buf :: bytes
  po_sent :: "(nat \<times> u16 \<times> bytes) list"

record poll_env =
  en_net :: "nat \<Rightarrow> nat \<Rightarrow> recv_result"
  en_win :: win32

definition polled_start ::
    "win_setup_os \<Rightarrow> (u16 \<Rightarrow> nat option) \<Rightarrow> configuration \<Rightarrow> win_port \<Rightarrow> polled_error + polled" where
  "polled_start os create config w =
     (case serial_port_init os (serial_port_name config) (baud_rate config) (throttle_baud_rate config) w of
        (w, Some e) \<Rightarrow> Inl (Po_win e)
      | (w, None) \<Rightarrow>
          (let u = Udp_ports (local_ip config) (remote_ip config) (port_numbers config)
           in case serial_port_open os w of
                (w, Some e) \<Rightarrow> Inl (Po_win e)
              | (w, None) \<Rightarrow>
                  (case open_ports create u of
                     Inl e \<Rightarrow> Inl (Po_udp e)
                   | Inr u \<Rightarrow>
                       Inr \<lparr>po_win = w, po_queues = serial_idle, po_ports = u, po_inq = input_queue_new,
                            po_buf = [], po_sent = []\<rparr>)))"

text \<open>\<open>while (inQueue.is_packet_available()) udp_ports.send_packet(inQueue.pop_packet())\<close>\<close>

function polled_send :: "udp_ports \<Rightarrow> input_queue \<Rightarrow> (nat \<times> u16 \<times> bytes) list \<Rightarrow>
    (input_queue \<times> (nat \<times> u16 \<times> bytes) list) option" where
  "polled_send u q sent =
     (if is_packet_available q then
        (case pop_packet q of
           None \<Rightarrow> None
         | Some (p, q') \<Rightarrow>
             polled_send u q' (case send_packet p u of None \<Rightarrow> sent | Some d \<Rightarrow> sent @ [d]))
      else Some (q, sent))"
  by pat_completeness auto
termination
  by (relation "measure (\<lambda>(u, q, sent). length (iq_packets q))")
    (auto simp: is_packet_available_def pop_packet_def split: list.splits)

declare polled_send.simps [simp del]

text \<open>The \<open>do\<close> loop; \<open>k\<close> counts its calls of \<open>recv_bytes\<close>.\<close>

partial_function (option) polled_recv ::
    "(nat \<Rightarrow> nat \<Rightarrow> recv_result) \<Rightarrow> udp_ports \<Rightarrow> nat \<Rightarrow> serial_queues \<Rightarrow> (udp_error + serial_queues) option" where
  "polled_recv net u k s =
     (case recv_bytes (net k) u of
        Inl e \<Rightarrow> Some (Inl e)
      | Inr bytes \<Rightarrow>
          if length bytes > 0 then polled_recv net u (k + 1) (serial_port_write bytes s)
          else Some (Inr s))"

text \<open>One round; \<open>buf\<close> is declared outside the loop.\<close>

definition polled_round :: "poll_env \<Rightarrow> polled \<Rightarrow> (polled_error + polled) option" where
  "polled_round env s =
     (let (buf, queues) = serial_port_read (po_buf s) (po_queues s)
      in case push_bytes buf (po_inq s) of
           None \<Rightarrow> Some (Inl Po_undefined)
         | Some inq \<Rightarrow>
             (case polled_send (po_ports s) inq (po_sent s) of
                None \<Rightarrow> Some (Inl Po_undefined)
              | Some (inq, sent) \<Rightarrow>
                  (case polled_recv (en_net env) (po_ports s) 0 queues of
                     None \<Rightarrow> None
                   | Some (Inl e) \<Rightarrow> Some (Inl (Po_udp e))
                   | Some (Inr queues) \<Rightarrow>
                       (case serial_port_tick (en_win env) queues of
                          Inl e \<Rightarrow> Some (Inl (Po_serial e))
                        | Inr queues \<Rightarrow>
                            Some (Inr (s\<lparr>po_queues := queues, po_inq := inq, po_buf := buf, po_sent := sent\<rparr>))))))"

fun polled_run :: "poll_env list \<Rightarrow> polled \<Rightarrow> (polled_error + polled) option" where
  "polled_run [] s = Some (Inr s)"
| "polled_run (env # envs) s =
     (case polled_round env s of
        None \<Rightarrow> None
      | Some (Inl e) \<Rightarrow> Some (Inl e)
      | Some (Inr s') \<Rightarrow> polled_run envs s')"

section \<open>What it does\<close>

text \<open>Rounds in which no call of the system fails.\<close>

definition env_ok :: "udp_ports \<Rightarrow> poll_env \<Rightarrow> bool" where
  "env_ok u env \<longleftrightarrow> (\<forall>k. list_all (\<lambda>(n, sock). en_net env k sock \<noteq> Recv_failed) (port_sockets u)) \<and>
     length (waited_read_bytes (en_win env)) > 0 \<and> waited_write_count (en_win env) > 0"

definition idle_path :: "polled \<Rightarrow> bool" where
  "idle_path s \<longleftrightarrow> iq_packets (po_inq s) = [] \<and> po_sent s = [] \<and> issued (po_queues s) = [] \<and>
     input_byte_queue (po_queues s) = [] \<and> \<not> waiting_on_write (po_queues s)"

lemma polled_recv_ends:
  assumes "env_ok u env"
  shows "polled_recv (en_net env) u k s = Some (Inr s)"
proof -
  have "recv_bytes (en_net env k) u = Inr []"
    using assms recv_loop_eq [of "en_net env k" "port_sockets u" "[]"] by (simp add: env_ok_def recv_bytes_def)
  then show ?thesis by (simp add: polled_recv.simps [of _ _ k])
qed

lemma tick_idle:
  assumes "env_ok u env" "issued q = []" "input_byte_queue q = []" "\<not> waiting_on_write q"
  shows "\<exists>q'. serial_port_tick (en_win env) q = Inr q' \<and> issued q' = [] \<and> input_byte_queue q' = [] \<and>
    \<not> waiting_on_write q' \<and> (\<exists>more. output_byte_queue q' = output_byte_queue q @ more)"
  using assms
  by (auto simp: serial_port_tick_def Let_def tick_issue_write_def tick_issue_read_def tick_read_completed_def
      env_ok_def)

lemma serial_port_read_eq:
  "serial_port_read out q = (out @ output_byte_queue q, q\<lparr>output_byte_queue := []\<rparr>)"
  by (cases q) (simp add: serial_port_read_def)

lemma polled_round_idle:
  assumes "env_ok (po_ports s) env" "idle_path s"
  shows "\<exists>s'. polled_round env s = Some (Inr s') \<and> idle_path s' \<and> po_ports s' = po_ports s \<and>
    po_buf s' = po_buf s @ output_byte_queue (po_queues s) \<and>
    iq_raw (po_inq s') = iq_raw (po_inq s) @ po_buf s'"
proof -
  let ?q = "(po_queues s)\<lparr>output_byte_queue := []\<rparr>"
  let ?buf = "po_buf s @ output_byte_queue (po_queues s)"
  let ?inq = "(po_inq s)\<lparr>iq_raw := iq_raw (po_inq s) @ ?buf\<rparr>"
  obtain q' where q': "serial_port_tick (en_win env) ?q = Inr q'" "issued q' = []" "input_byte_queue q' = []"
    "\<not> waiting_on_write q'"
    using tick_idle [OF assms(1), of ?q] assms(2) by (auto simp: idle_path_def)
  have "polled_send (po_ports s) ?inq (po_sent s) = Some (?inq, po_sent s)"
    using assms(2) by (simp add: polled_send.simps is_packet_available_def idle_path_def)
  then show ?thesis
    using q' assms(2) polled_recv_ends [OF assms(1), of 0 ?q]
    by (simp add: polled_round_def serial_port_read_eq push_bytes_eq idle_path_def)
qed

lemma polled_run_idle:
  assumes "list_all (env_ok (po_ports s)) envs" "idle_path s"
  shows "\<exists>s'. polled_run envs s = Some (Inr s') \<and> idle_path s' \<and> po_ports s' = po_ports s"
  using assms
proof (induction envs arbitrary: s)
  case (Cons env envs)
  obtain s1 where "polled_round env s = Some (Inr s1)" "idle_path s1" "po_ports s1 = po_ports s"
    using polled_round_idle [of s env] Cons.prems by auto
  with Cons.IH [of s1] Cons.prems show ?case by simp
qed simp

lemma polled_start_idle: "polled_start os create config w = Inr s \<Longrightarrow> idle_path s"
  by (auto simp: polled_start_def Let_def idle_path_def serial_idle_def input_queue_new_def
      split: prod.splits option.splits sum.splits)

text \<open>The polling program carries nothing.  Once it has started, and as long as no call of the system fails,
  every round comes to its end, with the loop over the received datagrams; yet no datagram is ever sent and
  no byte ever written to the line, whatever arrives on the ports and on the line.  Every round pushes all
  the bytes read since the start into the input queue again, where they stay.\<close>

theorem polled_carries_nothing:
  assumes "polled_start os create config w = Inr s0" "list_all (env_ok (po_ports s0)) (envs @ [env])"
  shows "\<exists>s s'. polled_run envs s0 = Some (Inr s) \<and> polled_round env s = Some (Inr s') \<and>
    po_sent s' = [] \<and> issued (po_queues s') = [] \<and> input_byte_queue (po_queues s') = [] \<and>
    \<not> is_packet_available (po_inq s') \<and>
    po_buf s' = po_buf s @ output_byte_queue (po_queues s) \<and>
    iq_raw (po_inq s') = iq_raw (po_inq s) @ po_buf s'"
proof -
  obtain s where s: "polled_run envs s0 = Some (Inr s)" "idle_path s" "po_ports s = po_ports s0"
    using polled_run_idle [OF _ polled_start_idle [OF assms(1)]] assms(2) by auto
  have "env_ok (po_ports s) env" using assms(2) s(3) by simp
  from polled_round_idle [OF this s(2)] s(1) show ?thesis
    by (auto simp: idle_path_def is_packet_available_def)
qed

theorem polled_carries_nothing_witness:
  "let os = \<lparr>ws_create_read_event = Some 1, ws_create_write_event = Some 2, ws_create_file = (\<lambda>_. Some 3),
             ws_get_comm_state = (\<lambda>_. Some (asked 0)), ws_set_comm_state = (\<lambda>_ _. True)\<rparr>;
       config = \<lparr>serial_port_name = ''COM3'', baud_rate = 9600, throttle_baud_rate = 9600, port_numbers = [4000],
                 local_ip = [], remote_ip = []\<rparr>;
       w = \<lparr>wp_name = [], wp_baud_rate = 0, wp_desired_throughput = 0, wp_read_event = 0, wp_write_event = 0,
            wp_read_initialized = False, wp_handle = 0\<rparr>;
       env = \<lparr>en_net = (\<lambda>_ _. Datagram 80 [1, 2, 3]),
              en_win = win32_example\<lparr>waited_read_bytes := [1, 2], waited_write_count := 1, wait_multiple := (\<lambda>_. WAIT_OBJECT 0)\<rparr>\<rparr>
   in \<exists>s0 s s'. polled_start os (\<lambda>_. Some 5) config w = Inr s0 \<and> polled_run [env, env] s0 = Some (Inr s) \<and>
        polled_round env s = Some (Inr s') \<and> po_sent s' = [] \<and> issued (po_queues s') = [] \<and>
        iq_raw (po_inq s') = iq_raw (po_inq s) @ po_buf s'"
proof -
  let ?os = "\<lparr>ws_create_read_event = Some 1, ws_create_write_event = Some 2, ws_create_file = (\<lambda>_. Some 3),
             ws_get_comm_state = (\<lambda>_. Some (asked 0)), ws_set_comm_state = (\<lambda>_ _. True)\<rparr>"
  let ?config = "\<lparr>serial_port_name = ''COM3'', baud_rate = 9600, throttle_baud_rate = 9600, port_numbers = [4000],
                 local_ip = [], remote_ip = []\<rparr>"
  let ?w = "\<lparr>wp_name = [], wp_baud_rate = 0, wp_desired_throughput = 0, wp_read_event = 0, wp_write_event = 0,
            wp_read_initialized = False, wp_handle = 0\<rparr>"
  let ?env = "\<lparr>en_net = (\<lambda>_ _. Datagram 80 [1, 2, 3]),
              en_win = win32_example\<lparr>waited_read_bytes := [1, 2], waited_write_count := 1, wait_multiple := (\<lambda>_. WAIT_OBJECT 0)\<rparr>\<rparr>"
  have "\<exists>s0. polled_start ?os (\<lambda>_. Some 5) ?config ?w = Inr s0"
    by (simp add: polled_start_def serial_port_init_def serial_port_open_def open_win32_port_def open_ports_def
        Udp_ports_def)
  then obtain s0 where s0: "polled_start ?os (\<lambda>_. Some 5) ?config ?w = Inr s0" by blast
  have "list_all (env_ok (po_ports s0)) ([?env, ?env] @ [?env])" by (simp add: env_ok_def list_all_iff)
  from polled_carries_nothing [OF s0 this] s0 show ?thesis unfolding Let_def by blast
qed

end
