(* ===== verification/Test_vectors.thy ===== *)
theory Test_vectors
  imports Slip Ip Udp_path
begin

text \<open>
  The repository's own test data: the unit tests of the SLIP encoder (\<^verbatim>\<open>libhorizr_test/slip.cpp\<close>) and the
  packet captured from a network that \<^verbatim>\<open>libhorizr/ip.cpp\<close> keeps for a test of its header routines.  Both are
  disabled in the source; here they are evaluated on the model.  So is the trial at the end of \<^verbatim>\<open>main.cpp\<close>.
\<close>

section \<open>The unit tests of the SLIP encoder\<close>

definition slip_test :: "bytes \<Rightarrow> bytes \<Rightarrow> bool" where
  "slip_test source expected = (bytevector_compare (fst (slip_encode [] source True)) expected = 0)"

definition test_EmptyInput :: bool where
  "test_EmptyInput = slip_test [] [SLIP_END]"

definition test_NoEscapesInput :: bool where
  "test_NoEscapesInput = slip_test [0x61, 0x62, 0x63] [SLIP_END, 0x61, 0x62, 0x63, SLIP_END]"

definition test_EscapeEscapeInput :: bool where
  "test_EscapeEscapeInput = slip_test [SLIP_ESC] [SLIP_END, SLIP_ESC, SLIP_ESC_ESC, SLIP_END]"

definition test_EscapeEndInput :: bool where
  "test_EscapeEndInput = slip_test [SLIP_END] [SLIP_END, SLIP_ESC, SLIP_ESC_END, SLIP_END]"

lemma slip_unit_tests_pass: "test_EmptyInput" "test_NoEscapesInput" "test_EscapeEscapeInput" "test_EscapeEndInput"
  by (simp_all add: test_EmptyInput_def test_NoEscapesInput_def test_EscapeEscapeInput_def test_EscapeEndInput_def
      slip_test_def bytevector_compare_sound [THEN conjunct1] slip_encode_def slip_chars)

section \<open>The captured packet\<close>

text \<open>A TCP packet from 192.168.1.202 to 192.168.1.93, 60 bytes, with 20 bytes of TCP options and no data.\<close>

definition ipv4_test_vec :: bytes where
  "ipv4_test_vec =
     [0x45, 0x00, 0x00, 0x3c, 0x6d, 0x80, 0x40, 0x00,
      0x40, 0x06, 0x48, 0xc4, 0xc0, 0xa8, 0x01, 0xca,
      0xc0, 0xa8, 0x01, 0x5d, 0xab, 0x9a, 0x00, 0x50,
      0x6e, 0x5f, 0x56, 0x15, 0x00, 0x00, 0x00, 0x00,
      0xa0, 0x02, 0x14, 0x00, 0x89, 0xd3, 0x00, 0x00,
      0x02, 0x04, 0x01, 0x00, 0x04, 0x02, 0x08, 0x0a,
      0x5c, 0x65, 0x5d, 0xa4, 0x00, 0x00, 0x00, 0x00,
      0x01, 0x03, 0x03, 0x07]"

text \<open>The sum of the 16-bit words of the header, with the carries added back, as RFC 1071 has it.\<close>

fun words_of :: "bytes \<Rightarrow> nat list" where
  "words_of (a # b # bs) = (256 * unat a + unat b) # words_of bs"
| "words_of _ = []"

definition ones_sum :: "nat list \<Rightarrow> nat" where
  "ones_sum ws = (sum_list ws mod 65536) + (sum_list ws div 65536)"

text \<open>The code and a packet from outside.  The packet is valid by RFC 1071, and the code accepts it as a TCP
  packet; but the code places the data behind 40 bytes of headers, so that it takes the options of the TCP
  header for 20 bytes of data, and the checksum it sets for this header is not the right one.\<close>

lemma captured_packet:
  "ones_sum (words_of (take 20 ipv4_test_vec)) = 0xFFFF"
  "ip_bytevector_validate ipv4_test_vec" "ip_bytevector_is_tcp ipv4_test_vec = Inr True"
  "ip_bytevector_data_start ipv4_test_vec = Inr 40"
  "4 * unat (drop_bit 4 (ipv4_test_vec ! 32)) = (40 :: nat)" "length ipv4_test_vec = 60"
  "\<exists>ih ih'. ip_hdr_at ipv4_test_vec = Some ih \<and> ip_hdr_cksum_set ih = Inr ih' \<and> ih_cksum ih' \<noteq> ih_cksum ih"
proof -
  show "ones_sum (words_of (take 20 ipv4_test_vec)) = 0xFFFF" by (simp add: ones_sum_def ipv4_test_vec_def)
  show "ip_bytevector_validate ipv4_test_vec" by code_simp
  show "ip_bytevector_is_tcp ipv4_test_vec = Inr True" by code_simp
  show "ip_bytevector_data_start ipv4_test_vec = Inr 40" by code_simp
  show "4 * unat (drop_bit 4 (ipv4_test_vec ! 32)) = (40 :: nat)" by code_simp
  show "length ipv4_test_vec = 60" by code_simp
  have "case ip_hdr_at ipv4_test_vec of None \<Rightarrow> False | Some ih \<Rightarrow>
      (case ip_hdr_cksum_set ih of Inl _ \<Rightarrow> False | Inr ih' \<Rightarrow> ih_cksum ih' \<noteq> ih_cksum ih)" by code_simp
  then show "\<exists>ih ih'. ip_hdr_at ipv4_test_vec = Some ih \<and> ip_hdr_cksum_set ih = Inr ih' \<and> ih_cksum ih' \<noteq> ih_cksum ih"
    by (auto split: option.splits sum.splits)
qed

section \<open>The trial of the input queue\<close>

text \<open>A packet is turned into bytes, the bytes are pushed into an input queue, and if a packet is then available it
  is sent, from an open port or from a temporary socket.  The object \<open>sockets\<close> is declared nowhere; \<open>have_port\<close> is
  its test.  The result is what is sent, and whether from an open port.\<close>

definition queue_trial :: "(u16 \<Rightarrow> bool) \<Rightarrow> (bool \<times> udp_packet) option option" where
  "queue_trial have_port =
     (case udp_packet_make 4000 4001 (map u8_of ''Blammo'') of
        None \<Rightarrow> None
      | Some p \<Rightarrow>
          (case push_bytes (to_bytes p) input_queue_new of
             None \<Rightarrow> None
           | Some IQ \<Rightarrow>
               (if is_packet_available IQ then
                  (case pop_packet IQ of
                     None \<Rightarrow> None
                   | Some (p2, IQ) \<Rightarrow> Some (Some (have_port (pk_source_port p2), p2)))
                else Some None)))"

text \<open>Nothing is sent, because \<open>to_bytes\<close> gives no bytes; but the bytes that it lays out and drops would have given
  the packet back.\<close>

lemma queue_trial_sends_nothing: "queue_trial have_port = Some None"
proof -
  obtain p where "udp_packet_make 4000 4001 (map u8_of ''Blammo'') = Some p" using udp_packet_make_total by blast
  then show ?thesis by (simp add: queue_trial_def push_bytes_eq input_queue_new_def is_packet_available_def)
qed

end
