(* ===== verification/Base64.thy ===== *)
theory Base64
  imports C_lang
begin

text \<open>
  The base64 coding of the C program's payloads, \<^verbatim>\<open>udptoserial/base64.c\<close>.  Both functions compute the size of
  the block they write to before they write; every write is checked against it here, and the theorems
  show that no write goes past the end and that decoding inverts encoding.  The line feeds of the original
  are disabled in the source.  \<open>alloc\<close> says which sizes \<open>malloc\<close> provides.
\<close>

section \<open>The code\<close>

definition base64_table :: string where
  "base64_table = ''ABCDEFGHIJKLMNOPQRSTUVWXYZabcdefghijklmnopqrstuvwxyz0123456789+/''"

abbreviation enc64 :: "u8 \<Rightarrow> char" where
  "enc64 v \<equiv> base64_table ! unat v"

text \<open>The four six-bit groups of three bytes and the three bytes of four groups.\<close>

definition sextet_1 :: "u8 \<Rightarrow> u8" where "sextet_1 a = drop_bit 2 a"
definition sextet_2 :: "u8 \<Rightarrow> u8 \<Rightarrow> u8" where "sextet_2 a b = push_bit 4 (a AND 0x03) OR drop_bit 4 b"
definition sextet_3 :: "u8 \<Rightarrow> u8 \<Rightarrow> u8" where "sextet_3 b c = push_bit 2 (b AND 0x0f) OR drop_bit 6 c"
definition sextet_4 :: "u8 \<Rightarrow> u8" where "sextet_4 c = c AND 0x3f"

definition octet_1 :: "u8 \<Rightarrow> u8 \<Rightarrow> u8" where "octet_1 v w = push_bit 2 v OR drop_bit 4 w"
definition octet_2 :: "u8 \<Rightarrow> u8 \<Rightarrow> u8" where "octet_2 v w = push_bit 4 v OR drop_bit 2 w"
definition octet_3 :: "u8 \<Rightarrow> u8 \<Rightarrow> u8" where "octet_3 v w = push_bit 6 v OR w"

text \<open>Writing at the position behind what was written, in a block of \<open>olen\<close> elements.\<close>

definition write_out :: "nat \<Rightarrow> 'a list \<Rightarrow> 'a list \<Rightarrow> 'a list c_result" where
  "write_out olen out xs = (if length out + length xs \<le> olen then Inr (out @ xs) else Inl Out_of_bounds)"

fun encode_blocks :: "nat \<Rightarrow> bytes \<Rightarrow> string \<Rightarrow> (bytes \<times> string) c_result" where
  "encode_blocks olen (a # b # c # rest) out =
     c_bind (write_out olen out
       [enc64 (sextet_1 a), enc64 (sextet_2 a b), enc64 (sextet_3 b c), enc64 (sextet_4 c)])
       (encode_blocks olen rest)"
| "encode_blocks olen rest out = Inr (rest, out)"

text \<open>One or two bytes left over, padded.\<close>

definition encode_tail :: "nat \<Rightarrow> bytes \<Rightarrow> string \<Rightarrow> string c_result" where
  "encode_tail olen rest out =
     (case rest of
        [] \<Rightarrow> Inr out
      | [a] \<Rightarrow> write_out olen out [enc64 (sextet_1 a), enc64 (push_bit 4 (a AND 0x03)), CHR ''='', CHR ''='']
      | a # b # _ \<Rightarrow>
          write_out olen out
            [enc64 (sextet_1 a), enc64 (sextet_2 a b), enc64 (push_bit 2 (b AND 0x0f)), CHR ''=''])"

text \<open>The size is computed in \<open>size_t\<close> and may wrap around.\<close>

definition encode_olen :: "nat \<Rightarrow> 64 word" where
  "encode_olen len =
     (let olen = of_nat len * 4 div 3 + 4; olen = olen + olen div 72 in olen + 1)"

definition base64_encode :: "(nat \<Rightarrow> bool) \<Rightarrow> bytes \<Rightarrow> nat \<Rightarrow> string option c_result" where
  "base64_encode alloc src len =
     (let olen = encode_olen len
      in if olen < of_nat len then Inr None
         else if \<not> alloc (unat olen) then Inr None
         else if length src < len then Inl Out_of_bounds
         else
           c_bind (encode_blocks (unat olen) (take len src) []) (\<lambda>(rest, out).
           c_bind (encode_tail (unat olen) rest out) (\<lambda>out.
           c_bind (write_out (unat olen) out [NUL]) (\<lambda>_. Inr (Some out)))))"

text \<open>The decoding table has \<open>0x80\<close> for characters outside the alphabet, which are skipped.\<close>

definition dtable :: "char \<Rightarrow> u8" where
  "dtable =
     (fold (\<lambda>i t. t(base64_table ! i := of_nat i)) [0..<64] (\<lambda>_. 0x80)) (CHR ''='' := 0)"

fun decode_loop :: "nat \<Rightarrow> string \<Rightarrow> bytes \<Rightarrow> nat \<Rightarrow> bytes \<Rightarrow> bytes option c_result" where
  "decode_loop olen [] block pad out = Inr (Some out)"
| "decode_loop olen (c # src) block pad out =
     (let tmp = dtable c
      in if tmp = 0x80 then decode_loop olen src block pad out
         else
           (let pad = (if c = CHR ''='' then pad + 1 else pad); block = block @ [tmp]
            in if length block = 4 then
                 c_bind (write_out olen out
                   [octet_1 (block ! 0) (block ! 1), octet_2 (block ! 1) (block ! 2),
                    octet_3 (block ! 2) (block ! 3)])
                   (\<lambda>out.
                     if pad \<noteq> 0 then
                       (if pad = 1 then Inr (Some (take (length out - 1) out))
                        else if pad = 2 then Inr (Some (take (length out - 2) out))
                        else Inr None)
                     else decode_loop olen src [] pad out)
               else decode_loop olen src block pad out))"

definition base64_decode :: "(nat \<Rightarrow> bool) \<Rightarrow> string \<Rightarrow> nat \<Rightarrow> bytes option c_result" where
  "base64_decode alloc src len =
     (if length src < len then Inl Out_of_bounds
      else
        (let count = length (filter (\<lambda>c. dtable c \<noteq> 0x80) (take len src))
         in if count = 0 \<or> count mod 4 \<noteq> 0 then Inr None
            else
              (let olen = count div 4 * 3
               in if \<not> alloc olen then Inr None
                  else decode_loop olen (take len src) [] 0 [])))"

section \<open>The tables\<close>

lemma fold_updates:
  "inj_on k {..<n} \<Longrightarrow> j < n \<Longrightarrow> fold (\<lambda>i t. t(k i := v i)) [0..<n] t0 (k j) = v j"
proof (induction n arbitrary: t0)
  case (Suc n)
  have "k j \<noteq> k n" if "j \<noteq> n"
    using Suc.prems that by (auto simp: inj_on_def)
  then show ?case using Suc by (cases "j = n") (auto simp: inj_on_def)
qed simp

lemma fold_updates_other:
  "(\<And>i. i < n \<Longrightarrow> k i \<noteq> c) \<Longrightarrow> fold (\<lambda>i t. t(k i := v i)) [0..<n] t0 c = t0 c"
  by (induction n arbitrary: t0) auto

lemma table_facts: "length base64_table = 64" "distinct base64_table" "CHR ''='' \<notin> set base64_table"
  by (simp_all add: base64_table_def)

lemma table_nth_not_pad: "i < 64 \<Longrightarrow> base64_table ! i \<noteq> CHR ''=''"
  using table_facts nth_mem [of i base64_table] by metis

lemma dtable_table: "i < 64 \<Longrightarrow> dtable (base64_table ! i) = of_nat i"
  using fold_updates [of "(!) base64_table" 64 i of_nat "\<lambda>_. 0x80"] table_nth_not_pad [of i]
  by (simp add: dtable_def inj_on_nth table_facts)

lemma dtable_pad: "dtable (CHR ''='') = 0"
  by (simp add: dtable_def)

lemma dtable_other: "c \<notin> set base64_table \<Longrightarrow> c \<noteq> CHR ''='' \<Longrightarrow> dtable c = 0x80"
  using fold_updates_other [of 64 "(!) base64_table" c of_nat "\<lambda>_. 0x80"]
  by (auto simp: dtable_def table_facts in_set_conv_nth)

lemma dtable_enc64: "v < 64 \<Longrightarrow> dtable (enc64 v) = v"
  by (simp add: dtable_table word_less_nat_alt)

lemma enc64_mem: "v < 64 \<Longrightarrow> enc64 v \<in> set base64_table"
  by (simp add: table_facts word_less_nat_alt)

section \<open>Six-bit groups\<close>

lemma masks: "(0x03 :: u8) = mask 2" "(0x0f :: u8) = mask 4" "(0x3f :: u8) = mask 6"
  by (simp_all add: mask_eq_exp_minus_1)

lemmas bit_rules = bit_or_iff bit_and_iff bit_push_bit_iff bit_drop_bit_eq bit_mask_iff

lemma less64:
  fixes v :: u8
  assumes "\<And>n. bit v n \<Longrightarrow> n < 6"
  shows "v < 64"
proof -
  have "take_bit 6 v = v"
    by (rule bit_eqI) (use assms in \<open>auto simp: bit_take_bit_iff\<close>)
  moreover have "take_bit 6 v = v mod 64" by (simp add: take_bit_eq_mod)
  ultimately show ?thesis using word_mod_less_divisor [of 64 v] by simp
qed

lemma sextet_bounds: "sextet_1 a < 64" "sextet_2 a b < 64" "sextet_3 b c < 64" "sextet_4 c < 64"
  unfolding masks sextet_1_def sextet_2_def sextet_3_def sextet_4_def
  by (rule less64; auto simp: bit_rules dest: bit_imp_le_length)+

lemma u8_eqI:
  fixes v w :: u8
  assumes "list_all (\<lambda>n. bit v n = bit w n) [0, 1, 2, 3, 4, 5, 6, 7]"
  shows "v = w"
proof (rule bit_eqI)
  fix n
  assume "possible_bit TYPE(u8) n"
  then have "n \<in> set [0, 1, 2, 3, 4, 5, 6, 7]" by auto
  then show "bit v n = bit w n" using assms by (auto simp: list_all_iff)
qed

lemma octets_of_sextets:
  "octet_1 (sextet_1 a) (sextet_2 a b) = a" "octet_2 (sextet_2 a b) (sextet_3 b c) = b"
  "octet_3 (sextet_3 b c) (sextet_4 c) = c"
  unfolding masks sextet_1_def sextet_2_def sextet_3_def sextet_4_def octet_1_def octet_2_def octet_3_def
  by (rule u8_eqI; simp add: bit_rules; auto simp: numeral_2_eq_2 numeral_3_eq_3 dest: bit_imp_le_length)+

lemma sextet_pads: "push_bit 4 (a AND 0x03) = sextet_2 a 0" "push_bit 2 (b AND 0x0f) = sextet_3 b 0"
  by (simp_all add: sextet_2_def sextet_3_def)

section \<open>The encoding as one function\<close>

text \<open>The RFC's description: three bytes become four characters, a rest of one or two bytes is padded.\<close>

fun encode64 :: "bytes \<Rightarrow> string" where
  "encode64 (a # b # c # rest) =
     [enc64 (sextet_1 a), enc64 (sextet_2 a b), enc64 (sextet_3 b c), enc64 (sextet_4 c)] @ encode64 rest"
| "encode64 [a, b] = [enc64 (sextet_1 a), enc64 (sextet_2 a b), enc64 (sextet_3 b 0), CHR ''='']"
| "encode64 [a] = [enc64 (sextet_1 a), enc64 (sextet_2 a 0), CHR ''='', CHR ''='']"
| "encode64 [] = []"

lemma div3_step: "Suc (Suc (Suc n)) div 3 = Suc (n div 3)"
  by simp

lemma length_encode64: "length (encode64 src) = 4 * ((length src + 2) div 3)"
proof (induction src rule: encode64.induct)
  case (1 a b c rest)
  then show ?case using div_add_self2 [of 3 "length rest + 2"] by (simp add: add.commute)
qed simp_all

lemma encode64_alphabet: "set (encode64 src) \<subseteq> insert (CHR ''='') (set base64_table)"
  by (induction src rule: encode64.induct) (auto intro: enc64_mem sextet_bounds)

lemma encode_blocks_tail:
  "length out + length (encode64 src) \<le> olen \<Longrightarrow>
   c_bind (encode_blocks olen src out) (\<lambda>(rest, out). encode_tail olen rest out) = Inr (out @ encode64 src)"
proof (induction src arbitrary: out rule: encode64.induct)
  case (1 a b c rest)
  then show ?case by (simp add: write_out_def)
qed (simp_all add: write_out_def encode_tail_def sextet_pads del: push_bit_and)

lemma unat_line_feeds:
  fixes w :: "64 word"
  assumes "unat w < 2 ^ 62"
  shows "unat (w + w div 72 + 1) = unat w + unat w div 72 + 1"
proof -
  have "unat (w + w div 72) = unat w + unat w div 72"
    using assms by (simp add: unat_word_ariths(1) unat_div_distrib)
  then show ?thesis using assms by (simp add: unat_word_ariths(1))
qed

lemma unat_encode_olen:
  assumes "len < 2 ^ 60"
  shows "unat (encode_olen len) = len * 4 div 3 + 4 + (len * 4 div 3 + 4) div 72 + 1"
proof -
  let ?w = "of_nat len * 4 div 3 + 4 :: 64 word"
  have "unat (of_nat len :: 64 word) = len"
    using assms by (simp add: unat_of_nat)
  then have "unat (of_nat len * 4 :: 64 word) = len * 4"
    using assms by (simp add: unat_word_ariths)
  then have "unat ?w = len * 4 div 3 + 4"
    using assms by (simp add: unat_div_distrib unat_word_ariths(1))
  then show ?thesis
    using unat_line_feeds [of ?w] assms by (simp add: encode_olen_def Let_def)
qed

lemma base64_encode_eq:
  assumes "len < 2 ^ 60" "len \<le> length src" "\<And>n. alloc n"
  shows "base64_encode alloc src len = Inr (Some (encode64 (take len src)))"
proof -
  let ?o = "unat (encode_olen len)" and ?e = "encode64 (take len src)"
  have "unat (of_nat len :: 64 word) = len"
    using assms(1) by (simp add: unat_of_nat)
  then have "\<not> encode_olen len < of_nat len"
    using assms(1) by (simp add: word_less_nat_alt unat_encode_olen)
  moreover have fits: "length ?e + 1 \<le> ?o"
    using assms(1,2) by (simp add: unat_encode_olen length_encode64)
  then have "c_bind (encode_blocks ?o (take len src) []) (\<lambda>(rest, out). encode_tail ?o rest out) = Inr ?e"
    using encode_blocks_tail [of "[]" "take len src" ?o] by simp
  then obtain r o1 where "encode_blocks ?o (take len src) [] = Inr (r, o1)" "encode_tail ?o r o1 = Inr ?e"
    by (auto simp: c_bind_Inr)
  ultimately show ?thesis
    using assms(2,3) fits by (simp add: base64_encode_def Let_def write_out_def)
qed

section \<open>Decoding\<close>

lemma enc64_not_pad: "v < 64 \<Longrightarrow> enc64 v \<noteq> CHR ''=''"
  using enc64_mem table_facts(3) by metis

lemma encode64_valid: "c \<in> set (encode64 src) \<Longrightarrow> dtable c \<noteq> 0x80"
proof -
  assume "c \<in> set (encode64 src)"
  then consider "c = CHR ''=''" | i where "i < 64" "c = base64_table ! i"
    using encode64_alphabet [of src] table_facts(1) in_set_conv_nth [of c base64_table] by auto
  then show ?thesis
  proof cases
    case 1
    then show ?thesis by (simp add: dtable_pad)
  next
    case 2
    then have "unat (dtable c) = i" by (simp add: dtable_table unat_of_nat)
    then show ?thesis using 2 by auto
  qed
qed

lemma below_invalid: "v < 64 \<Longrightarrow> v \<noteq> 0x80" for v :: u8
  by auto

lemmas enc64_simps = dtable_enc64 enc64_not_pad below_invalid sextet_bounds dtable_pad octets_of_sextets

lemma decode_encode64:
  "length out + 3 * ((length src + 2) div 3) \<le> olen \<Longrightarrow>
   decode_loop olen (encode64 src) [] 0 out = Inr (Some (out @ src))"
proof (induction src arbitrary: out rule: encode64.induct)
  case (1 a b c rest)
  have "Suc (Suc (length (rest)) + 3) div 3 = Suc (Suc (Suc (length rest)) div 3)"
    using div_add_self2 [of 3 "length rest + 2"] by simp
  then have "length (out @ [a, b, c]) + 3 * ((length rest + 2) div 3) \<le> olen" "length out + 3 \<le> olen"
    using "1.prems" by simp_all
  then show ?case using "1.IH" [of "out @ [a, b, c]"] by (simp add: enc64_simps write_out_def)
next
  case (2 a b)
  then show ?case
    using octets_of_sextets(1) [of a b] octets_of_sextets(2) [of a b 0]
    by (simp add: enc64_simps write_out_def)
next
  case (3 a)
  then show ?case
    using octets_of_sextets(1) [of a 0] by (simp add: enc64_simps write_out_def)
qed simp

lemma base64_decode_encode64:
  assumes "src \<noteq> []" "\<And>n. alloc n"
  shows "base64_decode alloc (encode64 src @ rest) (length (encode64 src)) = Inr (Some src)"
proof -
  have "filter (\<lambda>c. dtable c \<noteq> 0x80) (encode64 src) = encode64 src"
    using encode64_valid by (simp add: filter_id_conv)
  moreover have "0 < length src" using assms(1) by simp
  ultimately show ?thesis
    using assms(2) decode_encode64 [of "[]" src "3 * ((length src + 2) div 3)"]
    by (simp add: base64_decode_def Let_def length_encode64 mult.commute div_greater_zero_iff Suc_le_eq)
qed

text \<open>C30: Encoding and decoding are inverse on data of at least one byte.  When no allocation fails, such data,
  of less than \<open>2 ^ 60\<close> bytes, is encoded without writing outside the allocated block, into four characters
  of the alphabet for every three bytes begun, and decoding these characters, whatever follows them in
  memory, gives the data back.  Empty data is excluded: it is encoded as the empty text, for which
  \<open>base64_decode\<close> returns no data but the null pointer.\<close>

theorem base64_roundtrip:
  assumes "src \<noteq> []" "length src < 2 ^ 60" "\<And>n. alloc n"
  shows "\<exists>txt. base64_encode alloc src (length src) = Inr (Some txt) \<and>
    length txt = 4 * ((length src + 2) div 3) \<and> set txt \<subseteq> insert (CHR ''='') (set base64_table) \<and>
    base64_decode alloc (txt @ rest) (length txt) = Inr (Some src)"
  using base64_encode_eq [OF assms(2) order_refl assms(3)] base64_decode_encode64 [OF assms(1,3)]
    encode64_alphabet length_encode64 by auto

theorem base64_roundtrip_witness:
  "base64_encode (\<lambda>_. True) [0x4D, 0x61] (length [0x4D, 0x61 :: u8]) = Inr (Some ''TWE='') \<and>
   base64_decode (\<lambda>_. True) (''TWE='' @ '']'') (length ''TWE='') = Inr (Some [0x4D, 0x61])"
proof -
  have "base64_encode (\<lambda>_. True) [0x4D, 0x61] (length [0x4D, 0x61 :: u8]) = Inr (Some ''TWE='')" by code_simp
  moreover obtain enc where
    "base64_encode (\<lambda>_. True) [0x4D, 0x61] (length [0x4D, 0x61 :: u8]) = Inr (Some enc)"
    "base64_decode (\<lambda>_. True) (enc @ '']'') (length enc) = Inr (Some [0x4D, 0x61])"
    using base64_roundtrip [of "[0x4D, 0x61]" "\<lambda>_. True" "'']''"] by auto
  ultimately show ?thesis by simp
qed

lemma decode_loop_safe:
  assumes "length block < 4"
    "length out + 3 * ((length block + length (filter (\<lambda>c. dtable c \<noteq> 0x80) src)) div 4) \<le> olen"
  shows "\<exists>r. decode_loop olen src block pad out = Inr r \<and> (\<forall>d. r = Some d \<longrightarrow> length d \<le> olen)"
  using assms
proof (induction src arbitrary: block pad out)
  case (Cons c src)
  show ?case
  proof (cases "dtable c = 0x80")
    case True
    then show ?thesis using Cons by simp
  next
    case False
    let ?pad = "if c = CHR ''='' then pad + 1 else pad"
    show ?thesis
    proof (cases "length block = 3")
      case False
      then have "length (block @ [dtable c]) < 4" using Cons.prems(1) by simp
      then show ?thesis
        using Cons.IH [of "block @ [dtable c]" out ?pad] Cons.prems(2) \<open>dtable c \<noteq> 0x80\<close>
        by (simp add: Let_def)
    next
      case len: True
      have room: "length out + 3 + 3 * (length (filter (\<lambda>c. dtable c \<noteq> 0x80) src) div 4) \<le> olen"
        using Cons.prems(2) len False
          div_add_self1 [of 4 "length (filter (\<lambda>c. dtable c \<noteq> 0x80) src)"] by simp
      then have "length (out @ [x, y, z]) + 3 * ((length ([] :: bytes) +
          length (filter (\<lambda>c. dtable c \<noteq> 0x80) src)) div 4) \<le> olen" for x y z by simp
      then show ?thesis
        using Cons.IH [of "[]"] room len False by (auto simp: Let_def write_out_def)
    qed
  qed
qed simp

lemma base64_decode_safe:
  assumes "len \<le> length src"
  shows "\<exists>r. base64_decode alloc src len = Inr r"
proof -
  let ?n = "length (filter (\<lambda>c. dtable c \<noteq> 0x80) (take len src))"
  obtain r where "decode_loop (?n div 4 * 3) (take len src) [] 0 [] = Inr r"
    using decode_loop_safe [of "[]" "[]" "take len src" "?n div 4 * 3" 0] by auto
  then show ?thesis using assms by (simp add: base64_decode_def Let_def)
qed

lemma decode_loop_filter:
  "decode_loop olen (filter (\<lambda>c. dtable c \<noteq> 0x80) src) block pad out = decode_loop olen src block pad out"
  by (induction src arbitrary: block pad out) (auto simp: Let_def c_bind_def split: sum.split)

text \<open>Decoding is total and stays in its buffer.  Whatever the characters, the decoder returns: null
  when the number of characters of the alphabet is zero or no multiple of four, and never more than
  three bytes for four of them; characters outside the alphabet, such as line breaks, do not change the
  result.\<close>

theorem base64_decode_total:
  assumes "len \<le> length src" "valid = filter (\<lambda>c. dtable c \<noteq> 0x80) (take len src)"
  shows "\<exists>r. base64_decode alloc src len = Inr r \<and>
    (valid = [] \<or> length valid mod 4 \<noteq> 0 \<longrightarrow> r = None) \<and>
    (\<forall>d. r = Some d \<longrightarrow> length d \<le> length valid div 4 * 3) \<and>
    base64_decode alloc valid (length valid) = Inr r"
proof -
  obtain r where "decode_loop (length valid div 4 * 3) (take len src) [] 0 [] = Inr r"
    "\<forall>d. r = Some d \<longrightarrow> length d \<le> length valid div 4 * 3"
    using decode_loop_safe [of "[]" "[]" "take len src" "length valid div 4 * 3" 0] assms(2) by auto
  then show ?thesis
    using assms decode_loop_filter [of "length valid div 4 * 3" "take len src"]
    by (auto simp: base64_decode_def Let_def)
qed

theorem base64_decode_total_witness:
  "base64_decode (\<lambda>_. True) ''TW\<newline>E='' 5 = base64_decode (\<lambda>_. True) ''TWE='' (length ''TWE='')"
proof -
  have "filter (\<lambda>c. dtable c \<noteq> 0x80) (take 5 ''TW\<newline>E='') = ''TWE=''" by code_simp
  moreover have "5 \<le> length ''TW\<newline>E=''" by simp
  ultimately show ?thesis
    using base64_decode_total [of 5 "''TW\<newline>E=''" "''TWE=''" "\<lambda>_. True"] by metis
qed

end
