(* ===== verification/Crc16.thy ===== *)
theory Crc16
  imports C_lang
begin

text \<open>
  The checksum of the C program's messages, \<open>crc16\<close> of \<^verbatim>\<open>udptoserial/parser.c\<close>: the byte-at-a-time code is
  the bit-serial CRC-16-CCITT, and a change of one character always changes it.
\<close>

section \<open>The code\<close>

definition crc16_step :: "u16 \<Rightarrow> u8 \<Rightarrow> u16" where
  "crc16_step crc d =
     (let x = ucast (drop_bit 8 crc) XOR d; x = x XOR drop_bit 4 x
      in push_bit 8 crc XOR push_bit 12 (ucast x) XOR push_bit 5 (ucast x) XOR ucast x)"

definition crc16 :: "string \<Rightarrow> u16" where
  "crc16 s = fold (\<lambda>c crc. crc16_step crc (u8_of c)) s 0xFFFF"

section \<open>The checksum is CRC-16-CCITT\<close>

text \<open>The bit-serial definition: the polynomial \<open>0x1021\<close>, one shift for each bit of the byte.\<close>

definition ccitt_shift :: "u16 \<Rightarrow> u16" where
  "ccitt_shift crc = (if bit crc 15 then push_bit 1 crc XOR 0x1021 else push_bit 1 crc)"

definition ccitt_byte :: "u16 \<Rightarrow> u8 \<Rightarrow> u16" where
  "ccitt_byte crc d = (ccitt_shift ^^ 8) (crc XOR push_bit 8 (ucast d))"

lemma ccitt_shift_xor: "ccitt_shift (v XOR w) = ccitt_shift v XOR ccitt_shift w"
  by (rule bit_eqI) (auto simp: ccitt_shift_def bit_simps)

lemma ccitt_funpow_xor: "(ccitt_shift ^^ n) (v XOR w) = (ccitt_shift ^^ n) v XOR (ccitt_shift ^^ n) w"
  by (induction n) (simp_all add: ccitt_shift_xor)

text \<open>Both depend linearly on the byte, so it is enough to compare them on the powers of two.\<close>

definition crc16_table :: "u8 \<Rightarrow> u16" where
  "crc16_table x = (let x = x XOR drop_bit 4 x in push_bit 12 (ucast x) XOR push_bit 5 (ucast x) XOR ucast x)"

lemma crc16_table_xor: "crc16_table (v XOR w) = crc16_table v XOR crc16_table w"
  by (simp add: crc16_table_def Let_def drop_bit_xor push_bit_xor unsigned_xor_eq xor.assoc xor.left_commute
      xor.commute)

definition ccitt_table :: "u8 \<Rightarrow> u16" where
  "ccitt_table x = (ccitt_shift ^^ 8) (push_bit 8 (ucast x))"

lemma ccitt_table_xor: "ccitt_table (v XOR w) = ccitt_table v XOR ccitt_table w"
proof -
  have "push_bit 8 (ucast (v XOR w) :: u16) = push_bit 8 (ucast v) XOR push_bit 8 (ucast w)"
    by (rule bit_eqI) (auto simp: bit_simps)
  then show ?thesis by (simp add: ccitt_table_def ccitt_funpow_xor)
qed

lemma funpow_8: "(f ^^ 8) x = f (f (f (f (f (f (f (f x)))))))"
  by (simp add: numeral_eq_Suc)

lemma table_basis: "list_all (\<lambda>n. crc16_table (2^n) = ccitt_table (2^n)) [0,1,2,3,4,5,6,7]"
  by (simp add: crc16_table_def ccitt_table_def ccitt_shift_def Let_def funpow_8
      push_bit_eq_mult drop_bit_eq_div)

lemma take_bit_Suc_xor:
  "take_bit (Suc n) x = take_bit n x XOR (if bit x n then 2 ^ n else 0)" for x :: u8
  by (rule bit_eqI) (auto simp: bit_simps less_Suc_eq)

lemma linear_u8:
  fixes f g :: "u8 \<Rightarrow> u16"
  assumes "\<And>v w. f (v XOR w) = f v XOR f w" "\<And>v w. g (v XOR w) = g v XOR g w"
    "list_all (\<lambda>n. f (2 ^ n) = g (2 ^ n)) [0, 1, 2, 3, 4, 5, 6, 7]"
  shows "f x = g x"
proof -
  have zero: "f 0 = 0" "g 0 = 0" using assms(1,2) [of 0 0] by simp_all
  have "f (take_bit n x) = g (take_bit n x)" if "n \<le> 8" for n
    using that
  proof (induction n)
    case (Suc n)
    then have "n \<in> set [0, 1, 2, 3, 4, 5, 6, 7]" by auto
    then have "f (2 ^ n) = g (2 ^ n)" using assms(3) by (auto simp: list_all_iff)
    then show ?case using Suc by (simp add: take_bit_Suc_xor assms(1,2) zero)
  qed (simp add: zero)
  from this [of 8] show ?thesis by (simp add: take_bit_word_eq_self)
qed

lemma crc16_table_eq: "crc16_table x = ccitt_table x"
  by (rule linear_u8 [OF crc16_table_xor ccitt_table_xor table_basis])

lemma shift_low: "n + k \<le> 16 \<Longrightarrow> (\<And>i. bit v i \<Longrightarrow> i < k) \<Longrightarrow> (ccitt_shift ^^ n) v = push_bit n v"
proof (induction n)
  case (Suc n)
  have "\<not> bit v (15 - n)"
  proof
    assume "bit v (15 - n)"
    then have "15 - n < k" by (rule Suc.prems(2))
    then show False using Suc.prems(1) by simp
  qed
  then show ?case using Suc by (simp add: ccitt_shift_def bit_push_bit_iff)
qed simp

lemma crc16_step_ccitt: "crc16_step crc d = ccitt_byte crc d"
proof -
  let ?x = "ucast (drop_bit 8 crc) XOR d :: u8" and ?lo = "take_bit 8 crc"
  have split: "crc XOR push_bit 8 (ucast d) = ?lo XOR push_bit 8 (ucast ?x)"
    by (rule bit_eqI) (auto simp: bit_simps)
  have "(ccitt_shift ^^ 8) ?lo = push_bit 8 ?lo" by (rule shift_low [of _ 8]) (auto simp: bit_simps)
  moreover have "push_bit 8 ?lo = push_bit 8 crc" by (rule bit_eqI) (auto simp: bit_simps)
  ultimately have "ccitt_byte crc d = push_bit 8 crc XOR ccitt_table ?x"
    by (simp add: ccitt_byte_def split ccitt_funpow_xor ccitt_table_def)
  then show ?thesis by (simp add: crc16_step_def Let_def crc16_table_def xor.assoc flip: crc16_table_eq)
qed


text \<open>The bit-serial checksum of a text.\<close>

definition crc16_ccitt :: "string \<Rightarrow> u16" where
  "crc16_ccitt s = fold (\<lambda>c crc. ccitt_byte crc (u8_of c)) s 0xFFFF"

lemma crc16_eq_ccitt: "crc16 s = crc16_ccitt s"
  by (simp add: crc16_def crc16_ccitt_def crc16_step_ccitt)

text \<open>C31: The table-free checksum code is CRC-16-CCITT.  For every text it gives what the bit-serial
  definition gives: start at \<open>0xFFFF\<close>, polynomial \<open>0x1021\<close>, most significant bit first; on the digits
  1 to 9 that is the published check value \<open>0x29B1\<close>.\<close>

theorem crc16_is_ccitt: "crc16 s = crc16_ccitt s \<and> crc16 ''123456789'' = 0x29B1"
proof -
  have "crc16 ''123456789'' = 0x29B1"
    by (simp add: crc16_def crc16_step_def u8_of_def Let_def push_bit_eq_mult drop_bit_eq_div)
  then show ?thesis by (simp add: crc16_eq_ccitt)
qed

section \<open>What it detects\<close>

lemma ccitt_shift_zero:
  assumes "ccitt_shift v = 0"
  shows "v = 0"
proof -
  have "\<not> bit v 15"
  proof
    assume "bit v 15"
    then have "bit (ccitt_shift v) 0" by (simp add: ccitt_shift_def even_xor_iff bit_0)
    then show False using assms by simp
  qed
  then have p: "push_bit 1 v = 0" and "\<not> bit v 15" using assms by (simp_all add: ccitt_shift_def)
  show ?thesis
  proof (rule bit_eqI)
    fix n
    assume "possible_bit TYPE(u16) n"
    then have "n < 16" by simp
    show "bit v n \<longleftrightarrow> bit (0 :: u16) n"
    proof (cases "n = 15")
      case False
      then have "bit (push_bit 1 v) (Suc n) \<longleftrightarrow> bit v n" using \<open>n < 16\<close>
        by (subst bit_push_bit_iff) simp
      then show ?thesis using p by simp
    qed (use \<open>\<not> bit v 15\<close> in simp)
  qed
qed

lemma xor_cancel:
  fixes a b c :: "'a :: len word"
  shows "a XOR b = a XOR c \<Longrightarrow> b = c" "b XOR a = c XOR a \<Longrightarrow> b = c"
  by (metis xor.assoc xor.left_neutral xor_self_eq, metis xor.assoc xor.right_neutral xor_self_eq)

lemma ccitt_shift_inj: "ccitt_shift v = ccitt_shift w \<Longrightarrow> v = w"
  using ccitt_shift_zero [of "v XOR w"] xor_cancel(1) [of v w v] by (simp add: ccitt_shift_xor)

lemma ccitt_funpow_inj: "(ccitt_shift ^^ n) v = (ccitt_shift ^^ n) w \<Longrightarrow> v = w"
  by (induction n) (auto dest: ccitt_shift_inj)

lemma crc16_step_inj_crc: "crc16_step v d = crc16_step w d \<Longrightarrow> v = w"
  unfolding crc16_step_ccitt ccitt_byte_def by (blast dest: ccitt_funpow_inj xor_cancel(2))

lemma crc16_step_inj_byte: "crc16_step crc d = crc16_step crc e \<Longrightarrow> d = e"
proof -
  assume "crc16_step crc d = crc16_step crc e"
  then have "push_bit 8 (ucast d :: u16) = push_bit 8 (ucast e)"
    unfolding crc16_step_ccitt ccitt_byte_def by (blast dest: ccitt_funpow_inj xor_cancel(1))
  then have "bit (push_bit 8 (ucast d :: u16)) (n + 8) \<longleftrightarrow> bit (push_bit 8 (ucast e :: u16)) (n + 8)" for n
    by simp
  then have "bit d n \<longleftrightarrow> bit e n" if "n < 8" for n using that by (fastforce simp: bit_simps)
  then show "d = e" by (intro bit_eqI) simp
qed

lemma u8_of_inj: "u8_of c = u8_of d \<Longrightarrow> c = d"
proof -
  assume "u8_of c = u8_of d"
  then have "unat (u8_of c) = unat (u8_of d)" by simp
  then show "c = d" by (simp add: u8_of_def unat_of_nat)
qed

lemma fold_crc_inj:
  "fold (\<lambda>c crc. crc16_step crc (u8_of c)) s v = fold (\<lambda>c crc. crc16_step crc (u8_of c)) s w \<Longrightarrow> v = w"
  by (induction s arbitrary: v w) (auto dest: crc16_step_inj_crc)

lemma crc16_single_error:
  assumes "i < length s" "c \<noteq> s ! i"
  shows "crc16 (s[i := c]) \<noteq> crc16 s"
proof
  let ?f = "\<lambda>c crc. crc16_step crc (u8_of c)"
  assume eq: "crc16 (s[i := c]) = crc16 s"
  have upd: "s[i := c] = take i s @ c # drop (Suc i) s" using assms(1) by (rule upd_conv_take_nth_drop)
  have s: "s = take i s @ s ! i # drop (Suc i) s" using assms(1) by (rule id_take_nth_drop)
  have "fold ?f (drop (Suc i) s) (?f c (fold ?f (take i s) 0xFFFF)) =
        fold ?f (drop (Suc i) s) (?f (s ! i) (fold ?f (take i s) 0xFFFF))"
    using eq upd arg_cong [OF s, of "\<lambda>s. fold ?f s 0xFFFF"] by (simp add: crc16_def)
  then have "crc16_step (fold ?f (take i s) 0xFFFF) (u8_of c) =
        crc16_step (fold ?f (take i s) 0xFFFF) (u8_of (s ! i))"
    by (rule fold_crc_inj)
  then show False using crc16_step_inj_byte u8_of_inj assms(2) by blast
qed

end
