(* ===== verification/Msg_parser.thy ===== *)
theory Msg_parser
  imports Base64 Crc16 Framing
begin

text \<open>
  The text messages of the C program, \<^verbatim>\<open>udptoserial/parser.c\<close>: a bracketed line of a protocol letter, two
  ports, a length, the payload in base64 and a checksum.  \<open>pack_message\<close> prints one into a buffer and
  \<open>unpack_message\<close> scans a buffer for one.  Buffers are strings; \<open>alloc\<close> says which allocations succeed.
  Diagnostic output is left out.
\<close>

section \<open>Constants and types\<close>

definition START_OF_HEADER :: char where "START_OF_HEADER = CHR ''[''"
definition START_OF_TEXT :: char where "START_OF_TEXT = CHR ''|''"
definition END_OF_TEXT :: char where "END_OF_TEXT = CHR '']''"

definition PACKED_MSG_HEADER_LEN :: nat where "PACKED_MSG_HEADER_LEN = 10"
definition PACKED_MSG_MAX_LEN :: nat where "PACKED_MSG_MAX_LEN = PACKED_MSG_HEADER_LEN + 0xFFFF + 10"
definition PACKED_MSG_MIN_LEN :: nat where "PACKED_MSG_MIN_LEN = PACKED_MSG_HEADER_LEN + 4 + 10"

lemmas frame_chars = START_OF_HEADER_def START_OF_TEXT_def END_OF_TEXT_def
lemmas frame_lens = PACKED_MSG_HEADER_LEN_def PACKED_MSG_MAX_LEN_def PACKED_MSG_MIN_LEN_def

text \<open>The protocol is the letter on the wire, a null character when unknown.\<close>

definition MSG_PROTOCOL_UNKNOWN :: char where "MSG_PROTOCOL_UNKNOWN = CHR 0x00"
definition MSG_PROTOCOL_UDP :: char where "MSG_PROTOCOL_UDP = CHR ''U''"
definition MSG_PROTOCOL_TCP :: char where "MSG_PROTOCOL_TCP = CHR ''T''"

text \<open>\<open>um_data\<close> is the data the pointer refers to, \<^const>\<open>None\<close> for a null pointer; of a decoded payload, the
  bytes that were decoded.\<close>

record unpacked_msg =
  um_valid :: bool
  um_input_port :: u16
  um_output_port :: u16
  um_protocol :: char
  um_len :: nat
  um_data :: "bytes option"
  um_crc :: u16

section \<open>Numbers\<close>

definition hexdigit_to_val :: "char \<Rightarrow> nat c_result" where
  "hexdigit_to_val c =
     (let n = of_char c :: nat
      in if 48 \<le> n \<and> n \<le> 57 then Inr (n - 48)
         else if 97 \<le> n \<and> n \<le> 102 then Inr (n - 97 + 10)
         else if 65 \<le> n \<and> n \<le> 70 then Inr (n - 65 + 10)
         else Inl Abort_called)"

text \<open>\<^const>\<open>None\<close> is the result \<open>-1\<close>.\<close>

definition extract_hexword :: "string \<Rightarrow> nat option c_result" where
  "extract_hexword buf =
     (case buf of
        c0 # c1 # c2 # c3 # _ \<Rightarrow>
          c_bind (all_xdigits [c0, c1, c2, c3]) (\<lambda>digits.
          if digits then
            c_bind (hexdigit_to_val c0) (\<lambda>v0.
            c_bind (hexdigit_to_val c1) (\<lambda>v1.
            c_bind (hexdigit_to_val c2) (\<lambda>v2.
            c_bind (hexdigit_to_val c3) (\<lambda>v3.
            Inr (Some (v0 * 4096 + v1 * 256 + v2 * 16 + v3))))))
          else Inr None)
      | _ \<Rightarrow> Inl Out_of_bounds)"

section \<open>Scanning\<close>

text \<open>The three loops of \<open>unpack_message\<close>: the first index from \<open>i\<close> on that holds \<open>c\<close>, or the limit.\<close>

function scan_for :: "char \<Rightarrow> string \<Rightarrow> nat \<Rightarrow> nat \<Rightarrow> nat" where
  "scan_for c buf i limit =
     (if i < limit then (if buf ! i = c then i else scan_for c buf (i + 1) limit) else i)"
  by pat_completeness auto
termination by (relation "measure (\<lambda>(c, buf, i, limit). limit - i)") auto

declare scan_for.simps [simp del]

text \<open>The part behind the search for the delimiters: the fields between \<open>soh\<close>, \<open>stx\<close> and \<open>etx\<close>, each
  number with the early return for text that is not one.\<close>

definition with_hexword :: "string \<Rightarrow> 'a \<Rightarrow> (nat \<Rightarrow> 'a c_result) \<Rightarrow> 'a c_result" where
  "with_hexword buf otherwise f =
     c_bind (extract_hexword buf) (\<lambda>v. case v of None \<Rightarrow> Inr otherwise | Some v \<Rightarrow> f v)"

definition unpack_payload ::
    "(nat \<Rightarrow> bool) \<Rightarrow> unpacked_msg \<Rightarrow> string \<Rightarrow> nat \<Rightarrow> nat \<Rightarrow> nat \<Rightarrow> (nat \<times> unpacked_msg) c_result" where
  "unpack_payload alloc msg buf soh stx etx =
     with_hexword (drop (stx + 1) buf) (etx + 1, msg) (\<lambda>dlen.
       if etx - stx - 9 \<noteq> dlen then Inr (etx + 1, msg)
       else with_hexword (drop (etx - 4) buf) (etx + 1, msg) (\<lambda>crc_expected.
         let crc_measured = crc16 (take (etx - soh - 4) (drop soh buf))
         in if crc_expected \<noteq> unat crc_measured then Inr (etx + 1, msg)
            else c_bind (base64_decode alloc (drop (stx + 5) buf) (etx - stx - 9)) (\<lambda>data.
              Inr (etx + 1, msg\<lparr>um_crc := of_nat crc_expected, um_len := dlen, um_data := data,
                                um_valid := True\<rparr>))))"

definition unpack_fields ::
    "(nat \<Rightarrow> bool) \<Rightarrow> unpacked_msg \<Rightarrow> string \<Rightarrow> nat \<Rightarrow> nat \<Rightarrow> nat \<Rightarrow> (nat \<times> unpacked_msg) c_result" where
  "unpack_fields alloc msg buf soh stx etx =
     (let protocol = buf ! (soh + 1)
      in if protocol \<noteq> MSG_PROTOCOL_UDP \<and> protocol \<noteq> MSG_PROTOCOL_TCP then Inr (etx + 1, msg)
         else
           (let msg = msg\<lparr>um_protocol := protocol\<rparr>
            in with_hexword (drop (soh + 2) buf) (etx + 1, msg) (\<lambda>iport.
                 let msg = msg\<lparr>um_input_port := of_nat iport\<rparr>
                 in with_hexword (drop (soh + 6) buf) (etx + 1, msg) (\<lambda>oport.
                      let msg = msg\<lparr>um_output_port := of_nat oport\<rparr>
                      in unpack_payload alloc msg buf soh stx etx))))"

definition unpack_message ::
    "(nat \<Rightarrow> bool) \<Rightarrow> unpacked_msg \<Rightarrow> string \<Rightarrow> nat \<Rightarrow> (nat \<times> unpacked_msg) c_result" where
  "unpack_message alloc msg buf len =
     (if \<not> len > 0 then Inl Assertion_failed
      else if length buf < len then Inl Out_of_bounds
      else
        (let msg = msg\<lparr>um_valid := False\<rparr>;
             soh = scan_for START_OF_HEADER buf 0 len
         in if soh = len then Inr (soh, msg)
            else
              (let etx = scan_for END_OF_TEXT buf (soh + 1) len
               in if etx = len then
                    (if etx - soh + 1 > PACKED_MSG_MAX_LEN then Inr (etx + 1, msg) else Inr (soh, msg))
                  else if etx - soh + 1 < PACKED_MSG_MIN_LEN then Inr (etx + 1, msg)
                  else
                    (let stx = scan_for START_OF_TEXT buf soh etx
                     in if stx = etx then Inr (etx + 1, msg)
                        else if stx - soh \<noteq> PACKED_MSG_HEADER_LEN then Inr (etx + 1, msg)
                        else unpack_fields alloc msg buf soh stx etx))))"

section \<open>Printing\<close>

text \<open>\<open>snprintf\<close> writes at most one character less than it is given room for; what follows in
  \<open>packed_msg\<close> reads the text up to its first null character.\<close>

definition packed_msg_max_len :: "string \<Rightarrow> nat" where
  "packed_msg_max_len payload_str = length payload_str + 2 + 5 + 1 + 3 * 5 + 4 + 2"

definition print_msg :: "unpacked_msg \<Rightarrow> string \<Rightarrow> string" where
  "print_msg msg payload_str =
     (let head = takeWhile (\<lambda>c. c \<noteq> NUL) (take (packed_msg_max_len payload_str - 1)
            ([START_OF_HEADER, um_protocol msg] @ hex04 (unat (um_input_port msg)) @
             hex04 (unat (um_output_port msg)) @ [START_OF_TEXT] @ hex04 (length payload_str) @ payload_str))
      in head @ hex04 (unat (crc16 head)) @ [END_OF_TEXT, CHR 0x0D, CHR 0x0A])"

definition pack_message ::
    "(nat \<Rightarrow> bool) \<Rightarrow> unpacked_msg \<Rightarrow> string \<Rightarrow> nat \<Rightarrow> (nat \<times> unpacked_msg \<times> string) c_result" where
  "pack_message alloc msg buf len =
     (if \<not> len > 0 then Inl Assertion_failed
      else if \<not> um_valid msg \<or> um_len msg = 0 then Inr (0, msg, buf)
      else
        (case um_data msg of
           None \<Rightarrow> Inl Null_pointer
         | Some data \<Rightarrow>
             c_bind (base64_encode alloc data (um_len msg)) (\<lambda>payload.
             case payload of
               None \<Rightarrow> Inl Null_pointer
             | Some payload_str \<Rightarrow>
                 if \<not> alloc (packed_msg_max_len payload_str + 1) then Inl Null_pointer
                 else
                 (let packed_msg = print_msg msg payload_str; packed_len = length packed_msg
                  in if packed_len + 1 > packed_msg_max_len payload_str + 1 then Inl Out_of_bounds
                     else if \<not> packed_len < len then Inl Assertion_failed
                     else if length buf < packed_len then Inl Out_of_bounds
                     else
                       (let buf = packed_msg @ drop packed_len buf
                        in c_bind (c_strlen buf) (\<lambda>n.
                           c_bind (unpack_message alloc msg buf n) (\<lambda>(_, msg).
                           Inr (packed_len, msg, buf))))))))"

section \<open>Reading the fields\<close>

lemma hexdigit_of_hex:
  assumes "n < 16"
  shows "hexdigit_to_val (hex_digit n) = Inr n"
  using nibble_cases [OF assms] by (auto simp: hexdigit_to_val_def hex_digit_def)

lemma isxdigit_val: "isxdigit c \<Longrightarrow> \<exists>v. hexdigit_to_val c = Inr v \<and> v < 16"
  unfolding isxdigit_def by (auto simp: hexdigit_to_val_def)

lemma extract_hex04: "n < 65536 \<Longrightarrow> extract_hexword (hex04 n @ rest) = Inr (Some n)"
proof -
  assume n: "n < 65536"
  then have "n div 4096 < 16" by simp
  moreover have "n div 4096 * 4096 + n div 256 mod 16 * 256 + n div 16 mod 16 * 16 + n mod 16 = n"
  proof -
    have "n div 16 * 16 + n mod 16 = n" by (rule div_mult_mod_eq)
    moreover have "n div 256 * 16 + n div 16 mod 16 = n div 16"
      using div_mult_mod_eq [of "n div 16" 16] by (simp add: div_mult2_eq [symmetric])
    moreover have "n div 4096 * 16 + n div 256 mod 16 = n div 256"
      using div_mult_mod_eq [of "n div 256" 16] by (simp add: div_mult2_eq [symmetric])
    ultimately show ?thesis by linarith
  qed
  ultimately show ?thesis
    by (simp add: extract_hexword_def hex04_eq [OF n] hex_digit_plain hexdigit_of_hex all_xdigits_True del: all_xdigits.simps)
qed

text \<open>Four characters are a number, or not, unless one of them is negative.\<close>

lemma extract_hexword_total:
  assumes "4 \<le> length buf"
  obtains v where "extract_hexword buf = Inr v" "\<forall>n. v = Some n \<longrightarrow> n < 65536"
  | "extract_hexword buf = Inl Negative_character" "\<not> list_all ascii (take 4 buf)"
proof -
  obtain c0 c1 c2 c3 r where buf: "buf = c0 # c1 # c2 # c3 # r"
    using assms by (auto simp: numeral_eq_Suc Suc_le_length_iff)
  let ?cs = "[c0, c1, c2, c3]"
  consider "all_xdigits ?cs = Inr False" | "all_xdigits ?cs = Inr True" "list_all isxdigit ?cs"
    | "all_xdigits ?cs = Inl Negative_character" "\<not> list_all ascii ?cs"
    using all_xdigits_cases [of ?cs] by (metis (full_types))
  then show thesis
  proof cases
    case 1
    then show thesis using that(1) [of None] buf by (simp add: extract_hexword_def del: all_xdigits.simps)
  next
    case 2
    then obtain v0 v1 v2 v3 where v: "hexdigit_to_val c0 = Inr v0" "hexdigit_to_val c1 = Inr v1" "hexdigit_to_val c2 = Inr v2"
      "hexdigit_to_val c3 = Inr v3" "v0 < 16" "v1 < 16" "v2 < 16" "v3 < 16"
      using isxdigit_val [of c0] isxdigit_val [of c1] isxdigit_val [of c2] isxdigit_val [of c3] by auto
    then show thesis
      using that(1) [of "Some (v0 * 4096 + v1 * 256 + v2 * 16 + v3)"] 2 buf by (simp add: extract_hexword_def del: all_xdigits.simps)
  next
    case 3
    then show thesis using buf by (intro that(2)) (simp_all add: extract_hexword_def del: all_xdigits.simps)
  qed
qed

abbreviation between :: "nat \<Rightarrow> nat \<Rightarrow> string \<Rightarrow> string" where
  "between i j buf \<equiv> take (j - i) (drop i buf)"

lemma extract_hexword_at:
  assumes "soh \<le> i" "i + 4 \<le> etx" "etx \<le> length buf"
  obtains v where "extract_hexword (drop i buf) = Inr v"
  | "extract_hexword (drop i buf) = Inl Negative_character" "\<not> list_all ascii (between soh etx buf)"
proof -
  have "take 4 (drop i buf) = take 4 (drop (i - soh) (between soh etx buf))"
    using assms(1,2) by (simp add: drop_take min_def)
  then have "set (take 4 (drop i buf)) \<subseteq> set (between soh etx buf)"
    by (metis set_drop_subset set_take_subset subset_trans)
  then have "list_all ascii (between soh etx buf) \<Longrightarrow> list_all ascii (take 4 (drop i buf))" by (auto simp: list_all_iff)
  then have ascii: "\<not> list_all ascii (take 4 (drop i buf)) \<Longrightarrow> \<not> list_all ascii (between soh etx buf)" by blast
  have len: "4 \<le> length (drop i buf)" using assms by simp
  show thesis by (rule extract_hexword_total [OF len]) (use that ascii in blast)+
qed

section \<open>The search loops\<close>

lemma scan_for_eq:
  "i \<le> limit \<Longrightarrow> limit \<le> length buf \<Longrightarrow>
   scan_for c buf i limit = i + length (takeWhile (\<lambda>d. d \<noteq> c) (take (limit - i) (drop i buf)))"
proof (induction c buf i limit rule: scan_for.induct)
  case (1 c buf i limit)
  show ?case
  proof (cases "i < limit")
    case True
    then have d: "drop i buf = buf ! i # drop (Suc i) buf" "limit - i = Suc (limit - Suc i)"
      using "1.prems" by (simp_all add: Cons_nth_drop_Suc)
    show ?thesis using "1.IH" True "1.prems" by (subst scan_for.simps) (simp add: d)
  qed (use "1.prems" in \<open>simp add: scan_for.simps\<close>)
qed

lemma scan_for_found:
  assumes "c \<notin> set mid" "i = length pre" "i + length mid < limit" "limit \<le> length (pre @ mid @ c # post)"
  shows "scan_for c (pre @ mid @ c # post) i limit = i + length mid"
proof -
  have "take (limit - i) (mid @ c # post) = mid @ c # take (limit - i - length mid - 1) post"
    using assms(3) by (simp add: take_Cons')
  moreover have "takeWhile (\<lambda>d. d \<noteq> c) mid = mid" using assms(1) by (auto simp: takeWhile_eq_all_conv)
  ultimately show ?thesis
    using assms by (subst scan_for_eq) (simp_all add: takeWhile_append2)
qed

lemma scan_for_bounds:
  assumes "i \<le> limit" "limit \<le> length buf"
  shows "i \<le> scan_for c buf i limit" "scan_for c buf i limit \<le> limit"
    "scan_for c buf i limit < limit \<Longrightarrow> buf ! scan_for c buf i limit = c"
    "i \<le> j \<Longrightarrow> j < scan_for c buf i limit \<Longrightarrow> buf ! j \<noteq> c"
proof -
  let ?t = "take (limit - i) (drop i buf)" and ?P = "\<lambda>d. d \<noteq> c"
  have eq: "scan_for c buf i limit = i + length (takeWhile ?P ?t)" by (rule scan_for_eq [OF assms])
  have len: "length ?t = limit - i" using assms by simp
  show "i \<le> scan_for c buf i limit" "scan_for c buf i limit \<le> limit"
    using eq length_takeWhile_le [of ?P ?t] len assms by simp_all
  show "buf ! scan_for c buf i limit = c" if "scan_for c buf i limit < limit"
    using that eq nth_length_takeWhile [of ?P ?t] len assms by simp
  show "buf ! j \<noteq> c" if "i \<le> j" "j < scan_for c buf i limit"
  proof -
    have "j - i < length (takeWhile ?P ?t)" using that eq by simp
    then have "takeWhile ?P ?t ! (j - i) \<in> set (takeWhile ?P ?t)" "j - i < limit - i"
      "takeWhile ?P ?t ! (j - i) = ?t ! (j - i)"
      using length_takeWhile_le [of ?P ?t] len by (fastforce intro: nth_mem takeWhile_nth)+
    then show ?thesis using that(1) assms set_takeWhileD [of _ ?P ?t] by fastforce
  qed
qed

section \<open>One frame\<close>

text \<open>What \<open>pack_message\<close> prints for a payload text: the checked part and the whole frame.\<close>

definition msg_head :: "char \<Rightarrow> u16 \<Rightarrow> u16 \<Rightarrow> string \<Rightarrow> string" where
  "msg_head proto ip op payload =
     [START_OF_HEADER, proto] @ hex04 (unat ip) @ hex04 (unat op) @ [START_OF_TEXT] @
     hex04 (length payload) @ payload"

definition msg_frame :: "char \<Rightarrow> u16 \<Rightarrow> u16 \<Rightarrow> string \<Rightarrow> string" where
  "msg_frame proto ip op payload =
     msg_head proto ip op payload @ hex04 (unat (crc16 (msg_head proto ip op payload))) @ [END_OF_TEXT]"

text \<open>Characters that occur inside a frame.\<close>

definition plain_chars :: "char set" where
  "plain_chars = set ''0123456789abcdef'' \<union> insert (CHR ''='') (set base64_table)"

lemma plain_chars_not:
  "START_OF_HEADER \<notin> plain_chars" "END_OF_TEXT \<notin> plain_chars" "START_OF_TEXT \<notin> plain_chars"
  "NUL \<notin> plain_chars"
  by (simp_all add: plain_chars_def frame_chars NUL_def base64_table_def)

lemma hex04_plain: "n < 65536 \<Longrightarrow> set (hex04 n) \<subseteq> plain_chars"
  unfolding plain_chars_def by (rule le_supI1) (rule hex04_text(2))

lemma encode64_plain: "set (encode64 d) \<subseteq> plain_chars"
  unfolding plain_chars_def by (rule le_supI2) (rule encode64_alphabet)

lemma unat_u16: "unat (w :: u16) < 65536"
  by (rule order_less_le_trans [OF unsigned_less]) simp

lemma u16_hex: "length (hex04 (unat (w :: u16))) = 4" "set (hex04 (unat w)) \<subseteq> plain_chars"
  using hex04_text(1) [OF unat_u16] hex04_plain [OF unat_u16] by blast+

lemma length_msg_frame:
  assumes "length payload < 65536"
  shows "length (msg_head proto ip op payload) = length payload + 15"
    "length (msg_frame proto ip op payload) = length payload + 20"
  using hex04_text(1) [OF assms] by (simp_all add: msg_head_def msg_frame_def u16_hex)

text \<open>The frame of a payload, with the delimiters at the positions where the scanner looks for them.\<close>

lemma unpack_fields_frame:
  assumes "proto = MSG_PROTOCOL_UDP \<or> proto = MSG_PROTOCOL_TCP" "length payload < 65536"
    "base64_decode alloc (payload @ hex04 (unat crc) @ END_OF_TEXT # rest) (length payload) = Inr data"
    "crc = crc16 (msg_head proto ip op payload)"
    "soh = length junk" "stx = soh + 10" "etx = soh + length payload + 19"
  shows "unpack_fields alloc msg (junk @ msg_frame proto ip op payload @ rest) soh stx etx =
    Inr (etx + 1, msg\<lparr>um_protocol := proto, um_input_port := ip, um_output_port := op, um_crc := crc,
      um_len := length payload, um_data := data, um_valid := True\<rparr>)"
proof -
  let ?buf = "junk @ msg_frame proto ip op payload @ rest" and ?crc = "hex04 (unat crc) @ END_OF_TEXT # rest"
  let ?dlen = "hex04 (length payload)"
  have len: "length ?dlen = 4" by (rule hex04_text(1) [OF assms(2)])
  have buf: "?buf = junk @ [START_OF_HEADER, proto] @ hex04 (unat ip) @ hex04 (unat op) @ [START_OF_TEXT] @
      ?dlen @ payload @ ?crc"
    by (simp add: msg_frame_def msg_head_def assms(4))
  have fields: "?buf ! (soh + 1) = proto"
    "drop (soh + 2) ?buf = hex04 (unat ip) @ hex04 (unat op) @ [START_OF_TEXT] @ ?dlen @ payload @ ?crc"
    "drop (soh + 6) ?buf = hex04 (unat op) @ [START_OF_TEXT] @ ?dlen @ payload @ ?crc"
    "drop (stx + 1) ?buf = ?dlen @ payload @ ?crc" "drop (stx + 5) ?buf = payload @ ?crc"
    unfolding buf using assms(5-7) len by (simp_all add: nth_append u16_hex)
  have checked: "take (etx - soh - 4) (drop soh ?buf) = msg_head proto ip op payload"
    "drop (etx - 4) ?buf = ?crc"
    using assms(4-7) length_msg_frame(1) [OF assms(2), of proto ip op] by (simp_all add: msg_frame_def)
  have dlen: "etx - stx - 9 = length payload" using assms(6,7) by simp
  show ?thesis
    unfolding unpack_fields_def unpack_payload_def with_hexword_def Let_def fields checked dlen
    using assms(1,3,4) by (auto simp: extract_hex04 unat_u16 assms(2))
qed

lemma msg_head_plain:
  assumes "proto = MSG_PROTOCOL_UDP \<or> proto = MSG_PROTOCOL_TCP" "length payload < 65536"
    "set payload \<subseteq> plain_chars"
  shows "END_OF_TEXT \<notin> set (msg_head proto ip op payload)" "NUL \<notin> set (msg_head proto ip op payload)"
    "START_OF_HEADER \<notin> set (tl (msg_frame proto ip op payload))"
    "START_OF_TEXT \<notin> set ([START_OF_HEADER, proto] @ hex04 (unat ip) @ hex04 (unat op))"
proof -
  have p: "proto \<notin> {START_OF_HEADER, END_OF_TEXT, START_OF_TEXT, NUL}"
    using assms(1) by (auto simp: MSG_PROTOCOL_UDP_def MSG_PROTOCOL_TCP_def frame_chars NUL_def)
  have delims: "START_OF_HEADER \<noteq> END_OF_TEXT" "START_OF_TEXT \<noteq> END_OF_TEXT" "START_OF_HEADER \<noteq> START_OF_TEXT"
    "START_OF_HEADER \<noteq> NUL" "START_OF_TEXT \<noteq> NUL" "END_OF_TEXT \<noteq> NUL"
    by (simp_all add: frame_chars NUL_def)
  have texts: "set payload \<subseteq> plain_chars" "set (hex04 (length payload)) \<subseteq> plain_chars"
    "set (hex04 (unat w)) \<subseteq> plain_chars" for w :: u16
    using assms(3) hex04_plain [OF assms(2)] u16_hex(2) by blast+
  note notin = plain_chars_not [THEN contra_subsetD [rotated]]
  show "END_OF_TEXT \<notin> set (msg_head proto ip op payload)" "NUL \<notin> set (msg_head proto ip op payload)"
    "START_OF_HEADER \<notin> set (tl (msg_frame proto ip op payload))"
    "START_OF_TEXT \<notin> set ([START_OF_HEADER, proto] @ hex04 (unat ip) @ hex04 (unat op))"
    unfolding msg_frame_def msg_head_def
    using p delims texts [THEN notin(1)] texts [THEN notin(2)] texts [THEN notin(3)] texts [THEN notin(4)]
    by (auto simp: delims [symmetric])
qed

lemma unpack_frame:
  assumes "proto = MSG_PROTOCOL_UDP \<or> proto = MSG_PROTOCOL_TCP" "length payload < 65536" "4 \<le> length payload"
    "set payload \<subseteq> plain_chars"
    "base64_decode alloc (payload @ hex04 (unat crc) @ END_OF_TEXT # rest) (length payload) = Inr data"
    "crc = crc16 (msg_head proto ip op payload)" "START_OF_HEADER \<notin> set junk"
    "buf = junk @ msg_frame proto ip op payload @ rest"
    "length junk + length payload + 20 \<le> len" "len \<le> length buf"
  shows "unpack_message alloc msg buf len =
    Inr (length junk + length payload + 20, \<lparr>um_valid = True, um_input_port = ip, um_output_port = op,
      um_protocol = proto, um_len = length payload, um_data = data, um_crc = crc\<rparr>)"
proof -
  let ?h = "msg_head proto ip op payload" and ?f = "msg_frame proto ip op payload"
  note plain = msg_head_plain [OF assms(1,2,4)]
  note flen = length_msg_frame [OF assms(2), of proto ip op]
  define soh where "soh = length junk"
  define etx where "etx = soh + length payload + 19"
  have "?f = START_OF_HEADER # tl ?f" by (simp add: msg_frame_def msg_head_def)
  then have b1: "buf = [] @ junk @ START_OF_HEADER # (tl ?f @ rest)" using assms(8) by (metis append_Cons append_Nil)
  have s1: "scan_for START_OF_HEADER buf 0 len = soh"
    using scan_for_found [OF assms(7), of 0 "[]" len "tl ?f @ rest"] assms(9,10) b1 soh_def by simp
  have b2: "buf = (junk @ [START_OF_HEADER]) @ (tl ?h @ hex04 (unat crc)) @ END_OF_TEXT # rest"
    using assms(6,8) by (simp add: msg_frame_def msg_head_def)
  have "END_OF_TEXT \<notin> set (tl ?h @ hex04 (unat crc))"
    using plain(1) u16_hex(2) [of crc] plain_chars_not(2) by (auto simp: msg_head_def)
  moreover have "length (tl ?h @ hex04 (unat crc)) = length payload + 18" using flen u16_hex by simp
  ultimately have s2: "scan_for END_OF_TEXT buf (soh + 1) len = etx"
    using scan_for_found [of END_OF_TEXT "tl ?h @ hex04 (unat crc)" "soh + 1" "junk @ [START_OF_HEADER]" len rest]
      assms(9,10) b2 by (simp add: soh_def etx_def)
  let ?m = "[START_OF_HEADER, proto] @ hex04 (unat ip) @ hex04 (unat op)"
  have b3: "buf = junk @ ?m @ START_OF_TEXT # (hex04 (length payload) @ payload @ hex04 (unat crc) @ END_OF_TEXT # rest)"
    using assms(6,8) by (simp add: msg_frame_def msg_head_def)
  have s3: "scan_for START_OF_TEXT buf soh etx = soh + 10"
    using scan_for_found [OF plain(4) [of ip op], of soh junk etx] assms(9,10) b3
    by (simp add: soh_def etx_def u16_hex hex04_text(1) [OF assms(2)])
  have "unpack_message alloc msg buf len = unpack_fields alloc (msg\<lparr>um_valid := False\<rparr>) buf soh (soh + 10) etx"
    using assms(3,9,10) s1 s2 s3 by (simp add: unpack_message_def Let_def frame_lens soh_def etx_def)
  then show ?thesis
    using unpack_fields_frame [OF assms(1,2,5,6) soh_def refl etx_def] assms(8) by (simp add: soh_def etx_def)
qed

section \<open>Printing and scanning again\<close>

text \<open>A message as the program sends it, and its text.  49149 bytes are the most whose base64 text has a
  length of four hexadecimal digits.\<close>

record packet =
  pm_protocol :: char
  pm_input_port :: u16
  pm_output_port :: u16
  pm_data :: bytes

definition wf_packet :: "packet \<Rightarrow> bool" where
  "wf_packet p \<longleftrightarrow> pm_protocol p \<in> {MSG_PROTOCOL_UDP, MSG_PROTOCOL_TCP} \<and> pm_data p \<noteq> [] \<and>
     length (pm_data p) \<le> 49149"

definition packet_frame :: "packet \<Rightarrow> string" where
  "packet_frame p = msg_frame (pm_protocol p) (pm_input_port p) (pm_output_port p) (encode64 (pm_data p))"

definition CRLF :: string where "CRLF = [CHR 0x0D, CHR 0x0A]"

definition packet_text :: "packet \<Rightarrow> string" where "packet_text p = packet_frame p @ CRLF"

text \<open>The structure before and after its trip: the scanner stores the length of the base64 text.\<close>

definition msg_of :: "packet \<Rightarrow> nat \<Rightarrow> u16 \<Rightarrow> unpacked_msg" where
  "msg_of p len crc =
     \<lparr>um_valid = True, um_input_port = pm_input_port p, um_output_port = pm_output_port p,
      um_protocol = pm_protocol p, um_len = len, um_data = Some (pm_data p), um_crc = crc\<rparr>"

definition packet_crc :: "packet \<Rightarrow> u16" where
  "packet_crc p = crc16 (msg_head (pm_protocol p) (pm_input_port p) (pm_output_port p) (encode64 (pm_data p)))"

definition text_len :: "packet \<Rightarrow> nat" where "text_len p = 4 * ((length (pm_data p) + 2) div 3)"

lemma wf_packetD:
  assumes "wf_packet p"
  shows "pm_protocol p = MSG_PROTOCOL_UDP \<or> pm_protocol p = MSG_PROTOCOL_TCP"
    "length (encode64 (pm_data p)) < 65536" "4 \<le> length (encode64 (pm_data p))" "pm_data p \<noteq> []"
    "length (encode64 (pm_data p)) = text_len p" "length (pm_data p) < 2 ^ 60"
proof -
  have len: "0 < length (pm_data p)" "length (pm_data p) \<le> 49149" using assms by (auto simp: wf_packet_def)
  then show "length (encode64 (pm_data p)) < 65536" "length (pm_data p) < 2 ^ 60"
    by (auto simp: length_encode64)
  have "1 \<le> (length (pm_data p) + 2) div 3" using len(1) by (simp add: div_greater_zero_iff Suc_le_eq)
  then show "4 \<le> length (encode64 (pm_data p))" unfolding length_encode64 by linarith
qed (use assms in \<open>auto simp: wf_packet_def text_len_def length_encode64\<close>)

lemma packet_frame_facts:
  assumes "wf_packet p"
  shows "length (packet_frame p) = text_len p + 20" "length (packet_text p) = text_len p + 22"
    "packet_frame p = START_OF_HEADER # tl (packet_frame p)" "START_OF_HEADER \<notin> set (tl (packet_frame p))"
    "START_OF_HEADER \<notin> set CRLF" "NUL \<notin> set (packet_text p)"
proof -
  note wf = wf_packetD [OF assms]
  show "length (packet_frame p) = text_len p + 20" "length (packet_text p) = text_len p + 22"
    by (simp_all add: packet_text_def packet_frame_def CRLF_def length_msg_frame [OF wf(2)] wf(5))
  show "packet_frame p = START_OF_HEADER # tl (packet_frame p)"
    by (simp add: packet_frame_def msg_frame_def msg_head_def)
  show "START_OF_HEADER \<notin> set (tl (packet_frame p))"
    unfolding packet_frame_def by (rule msg_head_plain(3) [OF wf(1,2) encode64_plain])
  show "START_OF_HEADER \<notin> set CRLF" by (simp add: CRLF_def frame_chars)
  have "NUL \<notin> set (hex04 (unat w))" for w :: u16 using u16_hex(2) plain_chars_not(4) by blast
  then show "NUL \<notin> set (packet_text p)"
    using msg_head_plain(2) [OF wf(1,2) encode64_plain]
    by (simp add: packet_text_def packet_frame_def msg_frame_def CRLF_def frame_chars NUL_def)
qed

lemma unpack_packet:
  assumes "wf_packet p" "\<And>n. alloc n" "START_OF_HEADER \<notin> set junk"
    "buf = junk @ packet_frame p @ rest" "length junk + length (packet_frame p) \<le> len" "len \<le> length buf"
  shows "unpack_message alloc msg buf len =
    Inr (length junk + length (packet_frame p), msg_of p (text_len p) (packet_crc p))"
proof -
  note wf = wf_packetD [OF assms(1)]
  have "length (packet_frame p) = length (encode64 (pm_data p)) + 20"
    using packet_frame_facts(1) [OF assms(1)] wf(5) by simp
  then show ?thesis
    using unpack_frame [OF wf(1-3) encode64_plain base64_decode_encode64 [OF wf(4) assms(2)] refl assms(3)
        assms(4) [unfolded packet_frame_def], where len = len and msg = msg] assms(5,6) wf(5)
    by (simp add: msg_of_def packet_crc_def)
qed

lemma print_packet:
  assumes "wf_packet p"
  shows "print_msg (msg_of p len crc) (encode64 (pm_data p)) = packet_text p"
proof -
  note wf = wf_packetD [OF assms]
  let ?h = "msg_head (pm_protocol p) (pm_input_port p) (pm_output_port p) (encode64 (pm_data p))"
  have "length ?h = text_len p + 15" using length_msg_frame(1) [OF wf(2)] wf(5) by simp
  then have "takeWhile (\<lambda>c. c \<noteq> NUL) (take (packed_msg_max_len (encode64 (pm_data p)) - 1) ?h) = ?h"
    using wf(5) msg_head_plain(2) [OF wf(1,2) encode64_plain]
    by (auto simp: takeWhile_eq_all_conv packed_msg_max_len_def)
  then show ?thesis
    by (simp add: print_msg_def msg_of_def msg_head_def packet_text_def packet_frame_def msg_frame_def CRLF_def
        Let_def)
qed

lemma pack_packet:
  assumes "wf_packet p" "\<And>n. alloc n" "length (packet_text p) < len" "length (packet_text p) \<le> length buf"
    "NUL \<in> set (drop (length (packet_text p)) buf)"
  shows "pack_message alloc ((msg_of p (length (pm_data p)) crc)\<lparr>um_data := Some (pm_data p @ extra)\<rparr>) buf len =
    Inr (length (packet_text p), msg_of p (text_len p) (packet_crc p),
         packet_text p @ drop (length (packet_text p)) buf)"
proof -
  note wf = wf_packetD [OF assms(1)] and facts = packet_frame_facts [OF assms(1)]
  let ?e = "encode64 (pm_data p)" and ?buf = "packet_text p @ drop (length (packet_text p)) buf"
  let ?m = "(msg_of p (length (pm_data p)) crc)\<lparr>um_data := Some (pm_data p @ extra)\<rparr>"
  have "length (pm_data p) \<le> length (pm_data p @ extra)" by simp
  from base64_encode_eq [OF wf(6) this assms(2)]
  have enc: "base64_encode alloc (pm_data p @ extra) (length (pm_data p)) = Inr (Some ?e)" by simp
  have fits: "length (packet_text p) \<le> packed_msg_max_len ?e"
    using facts(2) wf(5) by (simp add: packed_msg_max_len_def)
  have m: "um_valid ?m" "um_len ?m = length (pm_data p)" "um_data ?m = Some (pm_data p @ extra)"
    by (simp_all add: msg_of_def)
  have print: "print_msg ?m ?e = packet_text p"
    using print_packet [OF assms(1)] by (simp add: print_msg_def)
  obtain n where n: "find_index (\<lambda>c. c = NUL) ?buf = Some n"
    using assms(5) by (cases "find_index (\<lambda>c. c = NUL) ?buf") auto
  have "n < length ?buf" "?buf ! n = NUL" using find_index_SomeD [OF n] by auto
  then have "\<not> n < length (packet_text p)"
    using facts(6) by (metis nth_append nth_mem)
  then have "unpack_message alloc ?m ?buf n =
      Inr (length (packet_frame p), msg_of p (text_len p) (packet_crc p))"
    using unpack_packet [OF assms(1,2), where junk = "[]" and buf = ?buf and len = n and msg = ?m and
        rest = "CRLF @ drop (length (packet_text p)) buf"]
      \<open>n < length ?buf\<close> facts(1,2) by (simp add: packet_text_def)
  then show ?thesis
    using assms(2-4) enc m n fits wf(4)
    by (simp add: pack_message_def Let_def print c_strlen_def)
qed

section \<open>The receiver\<close>

text \<open>A receiver of the line: the next valid message in what has arrived, and what is left behind it.\<close>

definition blank_msg :: unpacked_msg where
  "blank_msg = \<lparr>um_valid = False, um_input_port = 0, um_output_port = 0, um_protocol = MSG_PROTOCOL_UNKNOWN,
     um_len = 0, um_data = None, um_crc = 0\<rparr>"

definition next_packet :: "(nat \<Rightarrow> bool) \<Rightarrow> string \<Rightarrow> (packet \<times> string) option" where
  "next_packet alloc s =
     (case unpack_message alloc blank_msg s (length s) of
        Inl _ \<Rightarrow> None
      | Inr (n, msg) \<Rightarrow>
          (case um_data msg of
             None \<Rightarrow> None
           | Some d \<Rightarrow>
               if um_valid msg
               then Some (\<lparr>pm_protocol = um_protocol msg, pm_input_port = um_input_port msg,
                           pm_output_port = um_output_port msg, pm_data = d\<rparr>, drop n s)
               else None))"

lemma next_packet_frame:
  assumes "wf_packet p" "START_OF_HEADER \<notin> set junk"
  shows "next_packet (\<lambda>_. True) (junk @ packet_frame p @ rest) = Some (p, rest)"
  using unpack_packet [OF assms(1) _ assms(2) refl, where alloc = "\<lambda>_. True" and rest = rest and msg = blank_msg and
      len = "length (junk @ packet_frame p @ rest)"]
  by (simp add: next_packet_def msg_of_def)

interpretation text_frames: framing wf_packet packet_frame "next_packet (\<lambda>_. True)" "\<lambda>j. START_OF_HEADER \<notin> set j"
  by unfold_locales (rule next_packet_frame)

section \<open>Any input\<close>

text \<open>What it takes for a message to be valid: the length and the checksum it states are those it has.\<close>

definition accepted :: "string \<Rightarrow> nat \<Rightarrow> nat \<Rightarrow> nat \<Rightarrow> unpacked_msg \<Rightarrow> bool" where
  "accepted buf soh stx etx msg \<longleftrightarrow>
     um_protocol msg \<in> {MSG_PROTOCOL_UDP, MSG_PROTOCOL_TCP} \<and> um_len msg = etx - stx - 9 \<and>
     extract_hexword (drop (stx + 1) buf) = Inr (Some (etx - stx - 9)) \<and>
     extract_hexword (drop (etx - 4) buf) = Inr (Some (unat (crc16 (take (etx - soh - 4) (drop soh buf)))))"

text \<open>The result of scanning the fields: a message that is valid only when accepted, unless one of the characters is
  negative.\<close>

definition scans :: "string \<Rightarrow> nat \<Rightarrow> nat \<Rightarrow> nat \<Rightarrow> (nat \<times> unpacked_msg) c_result \<Rightarrow> bool" where
  "scans buf soh stx etx r \<longleftrightarrow>
     (\<exists>msg'. r = Inr (etx + 1, msg') \<and> (um_valid msg' \<longrightarrow> accepted buf soh stx etx msg')) \<or>
     r = Inl Negative_character \<and> \<not> list_all ascii (between soh etx buf)"

lemma scans_with_hexword:
  assumes "soh \<le> i" "i + 4 \<le> etx" "etx \<le> length buf" "\<not> um_valid msg"
    "\<And>v. extract_hexword (drop i buf) = Inr (Some v) \<Longrightarrow> scans buf soh stx etx (f v)"
  shows "scans buf soh stx etx (with_hexword (drop i buf) (etx + 1, msg) f)"
proof (cases rule: extract_hexword_at [OF assms(1-3)])
  case (1 v)
  then show ?thesis using assms(4,5) by (cases v) (auto simp: with_hexword_def scans_def)
next
  case 2
  then show ?thesis by (simp add: with_hexword_def scans_def)
qed

lemma unpack_payload_total:
  assumes "soh \<le> stx" "stx + 13 \<le> etx" "etx < length buf" "\<not> um_valid msg"
    "um_protocol msg \<in> {MSG_PROTOCOL_UDP, MSG_PROTOCOL_TCP}"
  shows "scans buf soh stx etx (unpack_payload alloc msg buf soh stx etx)"
proof -
  have "etx - stx - 9 \<le> length (drop (stx + 5) buf)" using assms(2,3) by simp
  then obtain data where dec: "base64_decode alloc (drop (stx + 5) buf) (etx - stx - 9) = Inr data"
    using base64_decode_safe by blast
  have no: "scans buf soh stx etx (Inr (etx + 1, msg))" using assms(4) by (simp add: scans_def)
  show ?thesis
    unfolding unpack_payload_def
  proof (rule scans_with_hexword)
    fix dlen
    assume dlen: "extract_hexword (drop (stx + 1) buf) = Inr (Some dlen)"
    show "scans buf soh stx etx (if etx - stx - 9 \<noteq> dlen then Inr (etx + 1, msg)
       else with_hexword (drop (etx - 4) buf) (etx + 1, msg) (\<lambda>crc_expected.
         let crc_measured = crc16 (take (etx - soh - 4) (drop soh buf))
         in if crc_expected \<noteq> unat crc_measured then Inr (etx + 1, msg)
            else c_bind (base64_decode alloc (drop (stx + 5) buf) (etx - stx - 9)) (\<lambda>data.
              Inr (etx + 1, msg\<lparr>um_crc := of_nat crc_expected, um_len := dlen, um_data := data,
                                um_valid := True\<rparr>))))"
    proof (cases "etx - stx - 9 = dlen")
      case True
      then have "scans buf soh stx etx (with_hexword (drop (etx - 4) buf) (etx + 1, msg) (\<lambda>crc_expected.
         let crc_measured = crc16 (take (etx - soh - 4) (drop soh buf))
         in if crc_expected \<noteq> unat crc_measured then Inr (etx + 1, msg)
            else c_bind (base64_decode alloc (drop (stx + 5) buf) (etx - stx - 9)) (\<lambda>data.
              Inr (etx + 1, msg\<lparr>um_crc := of_nat crc_expected, um_len := dlen, um_data := data,
                                um_valid := True\<rparr>))))"
        using dlen dec assms no by (intro scans_with_hexword) (auto simp: Let_def scans_def accepted_def)
      then show ?thesis using True by simp
    qed (use no in simp)
  qed (use assms in simp_all)
qed

lemma unpack_fields_total:
  assumes "stx = soh + 10" "stx + 13 \<le> etx" "etx < length buf" "\<not> um_valid msg"
  shows "scans buf soh stx etx (unpack_fields alloc msg buf soh stx etx)"
proof (cases "buf ! (soh + 1) \<in> {MSG_PROTOCOL_UDP, MSG_PROTOCOL_TCP}")
  case True
  have "scans buf soh stx etx (with_hexword (drop (soh + 2) buf) (etx + 1, msg\<lparr>um_protocol := buf ! (soh + 1)\<rparr>) (\<lambda>iport.
      let msg = msg\<lparr>um_protocol := buf ! (soh + 1), um_input_port := of_nat iport\<rparr>
      in with_hexword (drop (soh + 6) buf) (etx + 1, msg) (\<lambda>oport.
           let msg = msg\<lparr>um_output_port := of_nat oport\<rparr> in unpack_payload alloc msg buf soh stx etx)))"
    unfolding Let_def
    by (intro scans_with_hexword unpack_payload_total) (use assms True in simp_all)
  then show ?thesis using True by (auto simp: unpack_fields_def Let_def)
qed (use assms(4) in \<open>simp add: unpack_fields_def Let_def scans_def\<close>)

lemma unpack_message_cases:
  assumes "0 < len" "len \<le> length buf"
  obtains msg' where "unpack_message alloc msg buf len = Inr (len, msg')" "\<not> um_valid msg'"
    "START_OF_HEADER \<notin> set (take len buf)"
  | soh n msg' where "unpack_message alloc msg buf len = Inr (n, msg')" "\<not> um_valid msg'" "soh < len"
      "buf ! soh = START_OF_HEADER" "START_OF_HEADER \<notin> set (take soh buf)"
      "n = (if len - soh + 1 > PACKED_MSG_MAX_LEN then len + 1 else soh)"
      "scan_for END_OF_TEXT buf (soh + 1) len = len"
  | soh etx msg' where "unpack_message alloc msg buf len = Inr (etx + 1, msg')" "soh < etx" "etx < len"
      "soh = scan_for START_OF_HEADER buf 0 len" "etx = scan_for END_OF_TEXT buf (soh + 1) len"
      "um_valid msg' \<longrightarrow> scan_for START_OF_TEXT buf soh etx = soh + 10 \<and> soh + 23 \<le> etx \<and>
         accepted buf soh (soh + 10) etx msg'"
  | soh etx where "unpack_message alloc msg buf len = Inl Negative_character" "soh < etx" "etx < len"
      "soh = scan_for START_OF_HEADER buf 0 len" "etx = scan_for END_OF_TEXT buf (soh + 1) len"
      "\<not> list_all ascii (between soh etx buf)"
proof -
  define soh where "soh = scan_for START_OF_HEADER buf 0 len"
  define etx where "etx = scan_for END_OF_TEXT buf (Suc soh) len"
  have soh: "soh \<le> len" "soh < len \<Longrightarrow> buf ! soh = START_OF_HEADER"
    "\<And>j. j < soh \<Longrightarrow> buf ! j \<noteq> START_OF_HEADER"
    using scan_for_bounds [where i = 0 and limit = len and c = START_OF_HEADER] assms(2) by (auto simp: soh_def)
  have before: "START_OF_HEADER \<notin> set (take soh buf)"
    using soh(1,3) assms(2) by (auto simp: in_set_conv_nth)
  have "etx \<le> len" if "soh < len"
    unfolding etx_def using that assms(2) by (intro scan_for_bounds(2)) simp_all
  then consider "soh = len" | "soh < len" "etx = len" | "soh < len" "etx < len"
    using soh(1) by linarith
  then show thesis
  proof cases
    case 1
    then show thesis
      using assms before by (intro that(1)) (auto simp: unpack_message_def Let_def simp flip: soh_def)
  next
    case 2
    then have "unpack_message alloc msg buf len =
        Inr (if len - soh + 1 > PACKED_MSG_MAX_LEN then len + 1 else soh, msg\<lparr>um_valid := False\<rparr>)"
      using assms by (simp add: unpack_message_def Let_def flip: soh_def etx_def)
    moreover have "scan_for END_OF_TEXT buf (soh + 1) len = len" using 2(2) etx_def by simp
    ultimately show thesis using that(2) 2(1) soh(2) before by simp
  next
    case 3
    have "soh + 1 \<le> etx" using scan_for_bounds(1) [where i = "Suc soh" and c = END_OF_TEXT] 3 assms(2) etx_def by simp
    then have se: "soh < etx" by simp
    define stx where "stx = scan_for START_OF_TEXT buf soh etx"
    let ?msg = "msg\<lparr>um_valid := False\<rparr>"
    show thesis
    proof (cases "soh + 23 \<le> etx \<and> stx \<noteq> etx \<and> stx - soh = 10")
      case True
      then have stx: "stx = soh + 10" by linarith
      have "stx + 13 \<le> etx" "etx < length buf" using True 3 stx assms(2) by simp_all
      from unpack_fields_total [OF stx this, of ?msg alloc]
      have f: "scans buf soh stx etx (unpack_fields alloc ?msg buf soh stx etx)" by simp
      have m: "unpack_message alloc msg buf len = unpack_fields alloc ?msg buf soh stx etx"
        using True 3 assms
        by (auto simp: unpack_message_def Let_def frame_lens simp flip: soh_def etx_def stx_def)
      have etx: "etx = scan_for END_OF_TEXT buf (soh + 1) len" by (simp add: etx_def)
      from f consider msg' where "unpack_fields alloc ?msg buf soh stx etx = Inr (etx + 1, msg')"
          "um_valid msg' \<longrightarrow> accepted buf soh stx etx msg'"
        | "unpack_fields alloc ?msg buf soh stx etx = Inl Negative_character" "\<not> list_all ascii (between soh etx buf)"
        unfolding scans_def by blast
      then show thesis
      proof cases
        case (1 msg')
        show thesis by (rule that(3) [OF _ se 3(2) soh_def etx]) (use 1 m True stx stx_def in auto)
      next
        case 2
        show thesis by (rule that(4) [OF _ se 3(2) soh_def etx]) (use 2 m in simp_all)
      qed
    next
      case False
      then have "unpack_message alloc msg buf len = Inr (etx + 1, ?msg)"
        using 3 assms se
        by (auto simp: unpack_message_def Let_def frame_lens simp flip: soh_def etx_def stx_def)
      then show thesis using se 3(2) soh_def etx_def by (intro that(3)) auto
    qed
  qed
qed

text \<open>C29: Scanning is total.  On any buffer with at least one character, all of them 7-bit characters, the scanner
  returns and never reads outside the characters it was given.  A valid message ends with the last character reported as
  processed and has a known protocol and at most 65535 characters of payload.  Nothing is reported as
  processed exactly when a message has begun at the front that is not complete and not yet too long; and
  only for a text that is too long to be a message does the count exceed the characters there are, by
  one.  Other characters are left out because they are negative and \<open>isxdigit\<close> is undefined for them.\<close>

theorem unpack_message_total:
  assumes "0 < len" "len \<le> length buf" "list_all ascii (take len buf)"
  shows "\<exists>n msg'. unpack_message alloc msg buf len = Inr (n, msg') \<and>
    (n \<le> len \<or> n = len + 1 \<and> \<not> um_valid msg' \<and> PACKED_MSG_MAX_LEN \<le> len) \<and>
    (um_valid msg' \<longrightarrow> 24 \<le> n \<and> n \<le> len \<and> buf ! (n - 1) = END_OF_TEXT \<and> um_len msg' + 20 \<le> n \<and>
       um_protocol msg' \<in> {MSG_PROTOCOL_UDP, MSG_PROTOCOL_TCP} \<and> um_len msg' < 65536) \<and>
    (n = 0 \<longleftrightarrow> buf ! 0 = START_OF_HEADER \<and> END_OF_TEXT \<notin> set (take len buf) \<and> len < PACKED_MSG_MAX_LEN)"
proof (cases rule: unpack_message_cases [OF assms(1,2), of alloc msg])
  case (1 msg')
  have "buf ! 0 \<in> set (take len buf)" using assms(1,2) by (metis length_take min.absorb2 nth_mem nth_take)
  then show ?thesis using 1 assms(1) by auto
next
  case (2 soh n msg')
  have "buf ! 0 \<in> set (take soh buf)" if "soh \<noteq> 0"
    using that 2(3) assms(2) by (metis gr0I length_take less_imp_le_nat min.absorb2 nth_mem nth_take order_trans)
  then have first: "soh = 0 \<longleftrightarrow> buf ! 0 = START_OF_HEADER" using 2(4,5) by metis
  have "END_OF_TEXT \<notin> set (take len buf)" if "soh = 0"
  proof
    assume "END_OF_TEXT \<in> set (take len buf)"
    then obtain j where "j < len" "buf ! j = END_OF_TEXT" by (auto simp: in_set_conv_nth)
    moreover have "j \<noteq> 0" using calculation 2(4) that by (intro notI) (simp add: frame_chars)
    ultimately show False
      using scan_for_bounds(4) [of "soh + 1" len buf j END_OF_TEXT] 2(3,7) assms(2) that by simp
  qed
  then show ?thesis using 2(1-3,6) first by (auto simp: frame_lens)
next
  case (3 soh etx msg')
  have etx: "buf ! etx = END_OF_TEXT"
    using scan_for_bounds(3) [of "soh + 1" len buf END_OF_TEXT] 3(2,3,5) assms(2) by simp
  then have "END_OF_TEXT \<in> set (take len buf)"
    using 3(3) assms(2) by (metis length_take min.absorb2 nth_mem nth_take)
  moreover have "um_len msg' < 65536" if "um_valid msg'"
  proof -
    have acc: "accepted buf soh (soh + 10) etx msg'" "soh + 23 \<le> etx" using 3(6) that by auto
    then have "4 \<le> length (drop (soh + 10 + 1) buf)" using 3(3) assms(2) by simp
    from extract_hexword_total [OF this] acc(1) show ?thesis unfolding accepted_def by (metis Inl_Inr_False Inr_inject)
  qed
  ultimately show ?thesis using 3 etx by (auto simp: accepted_def)
next
  case (4 soh etx)
  have "set (between soh etx buf) \<subseteq> set (take len buf)"
    using 4(3) by (metis drop_take less_imp_le_nat set_drop_subset set_take_subset_set_take subset_trans)
  then show ?thesis using 4(6) assms(3) by (auto simp: list_all_iff)
qed

theorem unpack_message_total_witness:
  "\<exists>n msg'. unpack_message (\<lambda>_. True) (msg_of undefined 0 0) ''xy[U12'' (length ''xy[U12'') = Inr (n, msg') \<and>
     n \<le> length ''xy[U12'' \<and> \<not> um_valid msg'"
proof -
  obtain n msg' where "unpack_message (\<lambda>_. True) (msg_of undefined 0 0) ''xy[U12'' (length ''xy[U12'') = Inr (n, msg')"
    "n \<le> length ''xy[U12'' \<or> PACKED_MSG_MAX_LEN \<le> length ''xy[U12''"
    "um_valid msg' \<longrightarrow> 24 \<le> n \<and> n \<le> length ''xy[U12''"
    using unpack_message_total [of "length ''xy[U12''" "''xy[U12''" "\<lambda>_. True" "msg_of undefined 0 0"] by auto
  then show ?thesis by (auto simp: frame_lens)
qed

text \<open>C10: A message survives the line.  \<open>pack_message\<close> prints a packet of 1 to 49149 bytes into a buffer
  with room for it, without overrunning its scratch buffers, when memory can be allocated and the buffer holds a null
  character behind the text: the copy writes none, and without one the scan of the printed text would run past the
  buffer.  Wherever that text stands in what arrives,
  behind characters other than an opening bracket and before anything, \<open>unpack_message\<close> gives back the
  protocol, the ports and the data, and reports the frame without its line end as processed.  The length
  it stores is not that of the data but that of the base64 text.\<close>

theorem pktmsg_roundtrip:
  assumes "wf_packet p" "\<And>n. alloc n" "text_len p + 22 < len" "len \<le> length buf" "NUL \<in> set (drop (text_len p + 22) buf)"
    "START_OF_HEADER \<notin> set junk" "k \<le> length rest"
  shows "\<exists>packed msg'. pack_message alloc (msg_of p (length (pm_data p)) crc) buf len =
      Inr (length packed, msg', packed @ drop (length packed) buf) \<and>
    length packed = text_len p + 22 \<and>
    unpack_message alloc msg (junk @ packed @ rest) (length junk + length packed + k) =
      Inr (length junk + length packed - 2, msg_of p (text_len p) (packet_crc p))"
proof -
  note facts = packet_frame_facts [OF assms(1)]
  let ?t = "packet_text p"
  have "pack_message alloc (msg_of p (length (pm_data p)) crc) buf len =
      Inr (length ?t, msg_of p (text_len p) (packet_crc p), ?t @ drop (length ?t) buf)"
    using pack_packet [OF assms(1,2), where buf = buf and len = len and crc = crc and extra = "[]"]
      assms(3-5) facts(2) by (simp add: msg_of_def)
  moreover have "unpack_message alloc msg (junk @ ?t @ rest) (length junk + length ?t + k) =
      Inr (length junk + length ?t - 2, msg_of p (text_len p) (packet_crc p))"
    using unpack_packet [OF assms(1,2,6), where buf = "junk @ ?t @ rest" and len = "length junk + length ?t + k"
        and rest = "CRLF @ rest" and msg = msg] facts(1,2) assms(7)
    by (simp add: packet_text_def)
  ultimately show ?thesis using facts(2) by (intro exI [of _ ?t]) simp
qed

theorem pktmsg_roundtrip_witness:
  "\<exists>p packed. pm_data p = [0x41, 0x42, 0x43] \<and> length packed = 26 \<and>
     unpack_message (\<lambda>_. True) (msg_of p 0 0) (''xy'' @ packed @ ''['') (length ''xy'' + length packed + 1) =
       Inr (length ''xy'' + length packed - 2, msg_of p (text_len p) (packet_crc p))"
proof -
  let ?p = "\<lparr>pm_protocol = CHR ''U'', pm_input_port = 0xabcd, pm_output_port = 0x10, pm_data = [0x41, 0x42, 0x43]\<rparr>"
  have "wf_packet ?p" "text_len ?p = 4" by (simp_all add: wf_packet_def MSG_PROTOCOL_UDP_def text_len_def)
  then show ?thesis
    using pktmsg_roundtrip [of ?p "\<lambda>_. True" 100 "replicate 50 (CHR ''a'') @ replicate 50 NUL" "''xy''" 1 "''[''" 0 "msg_of ?p 0 0"]
    by (intro exI [of _ ?p]) (auto simp: frame_chars)
qed

section \<open>Damage\<close>

text \<open>A frame with one character changed in the part that the checksum covers: where the scanner finds its
  delimiters, if it accepts anything.\<close>

lemma damaged_frame:
  assumes "wf_packet p" "i < text_len p + 15"
  defines "h \<equiv> msg_head (pm_protocol p) (pm_input_port p) (pm_output_port p) (encode64 (pm_data p))"
  shows "(packet_frame p)[i := c] = h[i := c] @ hex04 (unat (crc16 h)) @ [END_OF_TEXT]"
    "length (h[i := c]) = text_len p + 15"
    "0 < j \<Longrightarrow> j < text_len p + 19 \<Longrightarrow> j \<noteq> i \<Longrightarrow> (packet_frame p)[i := c] ! j \<notin> {START_OF_HEADER, END_OF_TEXT}"
    "15 \<le> i \<Longrightarrow> drop 11 ((packet_frame p)[i := c]) =
       hex04 (text_len p) @ drop 15 ((packet_frame p)[i := c])"
proof -
  note wf = wf_packetD [OF assms(1)]
  note plain = msg_head_plain [OF wf(1,2) encode64_plain]
  have f: "packet_frame p = h @ hex04 (unat (crc16 h)) @ [END_OF_TEXT]"
    by (simp add: packet_frame_def msg_frame_def h_def)
  have len: "length h = text_len p + 15" using length_msg_frame(1) [OF wf(2)] wf(5) by (simp add: h_def)
  show upd: "(packet_frame p)[i := c] = h[i := c] @ hex04 (unat (crc16 h)) @ [END_OF_TEXT]"
    and "length (h[i := c]) = text_len p + 15"
    using assms(2) len by (simp_all add: f list_update_append)
  have "packet_frame p = START_OF_HEADER # tl (packet_frame p)" by (rule packet_frame_facts(3) [OF assms(1)])
  then have "packet_frame p ! j = tl (packet_frame p) ! (j - 1)" if "0 < j" for j
    using that nth_Cons_pos by metis
  then have "packet_frame p ! j \<in> set (tl (packet_frame p))" if "0 < j" "j < text_len p + 20" for j
    using that packet_frame_facts(1) [OF assms(1)] by simp
  then have "packet_frame p ! j \<noteq> START_OF_HEADER" if "0 < j" "j < text_len p + 20" for j
    using packet_frame_facts(4) [OF assms(1)] that by metis
  moreover have "END_OF_TEXT \<notin> set (h @ hex04 (unat (crc16 h)))"
    using plain(1) u16_hex(2) [of "crc16 h"] plain_chars_not(2) by (auto simp: h_def)
  then have "packet_frame p ! j \<noteq> END_OF_TEXT" if "j < text_len p + 19" for j
    using that nth_mem [of j "h @ hex04 (unat (crc16 h))"] len
    by (auto simp: f u16_hex nth_append simp flip: append_assoc simp del: set_append)
  ultimately show "(packet_frame p)[i := c] ! j \<notin> {START_OF_HEADER, END_OF_TEXT}"
    if "0 < j" "j < text_len p + 19" "j \<noteq> i" using that by simp
  show "drop 11 ((packet_frame p)[i := c]) = hex04 (text_len p) @ drop 15 ((packet_frame p)[i := c])"
    if "15 \<le> i"
  proof -
    have "drop 11 (packet_frame p) = hex04 (text_len p) @ drop 15 (packet_frame p)"
      using hex04_text(1) [OF wf(2)] wf(5) by (simp add: f h_def msg_head_def u16_hex)
    moreover have "length (hex04 (text_len p)) = 4" using hex04_text(1) [OF wf(2)] wf(5) by simp
    moreover have "\<not> i - 11 < 4" using that by arith
    ultimately show ?thesis using that by (simp add: drop_update_swap list_update_append)
  qed
qed

lemma damaged_not_accepted:
  assumes "wf_packet p" "i < text_len p + 15" "c \<noteq> packet_frame p ! i"
    "buf = junk @ (packet_frame p)[i := c] @ rest" "soh = length junk" "soh + 23 \<le> etx"
    "buf ! etx = END_OF_TEXT" "etx \<le> soh + text_len p + 19"
  shows "\<not> accepted buf soh (soh + 10) etx msg"
proof
  assume acc: "accepted buf soh (soh + 10) etx msg"
  let ?h = "msg_head (pm_protocol p) (pm_input_port p) (pm_output_port p) (encode64 (pm_data p))"
  note d = damaged_frame [OF assms(1,2), where c = c]
  note wf = wf_packetD [OF assms(1)]
  have len: "length ((packet_frame p)[i := c]) = text_len p + 20" using packet_frame_facts(1) [OF assms(1)] by simp
  show False
  proof (cases "etx = soh + text_len p + 19")
    case True
    have "take (etx - soh - 4) (drop soh buf) = ?h[i := c]"
      "drop (etx - 4) buf = hex04 (unat (crc16 ?h)) @ [END_OF_TEXT] @ rest"
      using True assms(4,5) d(1,2) by simp_all
    then have "unat (crc16 (?h[i := c])) = unat (crc16 ?h)"
      using acc by (simp add: accepted_def extract_hex04 unat_u16)
    moreover have "c \<noteq> ?h ! i" "i < length ?h"
      using assms(2,3) d(2) by (simp_all add: packet_frame_def msg_frame_def nth_append)
    ultimately show False
      using crc16_single_error [of i ?h c] by (metis unsigned_word_eqI)
  next
    case False
    then have j: "etx - soh < text_len p + 19" "0 < etx - soh" using assms(6,8) by simp_all
    have "buf ! etx = (packet_frame p)[i := c] ! (etx - soh)"
      using assms(4-6) j(1) len by (simp add: nth_append)
    then have "etx - soh = i" using d(3) [OF j(2,1)] assms(7) by auto
    moreover have "drop (soh + 10 + 1) buf = hex04 (text_len p) @ drop 15 ((packet_frame p)[i := c]) @ rest"
      using d(4) calculation assms(4-6) len by simp
    ultimately show False
      using acc wf(2) assms(2,6) by (simp add: accepted_def wf(5) extract_hex04)
  qed
qed

lemma packet_frame_ascii: "wf_packet p \<Longrightarrow> list_all ascii (packet_frame p)"
proof -
  assume wf: "wf_packet p"
  have plain: "ascii c" if "c \<in> plain_chars" for c
    using that by (auto simp: plain_chars_def base64_table_def)
  have "ascii START_OF_HEADER" "ascii START_OF_TEXT" "ascii END_OF_TEXT" "ascii (pm_protocol p)"
    using wf by (auto simp: frame_chars wf_packet_def MSG_PROTOCOL_UDP_def MSG_PROTOCOL_TCP_def)
  moreover have "list_all ascii s" if "set s \<subseteq> plain_chars" for s using that plain by (auto simp: list_all_iff)
  ultimately show ?thesis
    using encode64_plain [of "pm_data p"] hex04_plain [OF wf_packetD(2) [OF wf]] u16_hex(2)
    by (simp add: packet_frame_def msg_frame_def msg_head_def)
qed

text \<open>C11: Damage is noticed.  When one character of the part of a message that the checksum covers, from
  the opening bracket to the end of the payload, arrives changed, whatever it is changed to, delimiters
  included, the scanner does not accept the message, nor anything else in that text; and it returns, unless the new
  character is not a 7-bit one, for which the scanner may call \<open>isxdigit\<close> where that is undefined.\<close>

theorem unpack_detects_damage:
  assumes "wf_packet p" "i < text_len p + 15" "c \<noteq> packet_frame p ! i"
    "START_OF_HEADER \<notin> set junk" "START_OF_HEADER \<notin> set rest"
    "buf = junk @ (packet_frame p)[i := c] @ rest"
  shows "(\<forall>n msg'. unpack_message alloc msg buf (length buf) = Inr (n, msg') \<longrightarrow> \<not> um_valid msg') \<and>
    (ascii c \<longrightarrow> (\<exists>n msg'. unpack_message alloc msg buf (length buf) = Inr (n, msg') \<and> \<not> um_valid msg'))"
proof -
  have len: "length ((packet_frame p)[i := c]) = text_len p + 20" using packet_frame_facts(1) [OF assms(1)] by simp
  have pos: "0 < length buf" using assms(6) len by (simp flip: length_greater_0_conv)
  have found: "soh = length junk" "etx \<le> soh + text_len p + 19" "buf ! etx = END_OF_TEXT"
    if "soh < etx" "etx < length buf" "soh = scan_for START_OF_HEADER buf 0 (length buf)"
      "etx = scan_for END_OF_TEXT buf (soh + 1) (length buf)" for soh etx
  proof -
    have soh: "buf ! soh = START_OF_HEADER" "\<And>j. j < soh \<Longrightarrow> buf ! j \<noteq> START_OF_HEADER"
      using scan_for_bounds(3,4) [of 0 "length buf" buf, where c = START_OF_HEADER] that(1-3) by auto
    show etx: "buf ! etx = END_OF_TEXT"
      using scan_for_bounds(3) [of "soh + 1" "length buf" buf, where c = END_OF_TEXT] that(1,2,4) by auto
    obtain t where t: "packet_frame p = START_OF_HEADER # t" "START_OF_HEADER \<notin> set t"
      using packet_frame_facts(3,4) [OF assms(1)] by blast
    have "START_OF_HEADER \<in> set buf" using nth_mem [of soh buf] soh(1) that(1,2) by simp
    then have "i \<noteq> 0" using t assms(3-6) by (cases i) auto
    then have "buf ! length junk = START_OF_HEADER" using t(1) assms(6) by (cases i) (simp_all add: nth_append)
    then have "\<not> length junk < soh" using soh(2) by blast
    moreover have "\<not> soh < length junk"
      using soh(1) assms(4,6) by (metis nth_append nth_mem)
    ultimately show at: "soh = length junk" by simp
    have "(packet_frame p)[i := c] ! (text_len p + 19) = END_OF_TEXT"
      using damaged_frame(1,2) [OF assms(1,2), where c = c] by (simp add: nth_append u16_hex)
    then have "buf ! (soh + text_len p + 19) = END_OF_TEXT" using at assms(6) len by (simp add: nth_append add.assoc)
    then show "etx \<le> soh + text_len p + 19"
      using scan_for_bounds(4) [of "soh + 1" "length buf" buf "soh + text_len p + 19" END_OF_TEXT] that(1,2,4) by fastforce
  qed
  show ?thesis
  proof (cases rule: unpack_message_cases [OF pos order_refl, of alloc msg])
    case (3 soh etx msg')
    note f = found [OF 3(2-5)]
    have "\<not> um_valid msg'" using damaged_not_accepted [OF assms(1-3,6) f(1) _ f(3,2)] 3(6) by blast
    then show ?thesis using 3(1) by simp
  next
    case (4 soh etx)
    note f = found [OF 4(2-5)]
    have "set (between soh etx buf) \<subseteq> set ((packet_frame p)[i := c])"
      using f(1,2) len assms(6) by (auto dest: in_set_takeD)
    moreover have "list_all ascii ((packet_frame p)[i := c])" if "ascii c"
      using that packet_frame_ascii [OF assms(1)] set_update_subset_insert by (fastforce simp: list_all_iff)
    ultimately have "\<not> ascii c" using 4(6) by (auto simp: list_all_iff)
    then show ?thesis using 4(1) by simp
  qed auto
qed

theorem unpack_detects_damage_witness:
  "\<exists>p n msg'. wf_packet p \<and> packet_frame p ! 1 = CHR ''U'' \<and>
     unpack_message (\<lambda>_. True) (msg_of p 0 0) (''xy'' @ (packet_frame p)[1 := CHR ''T''] @ CRLF)
       (length (''xy'' @ (packet_frame p)[1 := CHR ''T''] @ CRLF)) = Inr (n, msg') \<and> \<not> um_valid msg'"
proof -
  let ?p = "\<lparr>pm_protocol = CHR ''U'', pm_input_port = 0xabcd, pm_output_port = 0x10, pm_data = [0x41, 0x42, 0x43]\<rparr>"
  have wf: "wf_packet ?p" "text_len ?p = 4" by (simp_all add: wf_packet_def MSG_PROTOCOL_UDP_def text_len_def)
  have at: "packet_frame ?p ! 1 = CHR ''U''"
    by (simp add: packet_frame_def msg_frame_def msg_head_def)
  show ?thesis
    using unpack_detects_damage [of ?p 1 "CHR ''T''" "''xy''" CRLF _ "\<lambda>_. True" "msg_of ?p 0 0"] wf at
    by (intro exI [of _ ?p]) (simp add: START_OF_HEADER_def CRLF_def)
qed

end
