(* ===== verification/Pkt_queue.thy ===== *)
theory Pkt_queue
  imports Msg_parser Serial_c
begin

text \<open>
  The packet queue of the C program, \<^verbatim>\<open>udptoserial/queue.c\<close>: a doubly linked list of packets on the heap,
  and the sending of its first packet.  The heap is explicit: nodes and data blocks at addresses, and the
  pointers between them.  Loops that follow pointers may run forever on a cyclic list and are partial
  functions; that they end on every queue the program builds is proved.
\<close>

section \<open>The heap\<close>

datatype ptr = NULL | Addr nat | Unset

record pkt_queue =
  pq_timestamp :: int
  pq_source :: u16
  pq_dest :: u16
  pq_data :: ptr
  pq_len :: nat
  pq_next :: ptr
  pq_prev :: ptr

text \<open>Addresses are handed out in order and not used again, so that a freed address stays invalid.\<close>

record heap =
  nodes :: "nat \<rightharpoonup> pkt_queue"
  blocks :: "nat \<rightharpoonup> bytes"
  brk :: nat

definition deref :: "(nat \<rightharpoonup> 'a) \<Rightarrow> ptr \<Rightarrow> 'a c_result" where
  "deref m p =
     (case p of
        NULL \<Rightarrow> Inl Null_pointer
      | Unset \<Rightarrow> Inl Indeterminate_pointer
      | Addr a \<Rightarrow> (case m a of None \<Rightarrow> Inl Dangling_pointer | Some x \<Rightarrow> Inr x))"

definition node_size :: nat where "node_size = 48"

definition store_node :: "ptr \<Rightarrow> pkt_queue \<Rightarrow> heap \<Rightarrow> heap" where
  "store_node p n h = (case p of Addr a \<Rightarrow> h\<lparr>nodes := (nodes h)(a \<mapsto> n)\<rparr> | _ \<Rightarrow> h)"

text \<open>\<open>free\<close> of a block and of a node; a null pointer is ignored.\<close>

definition free_block :: "ptr \<Rightarrow> heap \<Rightarrow> heap c_result" where
  "free_block p h =
     (case p of
        NULL \<Rightarrow> Inr h
      | Unset \<Rightarrow> Inl Indeterminate_pointer
      | Addr a \<Rightarrow> if blocks h a = None then Inl Dangling_pointer else Inr (h\<lparr>blocks := (blocks h)(a := None)\<rparr>))"

definition free_node :: "ptr \<Rightarrow> heap \<Rightarrow> heap c_result" where
  "free_node p h =
     (case p of
        NULL \<Rightarrow> Inr h
      | Unset \<Rightarrow> Inl Indeterminate_pointer
      | Addr a \<Rightarrow> if nodes h a = None then Inl Dangling_pointer else Inr (h\<lparr>nodes := (nodes h)(a := None)\<rparr>))"

section \<open>Time\<close>

text \<open>\<open>get_time_now_usec\<close>, from the seconds and microseconds of the clock, if it can be read.  The operations
  that call it take its result as an argument.\<close>

definition get_time_now_usec :: "(int \<times> int) option \<Rightarrow> int" where
  "get_time_now_usec tval = (case tval of None \<Rightarrow> - 1 | Some (sec, usec) \<Rightarrow> sec * 1000000 + usec)"

section \<open>Appending\<close>

partial_function (option) last_loop :: "heap \<Rightarrow> ptr \<Rightarrow> ptr c_run" where
  "last_loop h queue =
     (case deref (nodes h) queue of
        Inl e \<Rightarrow> Some (Inl e)
      | Inr n \<Rightarrow> if pq_next n \<noteq> NULL then last_loop h (pq_next n) else Some (Inr queue))"

definition pkt_queue_last :: "heap \<Rightarrow> ptr \<Rightarrow> ptr c_run" where
  "pkt_queue_last h queue = (if queue = NULL then Some (Inr NULL) else last_loop h queue)"

text \<open>The new node and its block, the pointers still to be set.  Neither allocation is checked.\<close>

definition new_packet ::
    "(nat \<Rightarrow> bool) \<Rightarrow> int \<Rightarrow> u16 \<Rightarrow> u16 \<Rightarrow> bytes \<Rightarrow> nat \<Rightarrow> heap \<Rightarrow> (ptr \<times> pkt_queue \<times> heap) c_result" where
  "new_packet alloc now src dst payload n h =
     (if \<not> alloc node_size \<or> \<not> alloc (n + 1) then Inl Null_pointer
      else if length payload < n then Inl Out_of_bounds
      else
        Inr (Addr (brk h),
             \<lparr>pq_timestamp = now, pq_source = src, pq_dest = dst, pq_data = Addr (brk h + 1), pq_len = n, pq_next = NULL, pq_prev = Unset\<rparr>,
             h\<lparr>blocks := (blocks h)(brk h + 1 \<mapsto> take n payload @ [0]), brk := brk h + 2\<rparr>))"

definition pkt_queue_append ::
    "(nat \<Rightarrow> bool) \<Rightarrow> int \<Rightarrow> heap \<Rightarrow> ptr \<Rightarrow> u16 \<Rightarrow> u16 \<Rightarrow> bytes \<Rightarrow> nat \<Rightarrow> (heap \<times> ptr) c_run" where
  "pkt_queue_append alloc now h queue src dst payload n =
     (case new_packet alloc now src dst payload n h of
        Inl e \<Rightarrow> Some (Inl e)
      | Inr (new, node, h) \<Rightarrow>
          if queue \<noteq> NULL then
            (case pkt_queue_last (store_node new node h) queue of
               None \<Rightarrow> None
             | Some r \<Rightarrow>
                 Some (c_bind r (\<lambda>last.
                   let h = store_node new node h
                   in c_bind (deref (nodes h) last) (\<lambda>l.
                      Inr (store_node new (node\<lparr>pq_prev := last\<rparr>) (store_node last (l\<lparr>pq_next := new\<rparr>) h), queue)))))
          else Some (Inr (store_node new (node\<lparr>pq_prev := NULL\<rparr>) h, new)))"

text \<open>The data pointer of the new node is not set when the payload is copied to it.\<close>

definition pkt_queue_prepend ::
    "(nat \<Rightarrow> bool) \<Rightarrow> int \<Rightarrow> heap \<Rightarrow> ptr \<Rightarrow> u16 \<Rightarrow> u16 \<Rightarrow> bytes \<Rightarrow> nat \<Rightarrow> (heap \<times> ptr) c_result" where
  "pkt_queue_prepend alloc now h queue src dst payload n =
     (if \<not> alloc node_size then Inl Null_pointer
      else
        (let new = Addr (brk h);
             node = \<lparr>pq_timestamp = now, pq_source = src, pq_dest = dst, pq_data = Unset, pq_len = n, pq_next = queue, pq_prev = Unset\<rparr>
         in c_bind (deref (blocks h) (pq_data node)) (\<lambda>block.
            if length block < n \<or> length payload < n then Inl Out_of_bounds
            else
              (let h = store_node new node (h\<lparr>brk := brk h + 1\<rparr>)
               in if queue \<noteq> NULL then
                    c_bind (deref (nodes h) queue) (\<lambda>q. Inr (store_node queue (q\<lparr>pq_prev := new\<rparr>) h, new))
                  else Inr (store_node new (node\<lparr>pq_prev := NULL\<rparr>) h, new)))))"

section \<open>Counting\<close>

text \<open>Both loops go on while there is no next node, and then follow the null pointer.\<close>

function length_loop :: "heap \<Rightarrow> ptr \<Rightarrow> nat \<Rightarrow> nat c_result" where
  "length_loop h queue i =
     (case deref (nodes h) queue of
        Inl e \<Rightarrow> Inl e
      | Inr n \<Rightarrow> if pq_next n = NULL then length_loop h (pq_next n) (i + 1) else Inr i)"
  by pat_completeness auto
termination
  by (relation "measure (\<lambda>(h, queue, i). if queue = NULL then 0 else 1)") (auto simp: deref_def split: ptr.splits)

definition pkt_queue_length :: "heap \<Rightarrow> ptr \<Rightarrow> nat c_result" where
  "pkt_queue_length h queue = (if queue = NULL then Inr 0 else length_loop h queue 1)"

function size_loop :: "heap \<Rightarrow> ptr \<Rightarrow> nat \<Rightarrow> nat c_result" where
  "size_loop h queue siz =
     (case deref (nodes h) queue of
        Inl e \<Rightarrow> Inl e
      | Inr n \<Rightarrow>
          if pq_next n = NULL then
            (case deref (nodes h) (pq_next n) of
               Inl e \<Rightarrow> Inl e
             | Inr m \<Rightarrow> size_loop h (pq_next n) (siz + node_size + pq_len m))
          else Inr siz)"
  by pat_completeness auto
termination
  by (relation "measure (\<lambda>(h, queue, i). if queue = NULL then 0 else 1)") (auto simp: deref_def split: ptr.splits)

definition pkt_queue_size :: "heap \<Rightarrow> ptr \<Rightarrow> nat c_result" where
  "pkt_queue_size h queue =
     (if queue = NULL then Inr 0
      else c_bind (deref (nodes h) queue) (\<lambda>n. size_loop h queue (node_size + pq_len n)))"

section \<open>Removing\<close>

text \<open>The last node is not freed.\<close>

definition pkt_queue_remove_first :: "heap \<Rightarrow> ptr \<Rightarrow> (heap \<times> ptr) c_result" where
  "pkt_queue_remove_first h queue =
     (if queue = NULL then Inr (h, NULL)
      else
        c_bind (deref (nodes h) queue) (\<lambda>n.
        c_bind (free_block (pq_data n) h) (\<lambda>h.
        if pq_next n = NULL then Inr (h, NULL)
        else
          c_bind (deref (nodes h) (pq_next n)) (\<lambda>m.
          c_bind (free_node queue (store_node (pq_next n) (m\<lparr>pq_prev := NULL\<rparr>) h)) (\<lambda>h.
          Inr (h, pq_next n))))))"

partial_function (option) pkt_queue_free :: "heap \<Rightarrow> ptr \<Rightarrow> heap c_run" where
  "pkt_queue_free h queue =
     (case pkt_queue_remove_first h queue of
        Inl e \<Rightarrow> Some (Inl e)
      | Inr (h, queue) \<Rightarrow> if queue \<noteq> NULL then pkt_queue_free h queue else Some (Inr h))"

section \<open>Sending\<close>

definition pkt_estimated_string_length :: "pkt_queue \<Rightarrow> nat" where
  "pkt_estimated_string_length n = 4 + 4 + 4 + 2 + pq_len n * 4 div 3"

text \<open>Arithmetic on \<open>int64_t\<close>, whose overflow is undefined.\<close>

definition int64 :: "int \<Rightarrow> int c_result" where
  "int64 i = (if - (2 ^ 63) \<le> i \<and> i < 2 ^ 63 then Inr i else Inl Signed_overflow)"

definition throttled :: "int \<Rightarrow> pkt_queue \<Rightarrow> serial_port option \<Rightarrow> bool c_result" where
  "throttled time_now n port =
     (case port of
        None \<Rightarrow> Inr False
      | Some sp \<Rightarrow>
          c_bind (int64 (time_now - pq_timestamp n)) (\<lambda>d.
          c_bind (int64 (d * 1000000)) (\<lambda>d.
          c_bind (int64 (d * sp_baud_rate sp)) (\<lambda>d.
          Inr (d < int (pkt_estimated_string_length n))))))"

definition SENDBUF_SIZE :: nat where "SENDBUF_SIZE = 70000"

text \<open>The message that is packed: its block is the one the node points to.\<close>

definition send_msg :: "pkt_queue \<Rightarrow> bytes option \<Rightarrow> unpacked_msg" where
  "send_msg n block =
     \<lparr>um_valid = True, um_input_port = pq_source n, um_output_port = pq_dest n, um_protocol = MSG_PROTOCOL_UDP,
      um_len = pq_len n, um_data = block, um_crc = 0\<rparr>"

definition data_block :: "heap \<Rightarrow> ptr \<Rightarrow> bytes option c_result" where
  "data_block h p = (if p = NULL then Inr None else c_bind (deref (blocks h) p) (\<lambda>b. Inr (Some b)))"

record c_state =
  c_heap :: heap
  c_sendbuf :: string
  c_io :: io

definition pkt_queue_send ::
    "(nat \<Rightarrow> bool) \<Rightarrow> (string \<Rightarrow> int) \<Rightarrow> int \<Rightarrow> c_state \<Rightarrow> ptr \<Rightarrow> serial_port option \<Rightarrow> (c_state \<times> ptr) c_result" where
  "pkt_queue_send alloc wr time_now s queue port =
     (if queue = NULL then Inr (s, NULL)
      else
        c_bind (deref (nodes (c_heap s)) queue) (\<lambda>n.
        c_bind (throttled time_now n port) (\<lambda>delay.
        if delay then Inr (s, queue)
        else
          c_bind (data_block (c_heap s) (pq_data n)) (\<lambda>block.
          c_bind (pack_message alloc (send_msg n block) (c_sendbuf s) SENDBUF_SIZE) (\<lambda>(_, _, sendbuf).
          c_bind (c_strlen sendbuf) (\<lambda>l.
          c_bind (serial_port_send wr port sendbuf l (c_io s)) (\<lambda>io.
          c_bind (pkt_queue_remove_first (c_heap s) queue) (\<lambda>(h, queue).
          Inr (\<lparr>c_heap = h, c_sendbuf = sendbuf, c_io = io\<rparr>, queue)))))))))"

text \<open>Prepending is undefined, since there is no block to copy the payload to.\<close>

lemma prepend_undefined:
  "pkt_queue_prepend alloc now h queue src dst payload n =
     Inl (if alloc node_size then Indeterminate_pointer else Null_pointer)"
  by (simp add: pkt_queue_prepend_def deref_def)

section \<open>Queues\<close>

text \<open>The abstract queue is a list of items.  A queue on the heap is a chain of nodes, each with its
  neighbours' addresses and the block of its data behind its own address.\<close>

record item =
  it_time :: int
  it_source :: u16
  it_dest :: u16
  it_data :: bytes

type_synonym cells = "(nat \<times> item) list"

definition cell :: "item \<Rightarrow> nat \<Rightarrow> ptr \<Rightarrow> ptr \<Rightarrow> pkt_queue" where
  "cell x a nx pv =
     \<lparr>pq_timestamp = it_time x, pq_source = it_source x, pq_dest = it_dest x, pq_data = Addr (Suc a),
      pq_len = length (it_data x), pq_next = nx, pq_prev = pv\<rparr>"

definition first :: "cells \<Rightarrow> ptr \<Rightarrow> ptr" where
  "first cs t = (case cs of [] \<Rightarrow> t | (a, _) # _ \<Rightarrow> Addr a)"

fun final :: "ptr \<Rightarrow> cells \<Rightarrow> ptr" where
  "final p [] = p"
| "final p ((a, _) # cs) = final (Addr a) cs"

text \<open>The nodes of \<open>cs\<close> in a row, coming from \<open>p\<close> and leading to \<open>t\<close>.\<close>

fun chain :: "heap \<Rightarrow> ptr \<Rightarrow> cells \<Rightarrow> ptr \<Rightarrow> bool" where
  "chain h p [] t \<longleftrightarrow> True"
| "chain h p ((a, x) # cs) t \<longleftrightarrow>
     nodes h a = Some (cell x a (first cs t) p) \<and> blocks h (Suc a) = Some (it_data x @ [0]) \<and>
     chain h (Addr a) cs t"

definition fresh_above :: "heap \<Rightarrow> bool" where
  "fresh_above h \<longleftrightarrow> (\<forall>a \<ge> brk h. nodes h a = None \<and> blocks h a = None)"

definition queue_at :: "heap \<Rightarrow> ptr \<Rightarrow> cells \<Rightarrow> bool" where
  "queue_at h q cs \<longleftrightarrow>
     q = first cs NULL \<and> chain h NULL cs NULL \<and> distinct (map fst cs) \<and> fresh_above h"

lemma first_simps [simp]: "first [] t = t" "first ((a, x) # cs) t = Addr a"
  by (simp_all add: first_def)

lemma first_NULL [simp]: "first cs NULL = NULL \<longleftrightarrow> cs = []"
  by (cases cs) (auto simp: first_def)

lemma chain_append:
  "chain h p (cs @ ds) t \<longleftrightarrow> chain h p cs (first ds t) \<and> chain h (final p cs) ds t"
proof (induction h p cs t rule: chain.induct)
  case (2 h p a x cs t)
  have "first (cs @ ds) t = first cs (first ds t)" by (cases cs) auto
  then show ?case using 2 by auto
qed simp

lemma chain_cong:
  "(\<And>a. a \<in> fst ` set cs \<Longrightarrow> nodes h' a = nodes h a \<and> blocks h' (Suc a) = blocks h (Suc a)) \<Longrightarrow>
   chain h' p cs t = chain h p cs t"
  by (induction h p cs t rule: chain.induct) auto

lemma chain_below:
  assumes "chain h p cs t" "fresh_above h" "a \<in> fst ` set cs"
  shows "Suc a < brk h"
proof (rule ccontr)
  assume "\<not> Suc a < brk h"
  then have "blocks h (Suc a) = None" using assms(2) by (simp add: fresh_above_def)
  moreover have "blocks h (Suc a) \<noteq> None"
    using assms(1,3) by (induction h p cs t rule: chain.induct) auto
  ultimately show False by simp
qed

lemma deref_simps [simp]:
  "deref m NULL = Inl Null_pointer" "deref m Unset = Inl Indeterminate_pointer"
  "m a = Some x \<Longrightarrow> deref m (Addr a) = Inr x" "m a = None \<Longrightarrow> deref m (Addr a) = Inl Dangling_pointer"
  by (simp_all add: deref_def)

lemma store_node_simps [simp]:
  "nodes (store_node (Addr a) n h) = (nodes h)(a \<mapsto> n)" "blocks (store_node p n h) = blocks h"
  "brk (store_node p n h) = brk h"
  by (auto simp: store_node_def split: ptr.split)

lemma cell_simps [simp]:
  "pq_timestamp (cell x a nx pv) = it_time x" "pq_source (cell x a nx pv) = it_source x"
  "pq_dest (cell x a nx pv) = it_dest x" "pq_data (cell x a nx pv) = Addr (Suc a)"
  "pq_len (cell x a nx pv) = length (it_data x)" "pq_next (cell x a nx pv) = nx" "pq_prev (cell x a nx pv) = pv"
  "(cell x a nx pv)\<lparr>pq_next := t\<rparr> = cell x a t pv" "(cell x a nx pv)\<lparr>pq_prev := t\<rparr> = cell x a nx t"
  by (simp_all add: cell_def)

section \<open>The operations on queues\<close>

text \<open>The search for the last node ends at it.\<close>

lemma last_loop_chain:
  "chain h p (cs @ [(l, x)]) NULL \<Longrightarrow> last_loop h (first (cs @ [(l, x)]) NULL) = Some (Inr (Addr l))"
proof (induction cs arbitrary: p)
  case Nil
  then show ?case by (simp add: last_loop.simps)
next
  case (Cons c cs)
  obtain a y where c: "c = (a, y)" by (cases c)
  have "first (cs @ [(l, x)]) NULL \<noteq> NULL" by simp
  then show ?case using Cons.IH [of "Addr a"] Cons.prems c by (subst c, subst last_loop.simps) simp
qed

lemma queue_last: "queue_at h q (cs @ [(l, x)]) \<Longrightarrow> pkt_queue_last h q = Some (Inr (Addr l))"
  using last_loop_chain [of h NULL cs l x] by (simp add: queue_at_def pkt_queue_last_def)

text \<open>Appending puts a new cell at the end.\<close>

definition new_item :: "int \<Rightarrow> u16 \<Rightarrow> u16 \<Rightarrow> bytes \<Rightarrow> nat \<Rightarrow> item" where
  "new_item now src dst payload n = \<lparr>it_time = now, it_source = src, it_dest = dst, it_data = take n payload\<rparr>"

lemma new_packet_eq:
  assumes "\<And>n. alloc n" "n \<le> length payload"
  shows "new_packet alloc now src dst payload n h =
    Inr (Addr (brk h), cell (new_item now src dst payload n) (brk h) NULL Unset,
         h\<lparr>blocks := (blocks h)(Suc (brk h) \<mapsto> it_data (new_item now src dst payload n) @ [0]), brk := brk h + 2\<rparr>)"
  using assms by (simp add: new_packet_def cell_def new_item_def)

lemma append_queue:
  assumes "queue_at h q cs" "\<And>n. alloc n" "n \<le> length payload"
  shows "\<exists>h' q'. pkt_queue_append alloc now h q src dst payload n = Some (Inr (h', q')) \<and>
    queue_at h' q' (cs @ [(brk h, new_item now src dst payload n)])"
proof -
  let ?x = "new_item now src dst payload n" and ?b = "brk h"
  let ?h = "h\<lparr>blocks := (blocks h)(Suc ?b \<mapsto> it_data ?x @ [0]), brk := ?b + 2\<rparr>"
  have inv: "q = first cs NULL" "chain h NULL cs NULL" "distinct (map fst cs)" "fresh_above h"
    using assms(1) by (simp_all add: queue_at_def)
  have below: "Suc a < ?b" if "a \<in> fst ` set cs" for a using chain_below [OF inv(2,4) that] .
  have fresh: "nodes h a = None" "blocks h a = None" if "?b \<le> a" for a
    using inv(4) that by (simp_all add: fresh_above_def)
  show ?thesis
  proof (cases cs rule: rev_cases)
    case Nil
    have "queue_at (store_node (Addr ?b) (cell ?x ?b NULL NULL) ?h) (Addr ?b) [(?b, ?x)]"
      using fresh by (simp add: queue_at_def fresh_above_def)
    then show ?thesis
      using Nil inv(1) by (simp add: pkt_queue_append_def new_packet_eq [OF assms(2,3)])
  next
    case (snoc bs c)
    obtain l y where c: "c = (l, y)" by (cases c)
    have cs: "cs = bs @ [(l, y)]" using snoc c by simp
    let ?h1 = "store_node (Addr ?b) (cell ?x ?b NULL Unset) ?h"
    let ?h2 = "store_node (Addr ?b) (cell ?x ?b NULL (Addr l)) (store_node (Addr l) (cell y l (Addr ?b) (final NULL bs)) ?h1)"
    have l: "l < ?b" "l \<notin> fst ` set bs" "nodes h l = Some (cell y l NULL (final NULL bs))"
      "blocks h (Suc l) = Some (it_data y @ [0])" "chain h NULL bs (Addr l)"
      using below [of l] inv(2,3) cs by (auto simp: chain_append)
    have "chain ?h1 NULL cs NULL = chain h NULL cs NULL"
      using below by (intro chain_cong) fastforce
    then have "last_loop ?h1 q = Some (Inr (Addr l))"
      using last_loop_chain [of ?h1 NULL bs l y] inv(1,2) cs by simp
    then have "pkt_queue_append alloc now h q src dst payload n = Some (Inr (?h2, q))"
      using inv(1) cs l(1,3)
      by (simp add: pkt_queue_append_def new_packet_eq [OF assms(2,3)] pkt_queue_last_def)
    moreover have "chain ?h2 NULL bs (Addr l) = chain h NULL bs (Addr l)"
    proof (rule chain_cong)
      fix a assume a: "a \<in> fst ` set bs"
      then have "Suc a < ?b" "a \<noteq> l" using below l(2) cs by auto
      then show "nodes ?h2 a = nodes h a \<and> blocks ?h2 (Suc a) = blocks h (Suc a)" by simp
    qed
    moreover have "fresh_above ?h2" using fresh l(1) by (simp add: fresh_above_def)
    moreover have "distinct (map fst (cs @ [(?b, ?x)]))" using inv(3) below by fastforce
    moreover have "first (cs @ [(?b, ?x)]) NULL = q" using cs inv(1) by (cases bs) auto
    ultimately show ?thesis using l cs by (auto simp: queue_at_def chain_append)
  qed
qed

text \<open>Removing takes the first cell away and frees its block; it frees its node unless that is the only one.\<close>

lemma remove_first_queue:
  assumes "queue_at h q ((a, x) # cs)"
  defines "h' \<equiv> h\<lparr>blocks := (blocks h)(Suc a := None),
    nodes := (case cs of [] \<Rightarrow> nodes h | (b, y) # ds \<Rightarrow> (nodes h)(b \<mapsto> cell y b (first ds NULL) NULL, a := None))\<rparr>"
  shows "pkt_queue_remove_first h q = Inr (h', first cs NULL)" "queue_at h' (first cs NULL) cs"
proof -
  have inv: "q = Addr a" "nodes h a = Some (cell x a (first cs NULL) NULL)" "blocks h (Suc a) = Some (it_data x @ [0])"
    "chain h (Addr a) cs NULL" "a \<notin> fst ` set cs" "distinct (map fst cs)" "fresh_above h"
    using assms(1) by (simp_all add: queue_at_def)
  have below: "Suc b < brk h" if "b \<in> fst ` set cs" for b using chain_below [OF inv(4,7) that] .
  show "pkt_queue_remove_first h q = Inr (h', first cs NULL)"
    using inv by (auto simp: pkt_queue_remove_first_def free_block_def free_node_def h'_def store_node_def
        split: list.split)
  show "queue_at h' (first cs NULL) cs"
  proof (cases cs)
    case Nil
    then show ?thesis using inv(7) by (simp add: queue_at_def h'_def fresh_above_def)
  next
    case (Cons c ds)
    obtain b y where c: "c = (b, y)" by (cases c)
    have "chain h' (Addr b) ds NULL = chain h (Addr b) ds NULL"
      using inv(5,6) Cons c by (intro chain_cong) (auto simp: h'_def)
    moreover have "b < brk h" using below [of b] Cons c by simp
    ultimately show ?thesis
      using inv(4-7) Cons c by (auto simp: queue_at_def h'_def fresh_above_def)
  qed
qed

text \<open>Freeing a queue ends; every block is freed and every node but the last one.\<close>

lemma free_queue:
  assumes "queue_at h q cs"
  shows "\<exists>h'. pkt_queue_free h q = Some (Inr h') \<and>
    blocks h' = (\<lambda>a. if a \<in> Suc ` fst ` set cs then None else blocks h a) \<and>
    dom (nodes h') = dom (nodes h) - fst ` set (butlast cs)"
  using assms
proof (induction cs arbitrary: h q)
  case Nil
  then show ?case
    by (intro exI [of _ h]) (simp add: queue_at_def pkt_queue_free.simps [of h NULL] pkt_queue_remove_first_def)
next
  case (Cons c cs)
  obtain a x where c: "c = (a, x)" by (cases c)
  note r = remove_first_queue [OF Cons.prems [unfolded c]]
  have free: "pkt_queue_free h q = (if cs = [] then Some (Inr h') else pkt_queue_free h' (first cs NULL))"
    if "pkt_queue_remove_first h q = Inr (h', first cs NULL)" for h'
    using that by (simp add: pkt_queue_free.simps [of h q])
  show ?case
  proof (cases cs)
    case Nil
    then show ?thesis using free [OF r(1)] c by (auto intro!: exI)
  next
    case (Cons d ds)
    obtain b y where d: "d = (b, y)" by (cases d)
    define h1 where "h1 = h\<lparr>blocks := (blocks h)(Suc a := None),
      nodes := (nodes h)(b \<mapsto> cell y b (first ds NULL) NULL, a := None)\<rparr>"
    have r1: "pkt_queue_remove_first h q = Inr (h1, first cs NULL)" "queue_at h1 (first cs NULL) cs"
      using r Cons d by (simp_all add: h1_def)
    have "b \<in> dom (nodes h)" using Cons.prems c Cons d by (auto simp: queue_at_def)
    then have h1: "blocks h1 = (blocks h)(Suc a := None)" "dom (nodes h1) = dom (nodes h) - {a}"
      by (auto simp: h1_def split: if_splits)
    obtain h2 where h2: "pkt_queue_free h1 (first cs NULL) = Some (Inr h2)"
      "blocks h2 = (\<lambda>a. if a \<in> Suc ` fst ` set cs then None else blocks h1 a)"
      "dom (nodes h2) = dom (nodes h1) - fst ` set (butlast cs)"
      using Cons.IH [OF r1(2)] by blast
    have "pkt_queue_free h q = Some (Inr h2)" using free [OF r1(1)] h2(1) Cons by simp
    moreover have "blocks h2 = (\<lambda>a. if a \<in> Suc ` fst ` set (c # cs) then None else blocks h a)"
      unfolding h2(2) h1(1) c by auto
    moreover have "dom (nodes h2) = dom (nodes h) - fst ` set (butlast (c # cs))"
      unfolding h2(3) h1(2) using c Cons by auto
    ultimately show ?thesis by blast
  qed
qed

section \<open>The queue as a list\<close>

text \<open>The items of a queue, read along its pointers; an address below \<open>brk\<close> is met at most once.\<close>

fun walk :: "nat \<Rightarrow> heap \<Rightarrow> ptr \<Rightarrow> cells" where
  "walk 0 h p = []"
| "walk (Suc k) h p =
     (case p of
        Addr a \<Rightarrow>
          (case nodes h a of
             None \<Rightarrow> []
           | Some n \<Rightarrow>
               (a, \<lparr>it_time = pq_timestamp n, it_source = pq_source n, it_dest = pq_dest n,
                    it_data = (case blocks h (Suc a) of None \<Rightarrow> [] | Some b \<Rightarrow> take (pq_len n) b)\<rparr>) #
               walk k h (pq_next n))
      | _ \<Rightarrow> [])"

definition queue_cells :: "heap \<times> ptr \<Rightarrow> cells" where
  "queue_cells = (\<lambda>(h, q). walk (brk h) h q)"

definition queue_items :: "heap \<times> ptr \<Rightarrow> item list" where
  "queue_items s = map snd (queue_cells s)"

definition queue_inv :: "heap \<times> ptr \<Rightarrow> bool" where
  "queue_inv s \<longleftrightarrow> queue_at (fst s) (snd s) (queue_cells s)"

lemma walk_chain:
  "chain h p cs NULL \<Longrightarrow> length cs \<le> k \<Longrightarrow> walk k h (first cs NULL) = cs"
proof (induction cs arbitrary: p k)
  case Nil
  then show ?case by (cases k) simp_all
next
  case (Cons c cs)
  then show ?case by (cases k; cases c) auto
qed

lemma queue_cells_eq:
  assumes "queue_at h q cs"
  shows "queue_cells (h, q) = cs"
proof -
  have "fst ` set cs \<subseteq> {..<brk h}"
    using chain_below assms by (fastforce simp: queue_at_def)
  then have "card (fst ` set cs) \<le> brk h" using card_mono [of "{..<brk h}"] by fastforce
  moreover have "card (fst ` set cs) = length cs"
    using assms distinct_card [of "map fst cs"] by (simp add: queue_at_def)
  ultimately show ?thesis using walk_chain [of h NULL cs "brk h"] assms by (simp add: queue_cells_def queue_at_def)
qed

lemma queue_invI: "queue_at h q cs \<Longrightarrow> queue_inv (h, q) \<and> queue_items (h, q) = map snd cs"
  by (simp add: queue_inv_def queue_items_def queue_cells_eq)

text \<open>The operations as a client uses them: append an item and take the first one.\<close>

definition queue_push :: "item \<Rightarrow> heap \<times> ptr \<Rightarrow> heap \<times> ptr" where
  "queue_push x s =
     (case pkt_queue_append (\<lambda>_. True) (it_time x) (fst s) (snd s) (it_source x) (it_dest x) (it_data x)
        (length (it_data x)) of
        Some (Inr s') \<Rightarrow> s'
      | _ \<Rightarrow> s)"

definition queue_pop :: "heap \<times> ptr \<Rightarrow> (item \<times> heap \<times> ptr) option" where
  "queue_pop s =
     (case (queue_items s, pkt_queue_remove_first (fst s) (snd s)) of
        (x # _, Inr s') \<Rightarrow> Some (x, s')
      | _ \<Rightarrow> None)"

lemma queue_push_at:
  assumes "queue_at h q cs"
  shows "\<exists>h' q'. queue_push x (h, q) = (h', q') \<and> queue_at h' q' (cs @ [(brk h, x)])"
proof -
  have "new_item (it_time x) (it_source x) (it_dest x) (it_data x) (length (it_data x)) = x"
    by (simp add: new_item_def)
  then show ?thesis
    using append_queue [OF assms, of "\<lambda>_. True" "length (it_data x)" "it_data x" "it_time x" "it_source x" "it_dest x"]
    by (auto simp: queue_push_def)
qed

interpretation pkt_fifo: fifo queue_inv queue_push queue_pop queue_items
proof
  fix s :: "heap \<times> ptr" and x :: item and xs :: "item list"
  assume inv: "queue_inv s"
  obtain h q where s: "s = (h, q)" by (cases s)
  have at: "queue_at h q (queue_cells s)" using inv s by (simp add: queue_inv_def)
  obtain h' q' where p: "queue_push x s = (h', q')" "queue_at h' q' (queue_cells s @ [(brk h, x)])"
    using queue_push_at [OF at] s by metis
  from p queue_invI [OF p(2)] show "queue_inv (queue_push x s)" "queue_items (queue_push x s) = queue_items s @ [x]"
    by (simp_all add: queue_items_def)
  show "queue_pop s = None" if "queue_items s = []" using that by (simp add: queue_pop_def)
  show "\<exists>s'. queue_pop s = Some (x, s') \<and> queue_inv s' \<and> queue_items s' = xs" if items: "queue_items s = x # xs"
  proof -
    obtain a cs where cs: "queue_cells s = (a, x) # cs" "map snd cs = xs"
      using items by (auto simp: queue_items_def)
    note r = remove_first_queue [OF at [unfolded cs(1)]]
    show ?thesis using items queue_invI [OF r(2)] r(1) s cs(2) by (auto simp: queue_pop_def)
  qed
qed

section \<open>The queue is a queue\<close>

definition no_queue :: "heap \<times> ptr" where
  "no_queue = (\<lparr>nodes = Map.empty, blocks = Map.empty, brk = 1\<rparr>, NULL)"

lemma no_queue_inv: "queue_inv no_queue" "queue_items no_queue = []"
proof -
  have "queue_at (fst no_queue) (snd no_queue) []" by (simp add: no_queue_def queue_at_def fresh_above_def)
  then show "queue_inv no_queue" "queue_items no_queue = []"
    using queue_invI [of "fst no_queue" "snd no_queue"] by simp_all
qed

text \<open>C25: The packet queue is first in, first out.  Packets that are appended to a queue come out of it
  once each and in the order in which they were appended, behind the packets that were there, with their
  time, ports and data unchanged, and then the queue is empty.\<close>

theorem pkt_queue_fifo:
  assumes "queue_inv s"
  shows "fst (pops queue_pop (length (queue_items s) + length xs) (fold queue_push xs s)) = queue_items s @ xs \<and>
    queue_items (snd (pops queue_pop (length (queue_items s) + length xs) (fold queue_push xs s))) = []"
  using pkt_fifo.pops_pushes [OF assms] by blast

theorem pkt_queue_fifo_witness:
  "\<exists>x y. it_data x \<noteq> it_data y \<and>
     fst (pops queue_pop (0 + length [x, y]) (fold queue_push [x, y] no_queue)) = [x, y]"
proof -
  let ?x = "\<lparr>it_time = 5, it_source = 1, it_dest = 2, it_data = [0x41]\<rparr>"
  show ?thesis
    using pkt_queue_fifo [OF no_queue_inv(1), of "[?x, ?x\<lparr>it_data := []\<rparr>]"]
    by (intro exI [of _ ?x] exI [of _ "?x\<lparr>it_data := []\<rparr>"]) (simp add: no_queue_inv(2))
qed

text \<open>C14: The pointer loops end.  On any queue the search for the last node returns it, appending returns
  with a queue that is longer by the new packet, and freeing returns; it frees every data block and every
  node except the last one, which stays allocated.\<close>

theorem pkt_queue_loops_end:
  assumes "queue_at h q cs" "cs \<noteq> []" "\<And>n. alloc n" "n \<le> length payload"
  shows "pkt_queue_last h q = Some (Inr (Addr (fst (last cs)))) \<and>
    (\<exists>h' q'. pkt_queue_append alloc now h q src dst payload n = Some (Inr (h', q')) \<and>
       queue_at h' q' (cs @ [(brk h, new_item now src dst payload n)])) \<and>
    (\<exists>h'. pkt_queue_free h q = Some (Inr h') \<and> (\<forall>a \<in> fst ` set cs. blocks h' (Suc a) = None) \<and>
       dom (nodes h') = dom (nodes h) - fst ` set (butlast cs))"
proof (intro conjI)
  obtain bs l x where "cs = bs @ [(l, x)]" using assms(2) by (cases cs rule: rev_cases) auto
  then show "pkt_queue_last h q = Some (Inr (Addr (fst (last cs))))"
    using queue_last [of h q bs l x] assms(1) by simp
  show "\<exists>h' q'. pkt_queue_append alloc now h q src dst payload n = Some (Inr (h', q')) \<and>
       queue_at h' q' (cs @ [(brk h, new_item now src dst payload n)])"
    by (rule append_queue [OF assms(1,3,4)])
  show "\<exists>h'. pkt_queue_free h q = Some (Inr h') \<and> (\<forall>a \<in> fst ` set cs. blocks h' (Suc a) = None) \<and>
       dom (nodes h') = dom (nodes h) - fst ` set (butlast cs)"
    using free_queue [OF assms(1)] by auto
qed

definition one_packet :: "heap \<times> ptr" where
  "one_packet =
     (let x = \<lparr>it_time = 5, it_source = 1, it_dest = 2, it_data = [0x41]\<rparr>
      in (\<lparr>nodes = [1 \<mapsto> cell x 1 NULL NULL], blocks = [2 \<mapsto> [0x41, 0]], brk = 3\<rparr>, Addr 1))"

lemma one_packet_at:
  "queue_at (fst one_packet) (snd one_packet) [(1, \<lparr>it_time = 5, it_source = 1, it_dest = 2, it_data = [0x41]\<rparr>)]"
  by (simp add: one_packet_def queue_at_def fresh_above_def Let_def)

theorem pkt_queue_loops_end_witness:
  "pkt_queue_last (fst one_packet) (snd one_packet) = Some (Inr (Addr 1)) \<and>
   (\<exists>h'. pkt_queue_free (fst one_packet) (snd one_packet) = Some (Inr h') \<and> blocks h' (Suc 1) = None)"
  using pkt_queue_loops_end [OF one_packet_at, of "\<lambda>_. True" 0 "[]" 0 0 0] by auto

text \<open>Counting is wrong.  The length and the size of an empty queue are right; for a queue with one
  packet both functions dereference a null pointer, and for any longer queue they give the values for a
  queue of one packet.\<close>

theorem pkt_queue_counts:
  assumes "queue_at h q cs"
  shows "pkt_queue_length h q = (if cs = [] then Inr 0 else if length cs = 1 then Inl Null_pointer else Inr 1) \<and>
    pkt_queue_size h q = (if cs = [] then Inr 0 else if length cs = 1 then Inl Null_pointer
      else Inr (node_size + length (it_data (snd (hd cs)))))"
proof (cases cs)
  case Nil
  then show ?thesis using assms by (simp add: queue_at_def pkt_queue_length_def pkt_queue_size_def)
next
  case (Cons c ds)
  obtain a x where "c = (a, x)" by (cases c)
  then have "q = Addr a" "nodes h a = Some (cell x a (first ds NULL) NULL)" "c = (a, x)"
    using assms Cons by (simp_all add: queue_at_def)
  then show ?thesis using Cons by (cases ds) (auto simp: pkt_queue_length_def pkt_queue_size_def)
qed

theorem pkt_queue_counts_witness:
  "pkt_queue_length (fst one_packet) (snd one_packet) = Inl Null_pointer \<and>
   pkt_queue_size (fst one_packet) (snd one_packet) = Inl Null_pointer"
  using pkt_queue_counts [OF one_packet_at] by simp

section \<open>The first packet goes out\<close>

definition packet_of :: "item \<Rightarrow> packet" where
  "packet_of x = \<lparr>pm_protocol = MSG_PROTOCOL_UDP, pm_input_port = it_source x, pm_output_port = it_dest x,
     pm_data = it_data x\<rparr>"

definition wf_item :: "item \<Rightarrow> bool" where
  "wf_item x \<longleftrightarrow> it_data x \<noteq> [] \<and> length (it_data x) \<le> 49149"

text \<open>The send buffer keeps a null character at its end, and only its first character can open a message.\<close>

definition sendbuf_ok :: "string \<Rightarrow> bool" where
  "sendbuf_ok b \<longleftrightarrow> length b = SENDBUF_SIZE \<and> NUL \<in> set (drop 69999 b) \<and> START_OF_HEADER \<notin> set (tl b)"

text \<open>What is left in the buffer behind a message, up to the first null character.\<close>

definition stale :: "string \<Rightarrow> packet \<Rightarrow> string" where
  "stale b p = takeWhile (\<lambda>c. c \<noteq> NUL) (drop (length (packet_text p)) b)"

lemma wf_packet_of: "wf_item x \<Longrightarrow> wf_packet (packet_of x)"
  by (simp add: wf_item_def wf_packet_def packet_of_def)

lemma packet_text_bound: "wf_packet p \<Longrightarrow> length (packet_text p) \<le> 65554"
proof -
  assume "wf_packet p"
  then have "length (packet_text p) = 4 * ((length (pm_data p) + 2) div 3) + 22" "length (pm_data p) \<le> 49149"
    using packet_frame_facts(2) by (simp_all add: text_len_def wf_packet_def)
  moreover have "(length (pm_data p) + 2) div 3 \<le> 49151 div 3" using calculation(2) by (intro div_le_mono) simp
  ultimately show ?thesis by simp
qed

lemma drop_tl_pos: "0 < n \<Longrightarrow> drop n xs = drop (n - 1) (tl xs)"
  by (cases n) (simp_all add: drop_Suc)

lemma c_strlen_eq: "NUL \<in> set b \<Longrightarrow> c_strlen b = Inr (length (takeWhile (\<lambda>c. c \<noteq> NUL) b))"
proof -
  assume "NUL \<in> set b"
  then obtain n where n: "find_index (\<lambda>c. c = NUL) b = Some n"
    by (cases "find_index (\<lambda>c. c = NUL) b") auto
  then have "n < length b" "b ! n = NUL" "\<forall>c \<in> set (take n b). c \<noteq> NUL" using find_index_SomeD by blast+
  then have "length (takeWhile (\<lambda>c. c \<noteq> NUL) b) = n"
    by (intro length_takeWhile_less_P_nth takeWhile_eq_take_P_nth [THEN arg_cong [of _ _ length], THEN trans]) 
      (auto simp: in_set_conv_nth)
  then show ?thesis using n by (simp add: c_strlen_def)
qed

lemma stale_no_header: "sendbuf_ok b \<Longrightarrow> wf_packet p \<Longrightarrow> START_OF_HEADER \<notin> set (stale b p)"
proof -
  assume "sendbuf_ok b" "wf_packet p"
  then have "START_OF_HEADER \<notin> set (tl b)" "0 < length (packet_text p)"
    using packet_frame_facts(2) by (simp_all add: sendbuf_ok_def)
  moreover have "drop (length (packet_text p)) b = drop (length (packet_text p) - 1) (tl b)"
    using calculation(2) by (rule drop_tl_pos)
  ultimately show ?thesis by (auto simp: stale_def dest: set_takeWhileD in_set_dropD)
qed

lemma sendbuf_after:
  assumes "sendbuf_ok b" "wf_packet p"
  defines "b' \<equiv> packet_text p @ drop (length (packet_text p)) b"
  shows "sendbuf_ok b'" "c_strlen b' = Inr (length (packet_text p @ stale b p))"
    "take (length (packet_text p @ stale b p)) b' = packet_text p @ stale b p"
    "NUL \<in> set (drop (length (packet_text p)) b)"
proof -
  let ?t = "packet_text p"
  have len: "length ?t \<le> 65554" "length b = 70000" "NUL \<in> set (drop 69999 b)"
    using packet_text_bound [OF assms(2)] assms(1) by (simp_all add: sendbuf_ok_def SENDBUF_SIZE_def)
  have dd: "drop 69999 b' = drop 69999 b" using len by (simp add: b'_def)
  have "drop 69999 b = drop (69999 - length ?t) (drop (length ?t) b)" using len(1) by simp
  then show nul: "NUL \<in> set (drop (length ?t) b)" using len(3) in_set_dropD by metis
  note facts = packet_frame_facts [OF assms(2)]
  have "tl b' = tl ?t @ drop (length ?t) b" using facts(2) by (cases ?t) (simp_all add: b'_def)
  moreover have "drop (length ?t) b = drop (length ?t - 1) (tl b)" using facts(2) by (intro drop_tl_pos) simp
  moreover have "tl ?t = tl (packet_frame p) @ CRLF" using facts(3) by (metis append_Cons list.sel(3) packet_text_def)
  ultimately have "START_OF_HEADER \<notin> set (tl b')"
    using facts(4,5) assms(1) by (auto simp: sendbuf_ok_def dest: in_set_dropD)
  then show "sendbuf_ok b'" using len dd by (simp add: sendbuf_ok_def SENDBUF_SIZE_def b'_def)
  have tw: "takeWhile (\<lambda>c. c \<noteq> NUL) b' = ?t @ stale b p"
    unfolding b'_def stale_def using facts(6) by (intro takeWhile_append2) auto
  have "NUL \<in> set b'" using nul by (simp add: b'_def)
  then show "c_strlen b' = Inr (length (?t @ stale b p))" using c_strlen_eq [of b'] tw by simp
  show "take (length (?t @ stale b p)) b' = ?t @ stale b p"
    using takeWhile_eq_take [of "\<lambda>c. c \<noteq> NUL" b'] unfolding tw by (rule sym)
qed

lemma throttle_open:
  assumes "0 < sp_baud_rate sp" "it_time x < now" "(now - it_time x) * 1000000 * sp_baud_rate sp < 2 ^ 63"
    "wf_item x"
  shows "throttled now (cell x a nx pv) (Some sp) = Inr False"
proof -
  define d where "d = now - it_time x"
  define m where "m = d * 1000000"
  define k where "k = m * sp_baud_rate sp"
  have "1 \<le> d" using assms(2) by (simp add: d_def)
  then have m: "1000000 \<le> m" "d \<le> m" by (simp_all add: m_def)
  moreover have "m \<le> k" using m(1) assms(1) by (simp add: k_def)
  moreover have "k < 2 ^ 63" using assms(3) by (simp add: k_def m_def d_def)
  ultimately have "int64 d = Inr d" "int64 m = Inr m" "int64 k = Inr k" "1000000 \<le> k"
    using \<open>1 \<le> d\<close> by (simp_all add: int64_def)
  moreover have "pkt_estimated_string_length (cell x a nx pv) \<le> 65600"
  proof -
    have "length (it_data x) * 4 div 3 \<le> 196600 div 3" using assms(4) by (intro div_le_mono) (simp add: wf_item_def)
    then show ?thesis by (simp add: pkt_estimated_string_length_def)
  qed
  ultimately show ?thesis by (simp add: throttled_def flip: d_def m_def k_def)
qed

lemma throttle_shut:
  assumes "it_time x \<le> now" "sp_baud_rate sp \<le> 0 \<or> it_time x = now"
  shows "throttled now (cell x a nx pv) (Some sp) \<in> {Inr True, Inl Signed_overflow}"
proof -
  have "(now - it_time x) * 1000000 * sp_baud_rate sp \<le> 0"
    using assms by (auto simp: mult_nonneg_nonpos)
  moreover have "0 < pkt_estimated_string_length (cell x a nx pv)" by (simp add: pkt_estimated_string_length_def)
  ultimately show ?thesis by (auto simp: throttled_def int64_def)
qed

lemma serial_port_send_cut:
  "l \<le> length b \<Longrightarrow> serial_port_send wr port b l io = serial_port_send wr port (take l b) (length (take l b)) io"
  by (auto simp: serial_port_send_def serial_port_send_linux_def Let_def split: option.split)

lemma serial_port_send_total: "\<exists>io'. serial_port_send wr port t (length t) io = Inr io'"
  by (auto simp: serial_port_send_def serial_port_send_linux_def Let_def split: option.split)

lemma send_queue:
  assumes "queue_at (c_heap s) q ((a, x) # cs)" "wf_item x" "\<And>n. alloc n" "sendbuf_ok (c_sendbuf s)"
    "throttled now (cell x a (first cs NULL) NULL) port = Inr False"
  defines "out \<equiv> packet_text (packet_of x) @ stale (c_sendbuf s) (packet_of x)"
  shows "\<exists>s'. pkt_queue_send alloc wr now s q port = Inr (s', first cs NULL) \<and>
    queue_at (c_heap s') (first cs NULL) cs \<and> sendbuf_ok (c_sendbuf s') \<and>
    serial_port_send wr port out (length out) (c_io s) = Inr (c_io s')"
proof -
  let ?p = "packet_of x" and ?b = "c_sendbuf s"
  let ?b' = "packet_text ?p @ drop (length (packet_text ?p)) ?b"
  note wf = wf_packet_of [OF assms(2)]
  note after = sendbuf_after [OF assms(4) wf]
  have node: "q = Addr a" "nodes (c_heap s) a = Some (cell x a (first cs NULL) NULL)"
    "blocks (c_heap s) (Suc a) = Some (it_data x @ [0])" using assms(1) by (simp_all add: queue_at_def)
  have len: "length (packet_text ?p) \<le> 65554" "length ?b = 70000"
    using packet_text_bound [OF wf] assms(4) by (simp_all add: sendbuf_ok_def SENDBUF_SIZE_def)
  have "send_msg (cell x a (first cs NULL) NULL) (Some (it_data x @ [0])) =
      (msg_of ?p (length (pm_data ?p)) 0)\<lparr>um_data := Some (pm_data ?p @ [0])\<rparr>"
    by (simp add: send_msg_def msg_of_def packet_of_def)
  moreover have "pack_message alloc ((msg_of ?p (length (pm_data ?p)) 0)\<lparr>um_data := Some (pm_data ?p @ [0])\<rparr>) ?b SENDBUF_SIZE =
      Inr (length (packet_text ?p), msg_of ?p (text_len ?p) (packet_crc ?p), ?b')"
    using len by (intro pack_packet [OF wf assms(3) _ _ after(4)]) (simp_all add: SENDBUF_SIZE_def)
  moreover have "length out \<le> length ?b'"
    using after(3) unfolding out_def by (metis length_take min.cobounded1)
  then have "serial_port_send wr port ?b' (length out) io = serial_port_send wr port out (length out) io" for io
    using serial_port_send_cut [of "length out" ?b'] after(3) unfolding out_def by metis
  moreover obtain io' where "serial_port_send wr port out (length out) (c_io s) = Inr io'"
    using serial_port_send_total by blast
  ultimately show ?thesis
    using node assms(5) after(1,2) remove_first_queue [OF assms(1)]
    by (simp add: pkt_queue_send_def data_block_def out_def)
qed

lemma send_to_port:
  assumes "queue_at (c_heap s) q ((a, x) # cs)" "wf_item x" "\<And>n. alloc n" "sendbuf_ok (c_sendbuf s)"
    "0 < sp_baud_rate sp" "it_time x < now" "(now - it_time x) * 1000000 * sp_baud_rate sp < 2 ^ 63"
    "\<And>t. wr t = int (length t)"
  shows "\<exists>s' rest. pkt_queue_send alloc wr now s q (Some sp) = Inr (s', first cs NULL) \<and>
    queue_at (c_heap s') (first cs NULL) cs \<and> sendbuf_ok (c_sendbuf s') \<and>
    tty_out (c_io s') = tty_out (c_io s) @ packet_text (packet_of x) @ rest \<and> START_OF_HEADER \<notin> set rest"
proof -
  let ?p = "packet_of x"
  let ?out = "packet_text ?p @ stale (c_sendbuf s) ?p"
  obtain s' where s': "pkt_queue_send alloc wr now s q (Some sp) = Inr (s', first cs NULL)"
    "queue_at (c_heap s') (first cs NULL) cs" "sendbuf_ok (c_sendbuf s')"
    "serial_port_send wr (Some sp) ?out (length ?out) (c_io s) = Inr (c_io s')"
    using send_queue [where alloc = alloc and wr = wr, OF assms(1-4) throttle_open [OF assms(5-7,2)]] by blast
  have "c_io s' = (c_io s)\<lparr>tty_out := tty_out (c_io s) @ ?out\<rparr>"
    using s'(4) by (simp add: serial_port_send_def serial_port_send_linux_def assms(8) split: if_splits)
  then show ?thesis using s' stale_no_header [OF assms(4) wf_packet_of [OF assms(2)]] by auto
qed

text \<open>Sending.  When the port has a known rate and the clock has moved on since the first packet was
  queued, the packet is sent at once and leaves the queue: what goes to the line begins with the text of
  the packet, and a receiver that is not in the middle of a message takes exactly this packet from it.
  Behind the text the line gets what an earlier, longer message left in the buffer, in which no message
  can begin.\<close>

theorem pkt_queue_send_first:
  assumes "queue_at (c_heap s) q ((a, x) # cs)" "wf_item x" "\<And>n. alloc n" "sendbuf_ok (c_sendbuf s)"
    "0 < sp_baud_rate sp" "it_time x < now" "(now - it_time x) * 1000000 * sp_baud_rate sp < 2 ^ 63"
    "\<And>t. wr t = int (length t)" "START_OF_HEADER \<notin> set junk"
  shows "\<exists>s' rest. pkt_queue_send alloc wr now s q (Some sp) = Inr (s', first cs NULL) \<and>
    queue_at (c_heap s') (first cs NULL) cs \<and> sendbuf_ok (c_sendbuf s') \<and>
    tty_out (c_io s') = tty_out (c_io s) @ packet_text (packet_of x) @ rest \<and> START_OF_HEADER \<notin> set rest \<and>
    next_packet (\<lambda>_. True) (junk @ packet_text (packet_of x) @ rest) = Some (packet_of x, CRLF @ rest)"
proof -
  have "next_packet (\<lambda>_. True) (junk @ packet_text (packet_of x) @ rest) = Some (packet_of x, CRLF @ rest)" for rest
    using next_packet_frame [OF wf_packet_of [OF assms(2)] assms(9), of "CRLF @ rest"] by (simp add: packet_text_def)
  then show ?thesis
    using send_to_port [where alloc = alloc and wr = wr, OF assms(1-8)] by blast
qed

definition fresh_state :: c_state where
  "fresh_state = \<lparr>c_heap = fst one_packet, c_sendbuf = replicate SENDBUF_SIZE NUL, c_io = \<lparr>tty_out = [], std_out = []\<rparr>\<rparr>"

lemma fresh_sendbuf: "sendbuf_ok (replicate SENDBUF_SIZE NUL)"
proof -
  have "START_OF_HEADER \<noteq> NUL" by (simp add: frame_chars NUL_def)
  then show ?thesis by (simp add: sendbuf_ok_def SENDBUF_SIZE_def)
qed

theorem pkt_queue_send_first_witness:
  "\<exists>s' rest x. pkt_queue_send (\<lambda>_. True) (\<lambda>t. int (length t)) 6 fresh_state (Addr 1)
       (Some (zero_port\<lparr>sp_baud_rate := 9600\<rparr>)) = Inr (s', NULL) \<and>
     tty_out (c_io s') = packet_text (packet_of x) @ rest \<and> it_data x = [0x41]"
proof -
  let ?x = "\<lparr>it_time = 5, it_source = 1, it_dest = 2, it_data = [0x41]\<rparr>"
  have "queue_at (c_heap fresh_state) (Addr 1) [(1, ?x)]" "sendbuf_ok (c_sendbuf fresh_state)"
    using one_packet_at fresh_sendbuf by (simp_all add: fresh_state_def one_packet_def)
  from pkt_queue_send_first [OF this(1) _ _ this(2), of "\<lambda>_. True" "zero_port\<lparr>sp_baud_rate := 9600\<rparr>" 6 "\<lambda>t. int (length t)" "[]"]
  obtain s' rest where "pkt_queue_send (\<lambda>_. True) (\<lambda>t. int (length t)) 6 fresh_state (Addr 1)
       (Some (zero_port\<lparr>sp_baud_rate := 9600\<rparr>)) = Inr (s', NULL)"
    "tty_out (c_io s') = packet_text (packet_of ?x) @ rest"
    by (auto simp: wf_item_def fresh_state_def)
  then show ?thesis by (intro exI [of _ s'] exI [of _ rest] exI [of _ ?x]) simp
qed

text \<open>A port of unknown rate sends nothing.  When the rate of the port is zero, or negative because the
  speed of the terminal is not in the table, the first packet is never sent: every call leaves the queue,
  the buffer and the line as they are, or overflows in computing the delay.\<close>

theorem pkt_queue_send_stalls:
  assumes "queue_at (c_heap s) q ((a, x) # cs)" "sp_baud_rate sp \<le> 0" "it_time x \<le> now"
  shows "pkt_queue_send alloc wr now s q (Some sp) \<in> {Inr (s, q), Inl Signed_overflow}"
proof -
  have "q = Addr a" "nodes (c_heap s) a = Some (cell x a (first cs NULL) NULL)"
    using assms(1) by (simp_all add: queue_at_def)
  then show ?thesis
    using throttle_shut [OF assms(3) disjI1 [OF assms(2)], of a "first cs NULL" NULL]
    by (auto simp: pkt_queue_send_def)
qed

theorem pkt_queue_send_stalls_witness:
  "pkt_queue_send (\<lambda>_. True) (\<lambda>t. int (length t)) 6 fresh_state (Addr 1)
     (Some (zero_port\<lparr>sp_baud_rate := speed_to_bps 0x1004\<rparr>)) \<in> {Inr (fresh_state, Addr 1), Inl Signed_overflow}"
proof -
  have "queue_at (c_heap fresh_state) (Addr 1) [(1, \<lparr>it_time = 5, it_source = 1, it_dest = 2, it_data = [0x41]\<rparr>)]"
    using one_packet_at by (simp add: fresh_state_def one_packet_def)
  from pkt_queue_send_stalls [OF this, of "zero_port\<lparr>sp_baud_rate := speed_to_bps 0x1004\<rparr>"]
  show ?thesis by (simp add: speed_to_bps_def)
qed

end
