(* ===== verification/Udp_socket.thy ===== *)
theory Udp_socket
  imports Pkt_queue
begin

text \<open>
  The UDP sockets of the C program, \<^verbatim>\<open>udptoserial/socket.c\<close>, on Linux and, where it differs, on Windows: each socket is a state machine that
  is given its address, created, bound, read from and closed, one attempt per call.  What the system calls
  and the clock return is an argument of each call; the clock is read at the start of a call and again
  after it failed.
\<close>

section \<open>Types\<close>

datatype udp_socket_state =
    UDP_SOCKET_UNINITIALIZED
  | UDP_SOCKET_ADDRESS_ASSIGNED
  | UDP_SOCKET_CREATING
  | UDP_SOCKET_CREATED
  | UDP_SOCKET_BINDING
  | UDP_SOCKET_READY
  | UDP_SOCKET_CLOSING
  | UDP_SOCKET_CLOSED
  | UDP_SOCKET_FAILED

text \<open>The enumerators have the values 0 to 8 in the order of their declaration, which is
  the order a socket goes through them: the states are linearly ordered by their values.\<close>

fun rank :: "udp_socket_state \<Rightarrow> nat" where
  "rank UDP_SOCKET_UNINITIALIZED = 0"
| "rank UDP_SOCKET_ADDRESS_ASSIGNED = 1"
| "rank UDP_SOCKET_CREATING = 2"
| "rank UDP_SOCKET_CREATED = 3"
| "rank UDP_SOCKET_BINDING = 4"
| "rank UDP_SOCKET_READY = 5"
| "rank UDP_SOCKET_CLOSING = 6"
| "rank UDP_SOCKET_CLOSED = 7"
| "rank UDP_SOCKET_FAILED = 8"

lemma rank_inject: "rank s = rank s' \<longleftrightarrow> s = s'"
  by (cases s; cases s'; simp)

instantiation udp_socket_state :: linorder
begin

definition less_eq_udp_socket_state :: "udp_socket_state \<Rightarrow> udp_socket_state \<Rightarrow> bool" where
  "s \<le> s' \<longleftrightarrow> rank s \<le> rank s'"

definition less_udp_socket_state :: "udp_socket_state \<Rightarrow> udp_socket_state \<Rightarrow> bool" where
  "s < s' \<longleftrightarrow> rank s < rank s'"

instance
  by standard (auto simp: less_eq_udp_socket_state_def less_udp_socket_state_def rank_inject)

end

datatype errno = EPROTONOSUPPORT | EACCES | EADDRINUSE | EINTR | EWOULDBLOCK | Other_error

text \<open>The address, with the port and the address in network byte order.\<close>

record sockaddr_in =
  sin_family :: u16
  sin_port :: u16
  sin_addr :: u32

record udp_socket =
  us_state :: udp_socket_state
  us_handle :: int
  us_creation_time :: int
  us_binding_time :: int
  us_closing_time :: int
  us_name :: sockaddr_in

definition zero_socket :: udp_socket where
  "zero_socket = \<lparr>us_state = UDP_SOCKET_UNINITIALIZED, us_handle = 0, us_creation_time = 0, us_binding_time = 0,
     us_closing_time = 0, us_name = \<lparr>sin_family = 0, sin_port = 0, sin_addr = 0\<rparr>\<rparr>"

section \<open>The operations\<close>

definition AF_INET :: u16 where "AF_INET = 2"
definition INADDR_ANY :: u32 where "INADDR_ANY = 0"

definition udp_socket_assign_port :: "u16 \<Rightarrow> udp_socket \<Rightarrow> udp_socket c_result" where
  "udp_socket_assign_port port sock =
     (if us_state sock \<noteq> UDP_SOCKET_UNINITIALIZED then Inl Assertion_failed
      else
        Inr (sock\<lparr>us_name := \<lparr>sin_family = AF_INET, sin_port = htons port, sin_addr = htonl INADDR_ANY\<rparr>,
                  us_state := UDP_SOCKET_ADDRESS_ASSIGNED\<rparr>))"

text \<open>A system call fails with an error number or gives a result.  The first component of what the
  operations return is the return value of the function.\<close>

definition udp_socket_try_create :: "int \<Rightarrow> int \<Rightarrow> errno + int \<Rightarrow> udp_socket \<Rightarrow> int \<times> udp_socket" where
  "udp_socket_try_create t t' res sock =
     (if us_state sock = UDP_SOCKET_CREATING \<and> us_creation_time sock > t then (- 1, sock)
      else
        (let sock = (if us_state sock \<noteq> UDP_SOCKET_CREATING
                     then sock\<lparr>us_state := UDP_SOCKET_CREATING, us_creation_time := t\<rparr> else sock)
         in case res of
              Inl e \<Rightarrow>
                (let sock = sock\<lparr>us_handle := - 1\<rparr>
                 in if e = EPROTONOSUPPORT \<or> e = EACCES then (- 1, sock\<lparr>us_state := UDP_SOCKET_FAILED\<rparr>)
                    else (- 1, sock\<lparr>us_creation_time := t' + 60\<rparr>))
            | Inr fd \<Rightarrow> (0, sock\<lparr>us_handle := fd, us_state := UDP_SOCKET_CREATED\<rparr>)))"

definition udp_socket_try_bind :: "int \<Rightarrow> int \<Rightarrow> errno option \<Rightarrow> udp_socket \<Rightarrow> int \<times> udp_socket" where
  "udp_socket_try_bind t t' res sock =
     (if us_state sock = UDP_SOCKET_BINDING \<and> us_binding_time sock > t then (- 1, sock)
      else
        (let sock = (if us_state sock \<noteq> UDP_SOCKET_BINDING
                     then sock\<lparr>us_state := UDP_SOCKET_BINDING, us_binding_time := t\<rparr> else sock)
         in case res of
              Some e \<Rightarrow>
                if e \<noteq> EADDRINUSE then (- 1, sock\<lparr>us_state := UDP_SOCKET_FAILED\<rparr>)
                else (- 1, sock\<lparr>us_binding_time := t' + 60\<rparr>)
            | None \<Rightarrow> (0, sock\<lparr>us_state := UDP_SOCKET_READY\<rparr>)))"

text \<open>The result of \<open>recvfrom\<close>: an error, or the datagram, of which at most 1500 bytes are taken, and the
  source port in network byte order.  \<open>usec\<close> is the clock of the queue.  The handles closed on the way are
  returned too.\<close>

definition RECV_BUF_SIZE :: nat where "RECV_BUF_SIZE = 1500"

definition udp_socket_msgrecv ::
    "(nat \<Rightarrow> bool) \<Rightarrow> int \<Rightarrow> errno + bytes \<times> u16 \<Rightarrow> udp_socket \<Rightarrow> heap \<Rightarrow> ptr \<Rightarrow>
     (int \<times> udp_socket \<times> int list \<times> heap \<times> ptr) c_run" where
  "udp_socket_msgrecv alloc usec res sock h queue =
     (case res of
        Inl e \<Rightarrow>
          if e \<noteq> EINTR \<and> e \<noteq> EWOULDBLOCK
          then Some (Inr (- 1, sock\<lparr>us_state := UDP_SOCKET_FAILED\<rparr>, [us_handle sock], h, queue))
          else Some (Inr (0, sock, [], h, queue))
      | Inr (datagram, port) \<Rightarrow>
          (let buf = take RECV_BUF_SIZE datagram; bytes_received = length buf
           in if bytes_received > 0 then
                (if bytes_received \<ge> RECV_BUF_SIZE then Some (Inl Out_of_bounds)
                 else
                   run_bind
                     (pkt_queue_append alloc usec h queue (htons port) (htons (sin_port (us_name sock))) buf
                        bytes_received)
                     (\<lambda>(h, queue). Some (Inr (0, sock, [], h, queue))))
              else Some (Inr (0, sock, [], h, queue))))"

definition udp_socket_try_close :: "int \<Rightarrow> int \<Rightarrow> errno option \<Rightarrow> udp_socket \<Rightarrow> int \<times> udp_socket" where
  "udp_socket_try_close t t' res sock =
     (if us_state sock = UDP_SOCKET_CLOSING \<and> us_closing_time sock > t then (- 1, sock)
      else
        (let sock = (if us_state sock \<noteq> UDP_SOCKET_CLOSING
                     then sock\<lparr>us_state := UDP_SOCKET_CLOSING, us_closing_time := t\<rparr> else sock)
         in case res of
              Some e \<Rightarrow>
                if e \<noteq> EINTR then (- 1, sock\<lparr>us_state := UDP_SOCKET_FAILED\<rparr>)
                else (- 1, sock\<lparr>us_closing_time := t' + 60\<rparr>)
            | None \<Rightarrow> (0, sock\<lparr>us_state := UDP_SOCKET_CLOSED, us_handle := - 1\<rparr>)))"

section \<open>On Windows\<close>

text \<open>The socket gets its mode from a second call, whose failure is only printed; the mode asked for is 0.  A failed
  \<open>socket\<close> does not set \<open>errno\<close>, so the error number in \<open>res\<close> is whatever \<open>errno\<close> holds.  The last component is the
  mode asked for: non-blocking or not.\<close>

definition udp_socket_try_create_win32 :: "int \<Rightarrow> int \<Rightarrow> errno + int \<Rightarrow> udp_socket \<Rightarrow> int \<times> udp_socket \<times> bool" where
  "udp_socket_try_create_win32 t t' res sock =
     (let iMode = (0 :: int)
      in if us_state sock = UDP_SOCKET_CREATING \<and> us_creation_time sock > t then (- 1, sock, False)
         else
           (let sock = (if us_state sock \<noteq> UDP_SOCKET_CREATING
                        then sock\<lparr>us_state := UDP_SOCKET_CREATING, us_creation_time := t\<rparr> else sock);
                sock = sock\<lparr>us_handle := (case res of Inl _ \<Rightarrow> - 1 | Inr fd \<Rightarrow> fd)\<rparr>;
                nonblocking = (iMode \<noteq> 0)
            in case res of
                 Inl e \<Rightarrow>
                   (if e = EPROTONOSUPPORT \<or> e = EACCES
                    then (- 1, sock\<lparr>us_state := UDP_SOCKET_FAILED\<rparr>, nonblocking)
                    else (- 1, sock\<lparr>us_creation_time := t' + 60\<rparr>, nonblocking))
               | Inr fd \<Rightarrow> (0, sock\<lparr>us_state := UDP_SOCKET_CREATED\<rparr>, nonblocking)))"

text \<open>\<open>count\<close> is what the system reports as waiting to be read; only if there is something is it read.\<close>

definition udp_socket_msgrecv_win32 ::
    "(nat \<Rightarrow> bool) \<Rightarrow> int \<Rightarrow> nat \<Rightarrow> errno + bytes \<times> u16 \<Rightarrow> udp_socket \<Rightarrow> heap \<Rightarrow> ptr \<Rightarrow>
     (int \<times> udp_socket \<times> int list \<times> heap \<times> ptr) c_run" where
  "udp_socket_msgrecv_win32 alloc usec count res sock h queue =
     (if count > 0 then
        (case res of
           Inl e \<Rightarrow>
             if e \<noteq> EWOULDBLOCK
             then Some (Inr (- 1, sock\<lparr>us_state := UDP_SOCKET_FAILED\<rparr>, [], h, queue))
             else Some (Inr (0, sock, [], h, queue))
         | Inr (datagram, port) \<Rightarrow>
             (let buf = take RECV_BUF_SIZE datagram; bytes_received = length buf
              in if bytes_received > 0 then
                   (if bytes_received \<ge> RECV_BUF_SIZE then Some (Inl Out_of_bounds)
                    else
                      run_bind
                        (pkt_queue_append alloc usec h queue (htons port) (htons (sin_port (us_name sock))) buf
                           bytes_received)
                        (\<lambda>(h, queue). Some (Inr (0, sock, [], h, queue))))
                 else Some (Inr (0, sock, [], h, queue))))
      else Some (Inr (0, sock, [], h, queue)))"

text \<open>The two systems agree.  Creating a socket has the same outcome on both, although on Windows the socket
  is left in blocking mode; and when \<open>count\<close> is the size of what is waiting, receiving has the same outcome,
  whether there is a datagram or nothing.  A read that fails otherwise leaves the handle open on Windows.\<close>

theorem udp_socket_systems_agree:
  "udp_socket_try_create_win32 t t' res sock =
     (case udp_socket_try_create t t' res sock of (ret, sock') \<Rightarrow> (ret, sock', False))"
  "udp_socket_msgrecv_win32 alloc usec (length d) (Inr (d, port)) sock h queue =
     udp_socket_msgrecv alloc usec (Inr (d, port)) sock h queue"
  "udp_socket_msgrecv_win32 alloc usec 0 res' sock h queue =
     udp_socket_msgrecv alloc usec (Inl EWOULDBLOCK) sock h queue"
  "0 < count \<Longrightarrow> udp_socket_msgrecv_win32 alloc usec count (Inl Other_error) sock h queue =
     Some (Inr (- 1, sock\<lparr>us_state := UDP_SOCKET_FAILED\<rparr>, [], h, queue))"
  by (auto simp: udp_socket_try_create_win32_def udp_socket_try_create_def udp_socket_msgrecv_win32_def
      udp_socket_msgrecv_def Let_def split: sum.splits)

section \<open>Boundary cases\<close>

text \<open>A datagram that fills the buffer overruns it by the null character; longer ones are cut to that size.\<close>

lemma full_datagram_overruns:
  "RECV_BUF_SIZE \<le> length d \<Longrightarrow> udp_socket_msgrecv alloc usec (Inr (d, port)) sock h queue = Some (Inl Out_of_bounds)"
  by (auto simp: udp_socket_msgrecv_def RECV_BUF_SIZE_def)

text \<open>A socket that was closed is closed again, and fails.\<close>

lemma closed_again:
  assumes "us_state sock = UDP_SOCKET_CLOSED"
  shows "us_state (snd (udp_socket_try_close t t' (Some Other_error) sock)) = UDP_SOCKET_FAILED"
  using assms by (simp add: udp_socket_try_close_def Let_def)

end
