(* ===== verification/C_main.thy ===== *)
theory C_main
  imports Udp_socket
begin

text \<open>
  The main program of the C version, \<^verbatim>\<open>udptoserial/main.c\<close>: three UDP sockets are serviced in turn, what
  they receive is queued, and one packet of the queue is sent to the serial port per round.  A round gets
  from its environment what the system calls and the clock return during it.
\<close>

section \<open>Startup\<close>

definition UDP_PORT_COUNT :: nat where "UDP_PORT_COUNT = 3"

definition ports :: "u16 list" where "ports = [4000, 42420, 42421]"

text \<open>The globals and the locals of \<open>main\<close>.  \<open>m_closed\<close> collects the handles that were closed.\<close>

record main_state =
  m_sockets :: "udp_socket list"
  m_quitting :: bool
  m_ret :: int
  m_queue :: ptr
  m_port :: "serial_port option"
  m_c :: c_state
  m_closed :: "int list"

definition main_init :: "serial_port option \<Rightarrow> int \<Rightarrow> main_state" where
  "main_init port ret =
     \<lparr>m_sockets = replicate UDP_PORT_COUNT zero_socket, m_quitting = False, m_ret = ret, m_queue = NULL,
      m_port = port,
      m_c = \<lparr>c_heap = fst no_queue, c_sendbuf = replicate SENDBUF_SIZE NUL, c_io = \<lparr>tty_out = [], std_out = []\<rparr>\<rparr>,
      m_closed = []\<rparr>"

definition main_start :: "(nat \<Rightarrow> bool) \<Rightarrow> tty_os \<Rightarrow> int \<Rightarrow> main_state c_result" where
  "main_start alloc os ret =
     c_bind (serial_port_new alloc os (Some ''ttyS1'')) (\<lambda>(port, closed).
     Inr ((main_init port ret)\<lparr>m_closed := closed\<rparr>))"

text \<open>On Windows, where a failed start of WinSock is only printed.\<close>

definition main_start_win32 :: "(nat \<Rightarrow> bool) \<Rightarrow> comm_os \<Rightarrow> int \<Rightarrow> main_state c_result" where
  "main_start_win32 alloc os ret =
     c_bind (serial_port_new_win32 alloc os ''COM3'') (\<lambda>port. Inr (main_init (Some port) ret))"

text \<open>There the rounds are reached, also when the port cannot be opened, with a port of rate zero then.\<close>

lemma main_start_win32_state: "alloc 40 \<Longrightarrow> \<exists>sp. main_start_win32 alloc os ret = Inr (main_init (Some sp) ret)"
proof -
  assume "alloc 40"
  then obtain sp where "serial_port_new_win32 alloc os ''COM3'' = Inr sp"
    unfolding serial_port_new_win32_def Let_def by auto
  then show ?thesis by (auto simp: main_start_win32_def)
qed

lemma main_start_win32_failed:
  assumes "alloc 40" "GetCommState os (CreateFileA os ''COM3'') = None"
  shows "\<exists>s sp. main_start_win32 alloc os ret = Inr s \<and> m_port s = Some sp \<and> sp_baud_rate sp = 0"
  using win32_open_failed [of alloc os "''COM3''"] assms by (auto simp: main_start_win32_def main_init_def)

section \<open>One socket\<close>

text \<open>What one socket meets in a round.\<close>

record sock_env =
  e_time :: int
  e_time' :: int
  e_usec :: int
  e_socket :: "errno + int"
  e_bind :: "errno option"
  e_recv :: "errno + bytes \<times> u16"
  e_close :: "errno option"

text \<open>The \<open>switch\<close>; in the last case \<open>ret\<close> keeps the value of the socket before.\<close>

definition service_socket ::
    "(nat \<Rightarrow> bool) \<Rightarrow> bool \<Rightarrow> u16 \<Rightarrow> sock_env \<Rightarrow> int \<Rightarrow> udp_socket \<Rightarrow> heap \<Rightarrow> ptr \<Rightarrow>
     (int \<times> udp_socket \<times> int list \<times> heap \<times> ptr) c_run" where
  "service_socket alloc quitting port env ret sock h queue =
     (let state = (if quitting then UDP_SOCKET_CLOSING else us_state sock)
      in case state of
           UDP_SOCKET_UNINITIALIZED \<Rightarrow>
             Some (c_bind (udp_socket_assign_port port sock) (\<lambda>sock. Inr (0, sock, [], h, queue)))
         | UDP_SOCKET_ADDRESS_ASSIGNED \<Rightarrow>
             (let (ret, sock) = udp_socket_try_create (e_time env) (e_time' env) (e_socket env) sock
              in Some (Inr (ret, sock, [], h, queue)))
         | UDP_SOCKET_CREATING \<Rightarrow>
             (let (ret, sock) = udp_socket_try_create (e_time env) (e_time' env) (e_socket env) sock
              in Some (Inr (ret, sock, [], h, queue)))
         | UDP_SOCKET_CREATED \<Rightarrow>
             (let (ret, sock) = udp_socket_try_bind (e_time env) (e_time' env) (e_bind env) sock
              in Some (Inr (ret, sock, [], h, queue)))
         | UDP_SOCKET_BINDING \<Rightarrow>
             (let (ret, sock) = udp_socket_try_bind (e_time env) (e_time' env) (e_bind env) sock
              in Some (Inr (ret, sock, [], h, queue)))
         | UDP_SOCKET_READY \<Rightarrow> udp_socket_msgrecv alloc (e_usec env) (e_recv env) sock h queue
         | UDP_SOCKET_CLOSING \<Rightarrow>
             (let (ret, sock) = udp_socket_try_close (e_time env) (e_time' env) (e_close env) sock
              in Some (Inr (ret, sock, [], h, queue)))
         | _ \<Rightarrow> Some (Inr (ret, sock, [], h, queue)))"

section \<open>One round\<close>

fun service_loop ::
    "(nat \<Rightarrow> bool) \<Rightarrow> bool \<Rightarrow> (u16 \<times> sock_env \<times> udp_socket) list \<Rightarrow> int \<Rightarrow> nat \<Rightarrow> heap \<Rightarrow> ptr \<Rightarrow>
     (udp_socket list \<times> int list \<times> int \<times> nat \<times> heap \<times> ptr) c_run" where
  "service_loop alloc quitting [] ret actions h queue = Some (Inr ([], [], ret, actions, h, queue))"
| "service_loop alloc quitting ((port, env, sock) # xs) ret actions h queue =
     run_bind (service_socket alloc quitting port env ret sock h queue) (\<lambda>(ret, sock, closed, h, queue).
     run_bind (service_loop alloc quitting xs ret (if ret = 0 then actions + 1 else actions) h queue)
       (\<lambda>(socks, closeds, ret, actions, h, queue).
       Some (Inr (sock # socks, closed @ closeds, ret, actions, h, queue))))"

record round_env =
  r_socks :: "sock_env list"
  r_usec :: int
  r_write :: "string \<Rightarrow> int"

text \<open>The result also says whether the round ends with a sleep.\<close>

definition main_round :: "(nat \<Rightarrow> bool) \<Rightarrow> round_env \<Rightarrow> main_state \<Rightarrow> (main_state \<times> bool) c_run" where
  "main_round alloc env s =
     run_bind (service_loop alloc (m_quitting s) (zip ports (zip (r_socks env) (m_sockets s))) (m_ret s) 0
         (c_heap (m_c s)) (m_queue s)) (\<lambda>(socks, closed, ret, actions, h, queue).
     let s = s\<lparr>m_sockets := socks, m_ret := ret, m_queue := queue, m_c := (m_c s)\<lparr>c_heap := h\<rparr>,
               m_closed := m_closed s @ closed\<rparr>
     in if queue \<noteq> NULL then
          Some (c_bind (pkt_queue_send alloc (r_write env) (r_usec env) (m_c s) queue (m_port s)) (\<lambda>(c, queue).
            Inr (s\<lparr>m_c := c, m_queue := queue\<rparr>, actions + 1 = 0)))
        else Some (Inr (s, actions = 0)))"

fun main_run :: "(nat \<Rightarrow> bool) \<Rightarrow> round_env list \<Rightarrow> main_state \<Rightarrow> main_state c_run" where
  "main_run alloc [] s = Some (Inr s)"
| "main_run alloc (env # envs) s = run_bind (main_round alloc env s) (\<lambda>(s, _). main_run alloc envs s)"

section \<open>The life of a socket\<close>

text \<open>One service of a socket by the running program, with a system that hands out valid handles.\<close>

definition valid_env :: "sock_env \<Rightarrow> bool" where
  "valid_env env \<longleftrightarrow> (case e_socket env of Inl _ \<Rightarrow> True | Inr fd \<Rightarrow> 0 \<le> fd)"

inductive sock_step :: "u16 \<Rightarrow> udp_socket \<Rightarrow> udp_socket \<Rightarrow> bool" for port where
  serviced: "valid_env env \<Longrightarrow>
    service_socket alloc False port env ret sock h queue = Some (Inr (ret', sock', closed, h', queue')) \<Longrightarrow>
    sock_step port sock sock'"

definition port_name :: "u16 \<Rightarrow> sockaddr_in" where
  "port_name port = \<lparr>sin_family = AF_INET, sin_port = htons port, sin_addr = 0\<rparr>"

definition sock_inv :: "u16 \<Rightarrow> udp_socket \<Rightarrow> bool" where
  "sock_inv port sock \<longleftrightarrow>
     us_state sock \<notin> {UDP_SOCKET_CLOSING, UDP_SOCKET_CLOSED} \<and>
     (us_state sock \<noteq> UDP_SOCKET_UNINITIALIZED \<longrightarrow> us_name sock = port_name port) \<and>
     (us_state sock \<in> {UDP_SOCKET_CREATED, UDP_SOCKET_BINDING, UDP_SOCKET_READY} \<longrightarrow> 0 \<le> us_handle sock)"

lemmas socket_ops = udp_socket_assign_port_def udp_socket_try_create_def udp_socket_try_bind_def
  udp_socket_try_close_def

lemma msgrecv_socket:
  assumes "udp_socket_msgrecv alloc usec res sock h queue = Some (Inr (ret, sock', closed, h', queue'))"
  shows "sock' = sock \<or> sock' = sock\<lparr>us_state := UDP_SOCKET_FAILED\<rparr>"
  using assms
  by (auto simp: udp_socket_msgrecv_def run_bind_def Let_def split: sum.splits if_splits option.splits prod.splits)

lemma service_inv:
  assumes "valid_env env" "sock_inv port sock"
    "service_socket alloc False port env ret sock h queue = Some (Inr (ret', sock', closed, h', queue'))"
  shows "sock_inv port sock'"
proof -
  have "htonl INADDR_ANY = 0" by (simp add: INADDR_ANY_def htonl_def)
  then show ?thesis
    using assms msgrecv_socket
    by (cases "us_state sock")
      (auto simp: service_socket_def socket_ops sock_inv_def port_name_def valid_env_def Let_def
        split: if_splits sum.splits option.splits dest!: msgrecv_socket)
qed

lemma service_rank:
  assumes "sock_inv port sock"
    "service_socket alloc False port env ret sock h queue = Some (Inr (ret', sock', closed, h', queue'))"
  shows "us_state sock \<le> us_state sock'"
  using assms
  by (cases "us_state sock")
    (auto simp: service_socket_def socket_ops sock_inv_def Let_def less_eq_udp_socket_state_def
      split: if_splits sum.splits option.splits dest!: msgrecv_socket)

inductive_cases sock_stepE: "sock_step port sock sock'"

lemma sock_steps_inv:
  assumes "(sock_step port)\<^sup>*\<^sup>* sock sock'" "sock_inv port sock"
  shows "sock_inv port sock' \<and> us_state sock \<le> us_state sock'"
  using assms
proof (induction rule: rtranclp_induct)
  case (step s s')
  then have "sock_inv port s" "us_state sock \<le> us_state s" by simp_all
  moreover from step.hyps(2) obtain env alloc ret h queue ret' closed h' queue' where "valid_env env"
    "service_socket alloc False port env ret s h queue = Some (Inr (ret', s', closed, h', queue'))"
    by (rule sock_stepE)
  ultimately show ?case using service_inv service_rank by (metis order_trans)
qed simp

lemma zero_sock_inv: "sock_inv port zero_socket"
  by (simp add: sock_inv_def zero_socket_def)

text \<open>C24: The life of a socket.  While the program runs, a socket never goes back to an earlier state (in the order of the enumeration), it
  has the address of its port as soon as it is past the first state, and when it is to be bound or read
  from it has a valid handle; it is never closed or closing.\<close>

theorem udp_socket_lifecycle:
  assumes "(sock_step port)\<^sup>*\<^sup>* zero_socket sock" "(sock_step port)\<^sup>*\<^sup>* sock sock'"
  shows "sock_inv port sock \<and> us_state sock \<le> us_state sock'"
  using sock_steps_inv [OF assms(1) zero_sock_inv] sock_steps_inv [OF assms(2)] by blast

definition good_env :: sock_env where
  "good_env = \<lparr>e_time = 100, e_time' = 100, e_usec = 5, e_socket = Inr 4, e_bind = None,
     e_recv = Inr ([0x41], 0x1234), e_close = None\<rparr>"

lemma sock_step_by_env:
  assumes "service_socket (\<lambda>_. True) False port good_env 0 sock (fst no_queue) NULL = Some (Inr (r, sock', c, h, q))"
  shows "sock_step port sock sock'"
  using assms by (rule sock_step.serviced [rotated]) (simp add: valid_env_def good_env_def)

theorem udp_socket_lifecycle_witness:
  "\<exists>sock sock'. (sock_step 4000)\<^sup>*\<^sup>* zero_socket sock \<and> (sock_step 4000)\<^sup>*\<^sup>* sock sock' \<and> us_state sock = UDP_SOCKET_CREATED \<and>
     us_state sock' = UDP_SOCKET_READY \<and> sock_inv 4000 sock \<and> us_state sock \<le> us_state sock'"
proof -
  let ?s1 = "zero_socket\<lparr>us_name := port_name 4000, us_state := UDP_SOCKET_ADDRESS_ASSIGNED\<rparr>"
  let ?s2 = "?s1\<lparr>us_state := UDP_SOCKET_CREATED, us_creation_time := 100, us_handle := 4\<rparr>"
  let ?s3 = "?s2\<lparr>us_state := UDP_SOCKET_READY, us_binding_time := 100\<rparr>"
  have "sock_step 4000 zero_socket ?s1"
    by (rule sock_step_by_env) (simp add: service_socket_def zero_socket_def socket_ops port_name_def INADDR_ANY_def htonl_def)
  moreover have "sock_step 4000 ?s1 ?s2" "sock_step 4000 ?s2 ?s3"
    by (rule sock_step_by_env, simp add: service_socket_def zero_socket_def socket_ops good_env_def Let_def)+
  ultimately have steps: "(sock_step 4000)\<^sup>*\<^sup>* zero_socket ?s2" "(sock_step 4000)\<^sup>*\<^sup>* ?s2 ?s3"
    by (auto intro: rtranclp.rtrancl_into_rtrancl)
  show ?thesis
  proof (rule exI [of _ ?s2], rule exI [of _ ?s3], intro conjI)
    show "(sock_step 4000)\<^sup>*\<^sup>* zero_socket ?s2" "(sock_step 4000)\<^sup>*\<^sup>* ?s2 ?s3" by (rule steps)+
    show "us_state ?s2 = UDP_SOCKET_CREATED" "us_state ?s3 = UDP_SOCKET_READY" by simp_all
    show "sock_inv 4000 ?s2" "us_state ?s2 \<le> us_state ?s3"
      by (rule udp_socket_lifecycle [OF steps, THEN conjunct1], rule udp_socket_lifecycle [OF steps, THEN conjunct2])
  qed
qed

text \<open>C35: Waiting between attempts.  After a failure that may pass, the next attempt to create or bind the
  socket is made no sooner than 60 seconds later: until then every call returns at once and changes
  nothing, and from then on the call asks the system again.\<close>

theorem udp_socket_backoff:
  assumes "e \<notin> {EPROTONOSUPPORT, EACCES}"
    "us_state sock \<in> {UDP_SOCKET_ADDRESS_ASSIGNED, UDP_SOCKET_CREATING}" "us_state sock = UDP_SOCKET_CREATING \<Longrightarrow> us_creation_time sock \<le> t"
    "us_state bsock \<in> {UDP_SOCKET_CREATED, UDP_SOCKET_BINDING}" "us_state bsock = UDP_SOCKET_BINDING \<Longrightarrow> us_binding_time bsock \<le> t"
  shows "\<exists>sock1 bsock1. udp_socket_try_create t t' (Inl e) sock = (- 1, sock1) \<and>
    udp_socket_try_bind t t' (Some EADDRINUSE) bsock = (- 1, bsock1) \<and>
    (\<forall>u u' res. u < t' + 60 \<longrightarrow> udp_socket_try_create u u' res sock1 = (- 1, sock1)) \<and>
    (\<forall>u u' res. u < t' + 60 \<longrightarrow> udp_socket_try_bind u u' res bsock1 = (- 1, bsock1)) \<and>
    (\<forall>u u' fd. t' + 60 \<le> u \<longrightarrow> fst (udp_socket_try_create u u' (Inr fd) sock1) = 0 \<and>
       us_state (snd (udp_socket_try_create u u' (Inr fd) sock1)) = UDP_SOCKET_CREATED) \<and>
    (\<forall>u u'. t' + 60 \<le> u \<longrightarrow> fst (udp_socket_try_bind u u' None bsock1) = 0 \<and>
       us_state (snd (udp_socket_try_bind u u' None bsock1)) = UDP_SOCKET_READY)"
proof -
  obtain sock1 where c: "udp_socket_try_create t t' (Inl e) sock = (- 1, sock1)"
    "us_state sock1 = UDP_SOCKET_CREATING" "us_creation_time sock1 = t' + 60"
    using assms(1-3) by (auto simp: udp_socket_try_create_def Let_def)
  obtain bsock1 where b: "udp_socket_try_bind t t' (Some EADDRINUSE) bsock = (- 1, bsock1)"
    "us_state bsock1 = UDP_SOCKET_BINDING" "us_binding_time bsock1 = t' + 60"
    using assms(4,5) by (auto simp: udp_socket_try_bind_def Let_def)
  have "udp_socket_try_create u u' res sock1 = (- 1, sock1)" "udp_socket_try_bind u u' r bsock1 = (- 1, bsock1)"
    if "u < t' + 60" for u u' res r
    using that b c by (simp_all add: udp_socket_try_create_def udp_socket_try_bind_def)
  moreover have "fst (udp_socket_try_create u u' (Inr fd) sock1) = 0"
    "us_state (snd (udp_socket_try_create u u' (Inr fd) sock1)) = UDP_SOCKET_CREATED"
    "fst (udp_socket_try_bind u u' None bsock1) = 0"
    "us_state (snd (udp_socket_try_bind u u' None bsock1)) = UDP_SOCKET_READY"
    if "t' + 60 \<le> u" for u u' fd
    using that b c by (simp_all add: udp_socket_try_create_def udp_socket_try_bind_def Let_def)
  ultimately show ?thesis using b(1) c(1) by blast
qed

theorem udp_socket_backoff_witness:
  "\<exists>sock1. udp_socket_try_create 100 101 (Inl Other_error) (zero_socket\<lparr>us_state := UDP_SOCKET_ADDRESS_ASSIGNED\<rparr>) = (- 1, sock1) \<and>
     udp_socket_try_create 160 160 (Inr 3) sock1 = (- 1, sock1) \<and>
     us_state (snd (udp_socket_try_create 161 161 (Inr 3) sock1)) = UDP_SOCKET_CREATED"
  using udp_socket_backoff [of Other_error "zero_socket\<lparr>us_state := UDP_SOCKET_ADDRESS_ASSIGNED\<rparr>" 100
      "zero_socket\<lparr>us_state := UDP_SOCKET_CREATED\<rparr>" 101] by auto

section \<open>The rounds\<close>

text \<open>What arrives: the datagram that a socket reads in a round, and the datagrams of a round, the empty ones
  included; these are dropped, the others go to the queue.\<close>

definition arrival :: "u16 \<Rightarrow> sock_env \<Rightarrow> udp_socket \<Rightarrow> item list" where
  "arrival port env sock =
     (case e_recv env of
        Inl _ \<Rightarrow> []
      | Inr (d, src) \<Rightarrow>
          if us_state sock = UDP_SOCKET_READY
          then [\<lparr>it_time = e_usec env, it_source = htons src, it_dest = port, it_data = d\<rparr>] else [])"

definition serviced :: "round_env \<Rightarrow> main_state \<Rightarrow> (u16 \<times> sock_env \<times> udp_socket) list" where
  "serviced env s = zip ports (zip (r_socks env) (m_sockets s))"

definition round_arrivals :: "round_env \<Rightarrow> main_state \<Rightarrow> item list" where
  "round_arrivals env s = concat (map (\<lambda>(port, e, sock). arrival port e sock) (serviced env s))"

definition queued :: "item list \<Rightarrow> item list" where
  "queued = filter (\<lambda>x. it_data x \<noteq> [])"

lemma queued_simps [simp]:
  "queued [] = []" "queued (x # xs) = (if it_data x = [] then queued xs else x # queued xs)"
  "queued (xs @ ys) = queued xs @ queued ys"
  by (simp_all add: queued_def)

text \<open>A datagram fits the buffer when it leaves room for the null character.\<close>

definition env_ok :: "sock_env \<Rightarrow> bool" where
  "env_ok env \<longleftrightarrow> valid_env env \<and>
     (case e_recv env of Inl _ \<Rightarrow> True | Inr (d, _) \<Rightarrow> length d < RECV_BUF_SIZE)"

lemma service_socket_total:
  assumes "env_ok env" "sock_inv port sock" "queue_inv (h, queue)" "\<And>n. alloc n"
  shows "\<exists>ret' sock' closed h' queue'.
    service_socket alloc False port env ret sock h queue = Some (Inr (ret', sock', closed, h', queue')) \<and>
    queue_inv (h', queue') \<and> queue_items (h', queue') = queue_items (h, queue) @ queued (arrival port env sock)"
proof (cases "us_state sock = UDP_SOCKET_READY \<and> queued (arrival port env sock) \<noteq> []")
  case True
  then obtain d src where recv: "e_recv env = Inr (d, src)" "d \<noteq> []" by (auto simp: arrival_def split: sum.splits if_splits)
  have d: "take RECV_BUF_SIZE d = d" "length d < RECV_BUF_SIZE" using assms(1) recv by (simp_all add: env_ok_def)
  have name: "htons (sin_port (us_name sock)) = port" using True assms(2) by (simp add: sock_inv_def port_name_def)
  have at: "queue_at h queue (queue_cells (h, queue))" using assms(3) by (simp add: queue_inv_def)
  obtain h' q' where a: "pkt_queue_append alloc (e_usec env) h queue (htons src) port d (length d) = Some (Inr (h', q'))"
    "queue_at h' q' (queue_cells (h, queue) @ [(brk h, new_item (e_usec env) (htons src) port d (length d))])"
    using append_queue [where alloc = alloc, OF at assms(4), of "length d" d "e_usec env" "htons src" port] by auto
  have "service_socket alloc False port env ret sock h queue = Some (Inr (0, sock, [], h', q'))"
    using True recv d name a(1) by (simp add: service_socket_def udp_socket_msgrecv_def Let_def)
  then show ?thesis
    using queue_invI [OF a(2)] True recv by (simp add: arrival_def new_item_def queue_items_def)
next
  case False
  then have none: "queued (arrival port env sock) = []" by (auto simp: arrival_def split: sum.splits)
  have "\<exists>ret' sock' closed. service_socket alloc False port env ret sock h queue = Some (Inr (ret', sock', closed, h, queue))"
    using assms(2) none
    by (cases "us_state sock")
      (auto simp: service_socket_def sock_inv_def udp_socket_assign_port_def udp_socket_msgrecv_def Let_def arrival_def
        split: sum.splits prod.split if_splits)
  then show ?thesis using none assms(3) by auto
qed

lemma service_loop_total:
  assumes "list_all (\<lambda>(port, env, sock). env_ok env \<and> sock_inv port sock) xs" "queue_inv (h, queue)" "\<And>n. alloc n"
  shows "\<exists>socks closed ret' actions' h' queue'.
    service_loop alloc False xs ret actions h queue = Some (Inr (socks, closed, ret', actions', h', queue')) \<and>
    list_all2 sock_inv (map fst xs) socks \<and> queue_inv (h', queue') \<and>
    queue_items (h', queue') = queue_items (h, queue) @ queued (concat (map (\<lambda>(port, e, sock). arrival port e sock) xs))"
  using assms(1,2)
proof (induction xs arbitrary: ret actions h queue)
  case (Cons x xs)
  obtain port env sock where x: "x = (port, env, sock)" by (cases x)
  have x_ok: "env_ok env" "sock_inv port sock" and xs_ok: "list_all (\<lambda>(port, env, sock). env_ok env \<and> sock_inv port sock) xs"
    using Cons.prems(1) x by simp_all
  obtain ret1 sock1 closed1 h1 queue1 where
    one: "service_socket alloc False port env ret sock h queue = Some (Inr (ret1, sock1, closed1, h1, queue1))"
      "queue_inv (h1, queue1)" "queue_items (h1, queue1) = queue_items (h, queue) @ queued (arrival port env sock)"
    using service_socket_total [where alloc = alloc, OF x_ok Cons.prems(2) assms(3)] by blast
  have "sock_inv port sock1" using service_inv [OF _ x_ok(2) one(1)] x_ok(1) by (simp add: env_ok_def)
  moreover obtain socks closed ret' actions' h' queue' where
    "service_loop alloc False xs ret1 (if ret1 = 0 then actions + 1 else actions) h1 queue1 =
       Some (Inr (socks, closed, ret', actions', h', queue'))"
    "list_all2 sock_inv (map fst xs) socks" "queue_inv (h', queue')"
    "queue_items (h', queue') = queue_items (h1, queue1) @ queued (concat (map (\<lambda>(port, e, sock). arrival port e sock) xs))"
    using Cons.IH [OF xs_ok one(2)] by blast
  ultimately show ?case using one(1,3) x by simp
qed simp

text \<open>The state between rounds.\<close>

definition main_queue :: "main_state \<Rightarrow> item list" where
  "main_queue s = queue_items (c_heap (m_c s), m_queue s)"

definition main_inv :: "main_state \<Rightarrow> bool" where
  "main_inv s \<longleftrightarrow> \<not> m_quitting s \<and> list_all2 sock_inv ports (m_sockets s) \<and>
     queue_inv (c_heap (m_c s), m_queue s) \<and> list_all wf_item (main_queue s) \<and> sendbuf_ok (c_sendbuf (m_c s))"

text \<open>What a round is assumed to meet: valid answers of the system, a line that takes all it is given, and
  packets whose time is not so far from the clock, before it or after, that the computation of the delay
  overflows.\<close>

definition age_ok :: "serial_port \<Rightarrow> int \<Rightarrow> item \<Rightarrow> bool" where
  "age_ok sp now x \<longleftrightarrow> \<bar>now - it_time x\<bar> * 1000000 * sp_baud_rate sp < 2 ^ 63"

definition round_ok :: "serial_port \<Rightarrow> round_env \<Rightarrow> main_state \<Rightarrow> bool" where
  "round_ok sp env s \<longleftrightarrow>
     length (r_socks env) = UDP_PORT_COUNT \<and> list_all env_ok (r_socks env) \<and> (\<forall>t. r_write env t = int (length t)) \<and>
     list_all (age_ok sp (r_usec env)) (main_queue s @ queued (round_arrivals env s))"

text \<open>A line that carries these packets and nothing else that a receiver would take for one.\<close>

definition line_carries :: "string \<Rightarrow> packet list \<Rightarrow> bool" where
  "line_carries out ps \<longleftrightarrow>
     (\<exists>jms rest. out = concat (map (\<lambda>(j, m). j @ packet_frame m) jms) @ rest \<and> map snd jms = ps \<and>
        list_all (\<lambda>(j, m). START_OF_HEADER \<notin> set j \<and> wf_packet m) jms \<and> START_OF_HEADER \<notin> set rest)"

lemma line_carries_Nil: "line_carries [] []"
  unfolding line_carries_def by (intro exI [of _ "[]"]) simp

lemma line_carries_snoc:
  assumes "line_carries out ps" "wf_packet p" "START_OF_HEADER \<notin> set junk"
  shows "line_carries (out @ packet_text p @ junk) (ps @ [p])"
proof -
  obtain jms rest where "out = concat (map (\<lambda>(j, m). j @ packet_frame m) jms) @ rest" "map snd jms = ps"
    "list_all (\<lambda>(j, m). START_OF_HEADER \<notin> set j \<and> wf_packet m) jms" "START_OF_HEADER \<notin> set rest"
    using assms(1) by (auto simp: line_carries_def)
  then show ?thesis
    unfolding line_carries_def using assms(2,3) packet_frame_facts(5) [OF assms(2)]
    by (intro exI [of _ "jms @ [(rest, p)]"] exI [of _ "CRLF @ junk"]) (simp add: packet_text_def)
qed

lemma next_packet_none: "START_OF_HEADER \<notin> set s \<Longrightarrow> next_packet (\<lambda>_. True) s = None"
proof (cases "s = []")
  case False
  assume "START_OF_HEADER \<notin> set s"
  then have "takeWhile (\<lambda>d. d \<noteq> START_OF_HEADER) s = s" by (intro takeWhile_eq_all_conv [THEN iffD2]) auto
  then have "scan_for START_OF_HEADER s 0 (length s) = length s"
    by (simp add: scan_for_eq del: takeWhile_eq_all_conv)
  then show ?thesis using False by (simp add: next_packet_def unpack_message_def blank_msg_def)
qed (simp add: next_packet_def unpack_message_def)

lemma pops_more: "pops pop n s = (xs, s') \<Longrightarrow> length xs = n \<Longrightarrow> pop s' = None \<Longrightarrow> n \<le> k \<Longrightarrow> pops pop k s = (xs, s')"
proof (induction n arbitrary: s xs k)
  case 0
  then show ?case by (cases k) simp_all
next
  case (Suc n)
  obtain x s1 where x: "pop s = Some (x, s1)" using Suc.prems(1,2) by (cases "pop s") auto
  obtain ys where ys: "pops pop n s1 = (ys, s')" "xs = x # ys"
    using Suc.prems(1) x by (cases "pops pop n s1") simp
  obtain k' where k: "k = Suc k'" "n \<le> k'" using Suc.prems(4) by (cases k) auto
  show ?case using Suc.IH [OF ys(1) _ Suc.prems(3) k(2)] Suc.prems(2) ys(2) x k(1) by simp
qed

lemma line_carries_received:
  assumes "line_carries out ps" "length ps \<le> k"
  shows "fst (pops (next_packet (\<lambda>_. True)) k out) = ps"
proof -
  obtain jms rest where out: "out = concat (map (\<lambda>(j, m). j @ packet_frame m) jms) @ rest" "map snd jms = ps"
    "list_all (\<lambda>(j, m). START_OF_HEADER \<notin> set j \<and> wf_packet m) jms" "START_OF_HEADER \<notin> set rest"
    using assms(1) by (auto simp: line_carries_def)
  then have "pops (next_packet (\<lambda>_. True)) (length jms) out = (ps, rest)"
    using text_frames.decode_stream [of jms rest] by simp
  then show ?thesis
    using pops_more [of "next_packet (\<lambda>_. True)" "length jms" out ps rest k] next_packet_none [OF out(4)] assms(2) out(2)
    by auto
qed

lemma arrival_wf: "env_ok e \<Longrightarrow> list_all wf_item (queued (arrival port e sock))"
  by (auto simp: arrival_def env_ok_def wf_item_def RECV_BUF_SIZE_def split: sum.splits)

lemma arrivals_wf:
  assumes "list_all (\<lambda>(port, env, sock). env_ok env \<and> sock_inv port sock) (serviced env s)"
  shows "list_all wf_item (queued (round_arrivals env s))"
  using assms arrival_wf by (fastforce simp: round_arrivals_def list_all_iff queued_def)

text \<open>The first half of a round services the sockets, the second sends.\<close>

lemma round_services:
  assumes "main_inv s" "round_ok sp env s" "\<And>n. alloc n"
  shows "\<exists>s1 n. main_round alloc env s =
      (if m_queue s1 \<noteq> NULL then
         Some (c_bind (pkt_queue_send alloc (r_write env) (r_usec env) (m_c s1) (m_queue s1) (m_port s1))
           (\<lambda>(c, queue). Inr (s1\<lparr>m_c := c, m_queue := queue\<rparr>, False)))
       else Some (Inr (s1, n = (0 :: nat)))) \<and>
    main_inv s1 \<and> m_port s1 = m_port s \<and> main_queue s1 = main_queue s @ queued (round_arrivals env s) \<and>
    c_io (m_c s1) = c_io (m_c s)"
proof -
  let ?items = "main_queue s @ queued (round_arrivals env s)"
  have inv: "\<not> m_quitting s" "list_all2 sock_inv ports (m_sockets s)" "queue_inv (c_heap (m_c s), m_queue s)"
    "list_all wf_item (main_queue s)" "sendbuf_ok (c_sendbuf (m_c s))" using assms(1) by (simp_all add: main_inv_def)
  have env: "length (r_socks env) = 3" "list_all env_ok (r_socks env)"
    using assms(2) by (simp_all add: round_ok_def UDP_PORT_COUNT_def)
  have len: "length (m_sockets s) = 3" using inv(2) by (auto dest: list_all2_lengthD simp: ports_def)
  have ok: "list_all (\<lambda>(port, env, sock). env_ok env \<and> sock_inv port sock) (serviced env s)"
    using env inv(2) len by (auto simp: list_all_length list_all2_conv_all_nth serviced_def ports_def)
  have fsts: "map fst (serviced env s) = ports" using env(1) len by (simp add: serviced_def ports_def)
  obtain socks closed ret actions h queue where
    loop: "service_loop alloc False (serviced env s) (m_ret s) 0 (c_heap (m_c s)) (m_queue s) =
        Some (Inr (socks, closed, ret, actions, h, queue))"
      "list_all2 sock_inv ports socks" "queue_inv (h, queue)" "queue_items (h, queue) = ?items"
    using service_loop_total [where alloc = alloc, OF ok inv(3) assms(3)]
    unfolding fsts main_queue_def round_arrivals_def by blast
  let ?s = "s\<lparr>m_sockets := socks, m_ret := ret, m_queue := queue, m_c := (m_c s)\<lparr>c_heap := h\<rparr>,
    m_closed := m_closed s @ closed\<rparr>"
  have "main_inv ?s" "main_queue ?s = ?items"
    using inv loop arrivals_wf [OF ok] by (simp_all add: main_inv_def main_queue_def)
  then show ?thesis
    using loop(1) inv(1)
    by (intro exI [of _ ?s] exI [of _ actions]) (simp add: main_round_def serviced_def Let_def)
qed

text \<open>A packet that is not older than the clock has to wait.\<close>

lemma throttle_early:
  assumes "0 < sp_baud_rate sp" "now \<le> it_time x" "\<bar>now - it_time x\<bar> * 1000000 * sp_baud_rate sp < 2 ^ 63"
  shows "throttled now (cell x a nx pv) (Some sp) = Inr True"
proof -
  define d where "d = it_time x - now"
  have d: "0 \<le> d" "now - it_time x = - d" using assms(2) by (simp_all add: d_def)
  have "d * 1000000 * 1 \<le> d * 1000000 * sp_baud_rate sp" by (rule mult_left_mono) (use assms(1) d(1) in simp_all)
  moreover have "d * 1000000 * sp_baud_rate sp < 2 ^ 63" using assms(3) d by simp
  moreover have "0 < pkt_estimated_string_length (cell x a nx pv)" by (simp add: pkt_estimated_string_length_def)
  ultimately show ?thesis using d by (simp add: throttled_def int64_def)
qed

lemma round_sends:
  assumes "main_inv s" "main_queue s = x # xs" "age_ok sp now x" "m_port s = Some sp" "0 < sp_baud_rate sp"
    "\<And>n. alloc n" "\<And>t. wr t = int (length t)" "line_carries (tty_out (c_io (m_c s))) ps"
  shows "\<exists>c q. pkt_queue_send alloc wr now (m_c s) (m_queue s) (m_port s) = Inr (c, q) \<and>
    main_inv (s\<lparr>m_c := c, m_queue := q\<rparr>) \<and>
    (if it_time x < now
     then main_queue (s\<lparr>m_c := c, m_queue := q\<rparr>) = xs \<and> line_carries (tty_out (c_io c)) (ps @ [packet_of x])
     else c = m_c s \<and> q = m_queue s)"
proof -
  have "queue_items (c_heap (m_c s), m_queue s) = x # xs" using assms(2) by (simp add: main_queue_def)
  then obtain a cs where cs: "queue_cells (c_heap (m_c s), m_queue s) = (a, x) # cs" "map snd cs = xs"
    by (auto simp: queue_items_def)
  have at: "queue_at (c_heap (m_c s)) (m_queue s) ((a, x) # cs)"
    using assms(1) cs(1) by (simp add: main_inv_def queue_inv_def)
  have x: "wf_item x" "sendbuf_ok (c_sendbuf (m_c s))" using assms(1,2) by (simp_all add: main_inv_def)
  show ?thesis
  proof (cases "it_time x < now")
    case True
    have age: "(now - it_time x) * 1000000 * sp_baud_rate sp < 2 ^ 63" using assms(3) True unfolding age_ok_def by simp
    obtain c rest where c: "pkt_queue_send alloc wr now (m_c s) (m_queue s) (Some sp) = Inr (c, first cs NULL)"
      "queue_at (c_heap c) (first cs NULL) cs" "sendbuf_ok (c_sendbuf c)"
      "tty_out (c_io c) = tty_out (c_io (m_c s)) @ packet_text (packet_of x) @ rest" "START_OF_HEADER \<notin> set rest"
      using send_to_port [where alloc = alloc and wr = wr, OF at x(1) assms(6) x(2) assms(5) True age assms(7)] by blast
    have "line_carries (tty_out (c_io c)) (ps @ [packet_of x])"
      unfolding c(4) by (rule line_carries_snoc [OF assms(8) wf_packet_of [OF x(1)] c(5)])
    then show ?thesis
      using c queue_invI [OF c(2)] True assms(1,2,4) cs(2) by (auto simp: main_inv_def main_queue_def)
  next
    case False
    have "throttled now (cell x a (first cs NULL) NULL) (Some sp) = Inr True"
      using throttle_early assms(3,5) False by (simp add: age_ok_def)
    then have "pkt_queue_send alloc wr now (m_c s) (m_queue s) (m_port s) = Inr (m_c s, m_queue s)"
      using at assms(4) by (simp add: queue_at_def pkt_queue_send_def)
    then show ?thesis using assms(1) False by simp
  qed
qed

lemma queue_NULL:
  assumes "queue_inv (h, q)"
  shows "q = NULL \<longleftrightarrow> queue_items (h, q) = []"
proof -
  have "q = first (queue_cells (h, q)) NULL" using assms by (simp add: queue_inv_def queue_at_def)
  then show ?thesis unfolding queue_items_def by (metis first_NULL map_is_Nil_conv)
qed

text \<open>One round: what was queued and what arrived is what was sent and what is queued, and the line carries
  what was sent.\<close>

lemma main_round_total:
  assumes "main_inv s" "round_ok sp env s" "m_port s = Some sp" "0 < sp_baud_rate sp" "\<And>n. alloc n"
    "line_carries (tty_out (c_io (m_c s))) ps"
  shows "\<exists>s' slept sent. main_round alloc env s = Some (Inr (s', slept)) \<and> main_inv s' \<and> m_port s' = Some sp \<and>
    main_queue s @ queued (round_arrivals env s) = sent @ main_queue s' \<and>
    line_carries (tty_out (c_io (m_c s'))) (ps @ map packet_of sent) \<and>
    (main_queue s @ queued (round_arrivals env s) \<noteq> [] \<and>
      it_time (hd (main_queue s @ queued (round_arrivals env s))) < r_usec env \<longrightarrow> sent \<noteq> [])"
proof -
  let ?items = "main_queue s @ queued (round_arrivals env s)"
  obtain s1 and n :: nat where s1: "main_round alloc env s =
      (if m_queue s1 \<noteq> NULL then
         Some (c_bind (pkt_queue_send alloc (r_write env) (r_usec env) (m_c s1) (m_queue s1) (m_port s1))
           (\<lambda>(c, queue). Inr (s1\<lparr>m_c := c, m_queue := queue\<rparr>, False)))
       else Some (Inr (s1, n = 0)))"
    "main_inv s1" "m_port s1 = m_port s" "main_queue s1 = ?items" "c_io (m_c s1) = c_io (m_c s)"
    using round_services [where alloc = alloc, OF assms(1,2,5)] by blast
  have null: "m_queue s1 = NULL \<longleftrightarrow> ?items = []"
    using queue_NULL s1(2,4) unfolding main_inv_def main_queue_def by metis
  show ?thesis
  proof (cases ?items)
    case Nil
    then show ?thesis using s1 null assms(3,6) by (intro exI [of _ s1] exI [of _ "n = 0"] exI [of _ "[]"]) simp
  next
    case (Cons x xs)
    have env: "age_ok sp (r_usec env) x" "\<And>t. r_write env t = int (length t)"
      using assms(2) Cons by (simp_all add: round_ok_def flip: list_all_append)
    have "main_queue s1 = x # xs" "m_port s1 = Some sp" "line_carries (tty_out (c_io (m_c s1))) ps"
      using s1(3-5) Cons assms(3,6) by simp_all
    from round_sends [where alloc = alloc and wr = "r_write env", OF s1(2) this(1) env(1) this(2) assms(4,5) env(2) this(3)]
    obtain c q where cq: "pkt_queue_send alloc (r_write env) (r_usec env) (m_c s1) (m_queue s1) (m_port s1) = Inr (c, q)"
      "main_inv (s1\<lparr>m_c := c, m_queue := q\<rparr>)"
      "if it_time x < r_usec env
       then main_queue (s1\<lparr>m_c := c, m_queue := q\<rparr>) = xs \<and> line_carries (tty_out (c_io c)) (ps @ [packet_of x])
       else c = m_c s1 \<and> q = m_queue s1" by blast
    have "main_round alloc env s = Some (Inr (s1\<lparr>m_c := c, m_queue := q\<rparr>, False))" using s1(1) null Cons cq(1) by simp
    then show ?thesis
      using cq(2,3) s1(3-5) assms(3,6) Cons
      by (intro exI [of _ "s1\<lparr>m_c := c, m_queue := q\<rparr>"] exI [of _ False]
          exI [of _ "if it_time x < r_usec env then [x] else []"]) (auto split: if_splits)
  qed
qed

section \<open>The whole run\<close>

fun run_ok :: "serial_port \<Rightarrow> (nat \<Rightarrow> bool) \<Rightarrow> round_env list \<Rightarrow> main_state \<Rightarrow> bool" where
  "run_ok sp alloc [] s \<longleftrightarrow> True"
| "run_ok sp alloc (env # envs) s \<longleftrightarrow>
     round_ok sp env s \<and>
     (case main_round alloc env s of Some (Inr (s', _)) \<Rightarrow> run_ok sp alloc envs s' | _ \<Rightarrow> True)"

fun run_arrivals :: "(nat \<Rightarrow> bool) \<Rightarrow> round_env list \<Rightarrow> main_state \<Rightarrow> item list" where
  "run_arrivals alloc [] s = []"
| "run_arrivals alloc (env # envs) s =
     round_arrivals env s @
     (case main_round alloc env s of Some (Inr (s', _)) \<Rightarrow> run_arrivals alloc envs s' | _ \<Rightarrow> [])"

lemma main_run_total:
  assumes "main_inv s" "run_ok sp alloc envs s" "m_port s = Some sp" "0 < sp_baud_rate sp" "\<And>n. alloc n"
    "line_carries (tty_out (c_io (m_c s))) ps"
  shows "\<exists>s' sent. main_run alloc envs s = Some (Inr s') \<and> main_inv s' \<and>
    main_queue s @ queued (run_arrivals alloc envs s) = sent @ main_queue s' \<and>
    line_carries (tty_out (c_io (m_c s'))) (ps @ map packet_of sent)"
  using assms(1-3,6)
proof (induction envs arbitrary: s ps)
  case Nil
  then show ?case by (intro exI [of _ s] exI [of _ "[]"]) simp
next
  case (Cons env envs)
  have ok: "round_ok sp env s" using Cons.prems(2) by simp
  obtain s1 slept sent where s1: "main_round alloc env s = Some (Inr (s1, slept))" "main_inv s1" "m_port s1 = Some sp"
    "main_queue s @ queued (round_arrivals env s) = sent @ main_queue s1"
    "line_carries (tty_out (c_io (m_c s1))) (ps @ map packet_of sent)"
    using main_round_total [where alloc = alloc, OF Cons.prems(1) ok Cons.prems(3) assms(4,5) Cons.prems(4)] by blast
  then obtain s' sent' where "main_run alloc envs s1 = Some (Inr s')" "main_inv s'"
    "main_queue s1 @ queued (run_arrivals alloc envs s1) = sent' @ main_queue s'"
    "line_carries (tty_out (c_io (m_c s'))) ((ps @ map packet_of sent) @ map packet_of sent')"
    using Cons.IH [OF s1(2) _ s1(3,5)] Cons.prems(2) by auto
  moreover have "main_queue s @ queued (run_arrivals alloc (env # envs) s) =
      sent @ main_queue s1 @ queued (run_arrivals alloc envs s1)"
    using s1(1,4) by (simp flip: append_assoc)
  ultimately show ?case
    using s1(1) by (intro exI [of _ s'] exI [of _ "sent @ sent'"]) simp
qed

lemma main_init_inv:
  "main_inv (main_init port ret)" "main_queue (main_init port ret) = []" "m_port (main_init port ret) = port"
  "tty_out (c_io (m_c (main_init port ret))) = []"
  using no_queue_inv fresh_sendbuf zero_sock_inv
  by (simp_all add: main_inv_def main_init_def main_queue_def no_queue_def ports_def UDP_PORT_COUNT_def numeral_3_eq_3)

text \<open>C2: From the sockets to the far end of the line.  Take any well-formed state between two rounds of a
  program that has its port, such as the one \<open>main\<close> sets up, and any answers of the system and the clock, which
  may also be set back.  The program keeps running, and after any number of rounds the packets that were
  queued at first and the datagrams read since, in the order in which the rounds read them and without the
  empty ones, which the code drops, are those that were sent on the line followed by those in the queue: no
  other datagram is lost, duplicated or reordered, although \<^verbatim>\<open>throttle.c\<close> says that packets that do not fit
  are dropped.  A receiver that reads the line takes from it exactly the packets it carried before and those
  that were sent, with their ports and data.  Assumed are handles that are not negative, datagrams of less
  than 1500 bytes, allocations that succeed, a port of positive rate that takes every byte it is given, and
  packets whose time is not so far from the clock that the computation of the delay overflows.  (On Linux
  \<open>main\<close> does not get to its first round: opening the port reads past the end of its name.)\<close>

theorem c_bridge_conserves:
  assumes "main_inv s" "run_ok sp alloc envs s" "m_port s = Some sp" "0 < sp_baud_rate sp" "\<And>n. alloc n"
    "line_carries (tty_out (c_io (m_c s))) ps"
  shows "\<exists>s' sent. main_run alloc envs s = Some (Inr s') \<and>
    main_queue s @ queued (run_arrivals alloc envs s) = sent @ main_queue s' \<and>
    (\<forall>k \<ge> length ps + length sent.
       fst (pops (next_packet (\<lambda>_. True)) k (tty_out (c_io (m_c s')))) = ps @ map packet_of sent)"
  using main_run_total [where alloc = alloc, OF assms] line_carries_received by fastforce

lemma quiet_arrivals:
  assumes "list_all (\<lambda>e. e_recv e = Inl EWOULDBLOCK) (r_socks env)"
  shows "round_arrivals env s = []"
proof -
  have "arrival port e sock = []" if "(port, e, sock) \<in> set (serviced env s)" for port e sock
  proof -
    have "e \<in> set (r_socks env)" using that unfolding serviced_def by (meson set_zip_leftD set_zip_rightD)
    then show ?thesis using assms by (simp add: list_all_iff arrival_def)
  qed
  then show ?thesis by (auto simp: round_arrivals_def)
qed

text \<open>Four rounds in which the sockets are set up and the first one gets a datagram.\<close>

definition quiet_env :: sock_env where "quiet_env = good_env\<lparr>e_recv := Inl EWOULDBLOCK\<rparr>"

definition quiet_round :: round_env where
  "quiet_round = \<lparr>r_socks = [quiet_env, quiet_env, quiet_env], r_usec = 6, r_write = (\<lambda>t. int (length t))\<rparr>"

definition demo_rounds :: "round_env list" where
  "demo_rounds = [quiet_round, quiet_round, quiet_round, quiet_round\<lparr>r_socks := [good_env, quiet_env, quiet_env]\<rparr>]"

definition demo_socket :: "nat \<Rightarrow> u16 \<Rightarrow> udp_socket" where
  "demo_socket k port =
     (if k = 0 then zero_socket
      else if k = 1 then zero_socket\<lparr>us_name := port_name port, us_state := UDP_SOCKET_ADDRESS_ASSIGNED\<rparr>
      else if k = 2 then zero_socket\<lparr>us_name := port_name port, us_state := UDP_SOCKET_CREATED,
             us_creation_time := 100, us_handle := 4\<rparr>
      else zero_socket\<lparr>us_name := port_name port, us_state := UDP_SOCKET_READY,
             us_creation_time := 100, us_handle := 4, us_binding_time := 100\<rparr>)"

definition demo_state :: "serial_port \<Rightarrow> nat \<Rightarrow> main_state" where
  "demo_state sp k = (main_init (Some sp) 0)\<lparr>m_sockets := map (demo_socket k) ports\<rparr>"

lemma demo_service:
  "k < 3 \<Longrightarrow> service_socket alloc False port quiet_env ret (demo_socket k port) h queue =
     Some (Inr (0, demo_socket (Suc k) port, [], h, queue))"
  by (auto simp: less_Suc_eq numeral_3_eq_3 service_socket_def demo_socket_def zero_socket_def socket_ops port_name_def
      quiet_env_def good_env_def Let_def INADDR_ANY_def htonl_def)

lemma demo_round: "k < 3 \<Longrightarrow> main_round alloc quiet_round (demo_state sp k) = Some (Inr (demo_state sp (Suc k), False))"
  by (simp add: main_round_def quiet_round_def demo_state_def ports_def main_init_def demo_service)

lemma demo_queue: "main_queue (demo_state sp k) = []" "round_arrivals quiet_round s = []"
proof -
  show "main_queue (demo_state sp k) = []"
    using main_init_inv(2) [of "Some sp" 0] by (simp add: main_queue_def demo_state_def)
  show "round_arrivals quiet_round s = []"
    by (rule quiet_arrivals) (simp add: quiet_round_def quiet_env_def)
qed

lemma demo_last:
  "round_arrivals (quiet_round\<lparr>r_socks := [good_env, quiet_env, quiet_env]\<rparr>) (demo_state sp 3) =
     [\<lparr>it_time = 5, it_source = htons 0x1234, it_dest = 4000, it_data = [0x41]\<rparr>]"
  by (simp add: round_arrivals_def serviced_def demo_state_def ports_def good_env_def quiet_env_def arrival_def
      demo_socket_def zero_socket_def)

lemma demo_run:
  fixes sp :: serial_port
  assumes "sp_baud_rate sp = 9600"
  shows "run_ok sp alloc demo_rounds (main_init (Some sp) 0)"
    "run_arrivals alloc demo_rounds (main_init (Some sp) 0) =
       [\<lparr>it_time = 5, it_source = htons 0x1234, it_dest = 4000, it_data = [0x41]\<rparr>]"
proof -
  have init: "main_init (Some sp) 0 = demo_state sp 0"
    by (simp add: demo_state_def main_init_def demo_socket_def ports_def UDP_PORT_COUNT_def numeral_3_eq_3)
  have steps: "main_round alloc quiet_round (demo_state sp 0) = Some (Inr (demo_state sp (Suc 0), False))"
    "main_round alloc quiet_round (demo_state sp (Suc 0)) = Some (Inr (demo_state sp 2, False))"
    "main_round alloc quiet_round (demo_state sp 2) = Some (Inr (demo_state sp 3, False))"
    using demo_round [of 0 alloc sp] demo_round [of "Suc 0" alloc sp] demo_round [of 2 alloc sp]
    by (simp_all add: numeral_2_eq_2 numeral_3_eq_3)
  have env: "env_ok good_env" "env_ok quiet_env"
    by (simp_all add: env_ok_def valid_env_def good_env_def quiet_env_def RECV_BUF_SIZE_def)
  then have quiet: "round_ok sp quiet_round (demo_state sp k)" for k
    by (simp add: round_ok_def demo_queue) (simp add: quiet_round_def UDP_PORT_COUNT_def)
  have last: "round_ok sp (quiet_round\<lparr>r_socks := [good_env, quiet_env, quiet_env]\<rparr>) (demo_state sp 3)"
    using env assms
    by (simp add: round_ok_def demo_queue demo_last) (simp add: quiet_round_def UDP_PORT_COUNT_def age_ok_def)
  show "run_ok sp alloc demo_rounds (main_init (Some sp) 0)"
    unfolding init using steps quiet last
    by (simp add: demo_rounds_def split: option.split sum.split)
  show "run_arrivals alloc demo_rounds (main_init (Some sp) 0) =
       [\<lparr>it_time = 5, it_source = htons 0x1234, it_dest = 4000, it_data = [0x41]\<rparr>]"
    unfolding init using steps demo_last
    by (simp add: demo_rounds_def demo_queue split: option.split sum.split)
qed

theorem c_bridge_conserves_witness:
  "\<exists>s sent x. main_run (\<lambda>_. True) demo_rounds (main_init (Some (zero_port\<lparr>sp_baud_rate := 9600\<rparr>)) 0) = Some (Inr s) \<and>
     [x] = sent @ main_queue s \<and> it_data x = [0x41] \<and> it_dest x = 4000"
proof -
  define sp where "sp = zero_port\<lparr>sp_baud_rate := 9600\<rparr>"
  have rate: "sp_baud_rate sp = 9600" by (simp add: sp_def)
  obtain s sent where "main_run (\<lambda>_. True) demo_rounds (main_init (Some sp) 0) = Some (Inr s)"
    "[\<lparr>it_time = 5, it_source = htons 0x1234, it_dest = 4000, it_data = [0x41]\<rparr>] = sent @ main_queue s"
    using c_bridge_conserves [OF main_init_inv(1) demo_run(1) [OF rate, of "\<lambda>_. True"] main_init_inv(3), of "[]"] rate
    unfolding demo_run(2) [OF rate, of "\<lambda>_. True"] by (auto simp: main_init_inv line_carries_Nil)
  then show ?thesis
    unfolding sp_def
    by (intro exI [of _ s] exI [of _ sent] exI [of _ "\<lparr>it_time = 5, it_source = htons 0x1234, it_dest = 4000, it_data = [0x41]\<rparr>"]) simp
qed



text \<open>A round in which nothing arrives and the clock has moved on since these packets were queued.\<close>

definition quiet_ok :: "serial_port \<Rightarrow> item list \<Rightarrow> round_env \<Rightarrow> bool" where
  "quiet_ok sp xs env \<longleftrightarrow>
     length (r_socks env) = UDP_PORT_COUNT \<and>
     list_all (\<lambda>e. valid_env e \<and> e_recv e = Inl EWOULDBLOCK) (r_socks env) \<and> (\<forall>t. r_write env t = int (length t)) \<and>
     list_all (\<lambda>x. it_time x < r_usec env \<and> age_ok sp (r_usec env) x) xs"

lemma quiet_round_ok:
  assumes "quiet_ok sp xs env" "set (main_queue s) \<subseteq> set xs"
  shows "round_ok sp env s" "round_arrivals env s = []"
proof -
  show none: "round_arrivals env s = []"
    using assms(1) by (intro quiet_arrivals) (auto simp: quiet_ok_def list_all_iff)
  show "round_ok sp env s"
    using assms none by (auto simp: round_ok_def quiet_ok_def list_all_iff env_ok_def)
qed

lemma quiet_ok_subset: "quiet_ok sp xs env \<Longrightarrow> set ys \<subseteq> set xs \<Longrightarrow> quiet_ok sp ys env"
  by (auto simp: quiet_ok_def list_all_iff)

text \<open>C23: The queue drains.  Take rounds in which no datagram arrives, the clock is past the time of every
  packet in the queue but not so far that the computation of the delay overflows, every write takes all bytes
  and the port has a positive rate (at rate 0 or -1 nothing is ever sent).  Then every round sends one packet,
  so that after as many rounds as there are packets the queue is empty and the line has carried all of them, in
  order.  The rate of the port plays no further part: one microsecond of waiting is enough for any packet,
  whatever \<^verbatim>\<open>throttle.c\<close> says of draining at the rate of the port.\<close>

theorem c_bridge_drains:
  assumes "main_inv s" "m_port s = Some sp" "0 < sp_baud_rate sp" "\<And>n. alloc n"
    "line_carries (tty_out (c_io (m_c s))) ps" "length (main_queue s) \<le> length envs"
    "list_all (quiet_ok sp (main_queue s)) envs"
  shows "\<exists>s'. main_run alloc envs s = Some (Inr s') \<and> main_queue s' = [] \<and>
    line_carries (tty_out (c_io (m_c s'))) (ps @ map packet_of (main_queue s))"
  using assms(1,2,5-7)
proof (induction envs arbitrary: s ps)
  case Nil
  then show ?case by simp
next
  case (Cons env envs)
  have quiet: "quiet_ok sp (main_queue s) env" using Cons.prems(5) by simp
  note ok = quiet_round_ok [OF quiet order_refl]
  obtain s1 slept sent where s1: "main_round alloc env s = Some (Inr (s1, slept))" "main_inv s1" "m_port s1 = Some sp"
    "main_queue s @ queued (round_arrivals env s) = sent @ main_queue s1"
    "line_carries (tty_out (c_io (m_c s1))) (ps @ map packet_of sent)"
    "main_queue s @ queued (round_arrivals env s) \<noteq> [] \<and>
      it_time (hd (main_queue s @ queued (round_arrivals env s))) < r_usec env \<longrightarrow> sent \<noteq> []"
    using main_round_total [where alloc = alloc, OF Cons.prems(1) ok(1) Cons.prems(2) assms(3,4) Cons.prems(3)] by blast
  have q: "main_queue s = sent @ main_queue s1" using s1(4) ok(2) by simp
  have "sent \<noteq> []" if "main_queue s \<noteq> []" using s1(6) ok(2) quiet that by (simp add: quiet_ok_def list_all_iff)
  then have len: "length (main_queue s1) \<le> length envs"
    using q Cons.prems(4) by (cases "main_queue s = []"; cases sent) auto
  have "list_all (quiet_ok sp (main_queue s1)) envs"
    using Cons.prems(5) q quiet_ok_subset by (fastforce simp: list_all_iff)
  from Cons.IH [OF s1(2,3,5) len this] show ?case using s1(1) q by auto
qed

definition one_queued :: "serial_port \<Rightarrow> main_state" where
  "one_queued sp = (main_init (Some sp) 0)\<lparr>m_queue := snd one_packet, m_c := fresh_state\<rparr>"

theorem c_bridge_drains_witness:
  "\<exists>s' x. main_run (\<lambda>_. True) [quiet_round] (one_queued (zero_port\<lparr>sp_baud_rate := 9600\<rparr>)) = Some (Inr s') \<and>
     main_queue s' = [] \<and> line_carries (tty_out (c_io (m_c s'))) [packet_of x] \<and> it_data x = [0x41]"
proof -
  define sp where "sp = zero_port\<lparr>sp_baud_rate := 9600\<rparr>"
  let ?x = "\<lparr>it_time = 5, it_source = 1, it_dest = 2, it_data = [0x41]\<rparr>"
  have q: "queue_inv (c_heap (m_c (one_queued sp)), m_queue (one_queued sp))" "main_queue (one_queued sp) = [?x]"
    using queue_invI [OF one_packet_at] by (simp_all add: one_queued_def fresh_state_def main_queue_def)
  then have inv: "main_inv (one_queued sp)"
    using main_init_inv(1) [of "Some sp" 0] fresh_sendbuf
    by (simp add: main_inv_def one_queued_def fresh_state_def wf_item_def)
  have io: "m_port (one_queued sp) = Some sp" "tty_out (c_io (m_c (one_queued sp))) = []" "0 < sp_baud_rate sp"
    by (simp_all add: one_queued_def fresh_state_def main_init_def sp_def)
  have "list_all (quiet_ok sp (main_queue (one_queued sp))) [quiet_round]"
    using q(2) by (simp add: quiet_ok_def quiet_round_def UDP_PORT_COUNT_def quiet_env_def good_env_def valid_env_def
        age_ok_def sp_def)
  then obtain s' where "main_run (\<lambda>_. True) [quiet_round] (one_queued sp) = Some (Inr s')" "main_queue s' = []"
    "line_carries (tty_out (c_io (m_c s'))) [packet_of ?x]"
    using c_bridge_drains [OF inv io(1,3), of "\<lambda>_. True" "[]" "[quiet_round]"] io(2) line_carries_Nil q(2) by auto
  then show ?thesis unfolding sp_def by (intro exI [of _ s'] exI [of _ ?x]) simp
qed

text \<open>The program does not get as far as this: it asks for the port by the bare name of the device.\<close>

lemma main_start_undefined: "(\<And>n. alloc n) \<Longrightarrow> main_start alloc os ret = Inl Out_of_bounds"
proof -
  assume alloc: "\<And>n. alloc n"
  have "device_name ''ttyS1''" by (simp add: device_name_def isdigit_def)
  moreover have "NUL \<notin> set ''ttyS1''" by (simp add: NUL_def)
  ultimately have "c_bind (make_full_port_name_linux alloc (Some ''ttyS1'')) (open_name os) = Inl Out_of_bounds"
    using open_name_result [of alloc "''ttyS1''" os] alloc by simp
  then show ?thesis
    by (simp add: main_start_def serial_port_new_def serial_port_new_linux_def alloc full_port_name)
qed

end
