(* ===== verification/Spec2Isabelle.thy ===== *)
theory Spec2Isabelle
  imports Hd_demo Hd_fault Iso1745 Tcp_client_handler Generic_server Shared_line Echo_server Serial_reader Overlapped_port Poll_main Test_vectors C_main
begin

text \<open>
  A verification of \<^verbatim>\<open>udptoserial\<close>, a program that carries the traffic of TCP and UDP ports over a serial
  line between two machines.

  \<^bold>\<open>The program.\<close>  The repository holds three generations of it.

  The present program: \<^verbatim>\<open>main\<close> (\<^verbatim>\<open>src/udptoserial/main.cpp\<close>) reads an INI file (\<^verbatim>\<open>Configuration.cpp\<close>,
  \<^verbatim>\<open>ini.cpp\<close>), opens the serial port and listens on the configured ports.  Each accepted connection has a
  handler (\<^verbatim>\<open>Tcp_server_handler.cpp\<close>) that wraps what it reads in IP and TCP headers (\<^verbatim>\<open>libhorizr/ip.cpp\<close>, with
  a second copy in \<^verbatim>\<open>udptoserial/IPv4.cpp\<close>), frames the packet with SLIP (\<^verbatim>\<open>libhorizr/slip.cpp\<close>) and writes it
  to the serial port.  At the other end \<^verbatim>\<open>serial_read_handler\<close> decodes the frames, connects to the
  destination of each packet and sends the payload there.  \<^verbatim>\<open>Server.cpp\<close>, \<^verbatim>\<open>Tcp_client_handler.cpp\<close> and a
  polled path (\<^verbatim>\<open>udp_packet.cpp\<close>, \<^verbatim>\<open>input_queue.cpp\<close>, \<^verbatim>\<open>Udp_ports.cpp\<close>, \<^verbatim>\<open>Serial_port.cpp\<close>) are earlier or
  unfinished parts of it.

  The C program (\<^verbatim>\<open>main.c\<close>, \<^verbatim>\<open>socket.c\<close>, \<^verbatim>\<open>queue.c\<close>, \<^verbatim>\<open>parser.c\<close>, \<^verbatim>\<open>base64.c\<close>, \<^verbatim>\<open>serial.c\<close>): a loop services
  three UDP sockets, queues the datagrams in a linked list and prints them to the serial port as text
  messages with a checksum.

  For radios that cannot send and receive at once there is a separate half-duplex driver after ISO 1745
  (\<^verbatim>\<open>halfduplex/Half_duplex.cpp\<close>, with \<^verbatim>\<open>iso1745.cpp\<close> as its first form).

  \<^bold>\<open>Shared theories.\<close>
  \<^item> \<open>Prelude\<close>: the widths of the C++ integers as words, little-endian stores, index searches, and the
    collections \<open>frame_simps\<close> and \<open>layout_simps\<close>.
  \<^item> \<open>C_lang\<close>: the errors of a C program as values (\<open>c_error\<close>), results and computations that may not
    return (\<open>c_result\<close>, \<open>c_run\<close>), hexadecimal text and \<open>strlen\<close>.
  \<^item> \<open>Fifo\<close>: the locale \<open>fifo\<close>, the contract of the queues (what is pushed comes out once and in order),
    interpreted on the half-duplex input and output queues, on the sending queue of a TCP handler
    and of a client handler (through \<open>fifo_pullback\<close>, as a copy of the former), on the sending chain of the serial
    port and on the linked list of the C program.
  \<^item> \<open>Framing\<close>: the locale \<open>framing\<close>, the contract of a message format on a byte stream (a stream of messages
    is taken apart into these messages), interpreted on the ISO 1745 messages and on the text messages.

  \<^bold>\<open>The present program.\<close>
  \<^item> \<open>Slip\<close>: \<open>slip_decode\<close> with its two loops, \<open>slip_encode\<close>, \<open>bytevector_compare\<close>.  A reference
    decoder (\<open>slip_decode_ref\<close>, by \<open>frame_len\<close> and \<open>unstuff\<close>) is proved equal to the loops; round trip,
    strictness, stability under later bytes, the meaning of the returned count.
  \<^item> \<open>Ip\<close>, \<open>IPv4\<close>: header structures and their bytes, classification, checksums, header builders with
    every error; the two copies are equivalent, and both satisfy the locale \<open>tcp_header_builder\<close>, through
    which the TCP handler and the serial port use them.
  \<^item> \<open>Tcp_server_handler\<close>: one connection; the packets written, queued and posted are those sent, the
    queue drains, a failed write stalls it, what happens to white space.
  \<^item> \<open>Serial_bridge\<close>: the globals of \<^verbatim>\<open>main.cpp\<close> as a record, the serial and accept handlers and the
    set-up with its exceptions; delivery end to end, the backlog of the receiver, runt frames, a \<open>send\<close> that throws
    or takes a part, a set-up that fails, listening.
  \<^item> \<open>Bridge_stream\<close>: the frames of many connections as one stream, cut into reads anywhere; what is sent
    on is the data of the first packets, each on its own connection, and all of it on a slow line, as long as
    every \<open>send\<close> takes all of its data.
  \<^item> \<open>Shared_line\<close>: one side as a whole, a step relation in which accepts, reads, strands and the parts of the writes
    of all connections interleave.  Each connection's bytes go out in order (invariant by rule induction); when
    writes do not overlap, the other side sends on a first part of what was received from each client, white space
    aside, the line goes quiet within a bounded number of steps, and then all of it has been sent on but what is
    still in the client's input buffer; when writes overlap, clients can get mixed up.  A run ends where the program
    would: at a word for which the headers cannot be built, or an exception.
  \<^item> \<open>Serial_port\<close>, \<open>Win32_port\<close>: the polled byte queues of \<^verbatim>\<open>serial_port_tick\<close> and the sending chain; setting
    up the port.  \<open>Serial_reader\<close>: the read handler of the same file, and how it and the sending chain miss each
    other.  \<open>Overlapped_port\<close>: the first version of the polled functions, which the file keeps disabled.
  \<^item> \<open>Tcp_client_handler\<close>, \<open>Generic_server\<close>: the client side of a connection, over a parameter for the sending
    function that is missing, and its disabled earlier form, which does what the server handler does; the
    server class, which never accepts a connection, and its earlier form, which accepts one for each port.
  \<^item> \<open>Ini\<close>, \<open>Configuration\<close>: the parser with the options of \<^verbatim>\<open>ini.h\<close>, and the configuration that results
    from any text, numbers that do not fit included.
  \<^item> \<open>Udp_path\<close>: packets, the input queue and the UDP ports as compiled; and the disabled part of the decoder, which
    reads back what the encoder lays out.
  \<^item> \<open>Poll_main\<close>: the polling loop, disabled in \<^verbatim>\<open>main.cpp\<close>, that puts the polled port, the UDP ports and the
    input queue together; every round ends and nothing is carried.
  \<^item> \<open>Test_vectors\<close>: the unit tests of SLIP, the captured packet of the repository and the trial of the input
    queue, evaluated on the model.  \<open>Echo_server\<close>: the experiment \<^verbatim>\<open>hack/async_udp_echo_server.cpp\<close>.
  \<^item> This theory: \<open>program_start\<close>, from the configuration file to the listening ports.

  \<^bold>\<open>The C program.\<close>
  \<^item> \<open>Base64\<close>: \<^verbatim>\<open>base64.c\<close>; decoding inverts encoding, and neither writes past the block it has allocated.
  \<^item> \<open>Crc16\<close>: the checksum is CRC-16-CCITT in its bit-serial definition, and the change of one character
    changes it.
  \<^item> \<open>Msg_parser\<close>: \<^verbatim>\<open>parser.c\<close>; what is printed is scanned back wherever it stands in the input, the scanner
    is total on 7-bit characters and stays within its input, and no message with a damaged character is accepted.
  \<^item> \<open>Serial_c\<close>: \<^verbatim>\<open>serial.c\<close>; what opening a port by name gives; and the terminal probe at the end of \<^verbatim>\<open>main.c\<close>.
  \<^item> \<open>Pkt_queue\<close>: \<^verbatim>\<open>queue.c\<close> on an explicit heap of nodes and blocks; the list operations refine those on
    lists, the pointer loops end, counting is wrong, what is sent and when nothing is.
  \<^item> \<open>Udp_socket\<close>: \<^verbatim>\<open>socket.c\<close>, the state machine of a socket, on Linux and on Windows, its states ordered by their values (\<open>linorder\<close>).
  \<^item> \<open>C_main\<close>: \<^verbatim>\<open>main.c\<close>; one round as a function of what the system returns.  Invariant of the sockets by
    induction over their steps, waiting after failures, well-formedness of the state, and the result for
    the whole program: what the sockets received, but for empty datagrams, is what a receiver reads from the line
    followed by what is still queued, and the queue drains.

  \<^bold>\<open>The half-duplex driver.\<close>
  \<^item> \<open>Hd_msg\<close>: ISO 1745 messages; printing and the scanner \<open>parse_input\<close> are inverse on well-formed
    messages, partial messages wait, and the inputs that abort the program are exactly characterised.
  \<^item> \<open>Half_duplex\<close>: the station as a record, one definition per handler, the step relation \<open>hd_step\<close> of
    reads, timer expiries and application calls, \<open>hd_reachable\<close> and its invariant; absence of undefined
    behaviour on 7-bit input, order of the queues, bounded retransmission, what a rejected selection does.
  \<^item> \<open>Hd_stream\<close>: reads may cut the stream of messages anywhere.
  \<^item> \<open>Hd_link\<close>: two stations on a line; delivery of every message from the controller, the idle poll,
    and the deadlock of the other direction.
  \<^item> \<open>Hd_fault\<close>: the same line with faults.  On a line that loses messages delivery is in order and at most
    once, an invariant over all interleavings; a lost message can stall the link for good; messages damaged
    beyond recognition are sent again, others are accepted damaged.
  \<^item> \<open>Hd_demo\<close>, \<open>Iso1745\<close>: the program that drives a station; the first form of the protocol, which agrees
    with the later one on the classification of messages and the block check.

  \<^bold>\<open>How state and errors are rendered.\<close>  A class or a group of globals is a record with the fields of the
  source; a mutating method takes and returns it.  Exceptions, \<open>abort()\<close>, failed assertions and undefined
  behaviour (a read or a write outside a vector or a heap block, \<open>front()\<close> of an empty deque, a null, freed
  or unset pointer, signed overflow, a negative character given to \<open>isgraph\<close> or \<open>isxdigit\<close>, an \<open>atoi\<close> of a number
  that does not fit) are values of an error type on the left of a sum.  Integers keep
  their width where they can wrap; sizes and indices below the memory limit are natural numbers.
  Asynchronous operations appear as state: an outstanding read or write, the number of registered timer
  handlers, the list of functions posted to a strand, and what was written.  Structures are laid out as
  on the little-endian 64-bit targets.  Log output is left out.

  \<^bold>\<open>Parameters.\<close>  What the program does not decide is an argument: \<open>split_up\<close>, how the line cuts bytes
  into reads (assumed only to lose and add nothing); \<open>network\<close>, whether a connection succeeds and what becomes of a
  \<open>send\<close>, which may throw and may take a part only; \<open>setup_os\<close>, which calls of the set-up succeed; \<open>win32\<close>,
  \<open>tty_os\<close>, \<open>comm_os\<close> and \<open>win_setup_os\<close>, what the calls of the system report; \<open>alloc\<close>, which allocations
  succeed; \<open>wr\<close>, how much \<open>write\<close> takes; \<open>sock_env\<close> and \<open>round_env\<close>, what the socket calls and the clock
  return in a round, as \<open>poll_env\<close> does for the polling loop; \<open>tcp_send_to\<close>, the missing function
  that takes received packets; \<open>fs\<close>, the files; \<open>create\<close> and \<open>net\<close>, socket creation and received datagrams; \<open>indet\<close>
  and the initial headers, the contents of uninitialised variables, over which the theorems quantify.

  \<^bold>\<open>Loops.\<close>  Loops are total functions by structural recursion or with a measure, so no fuel is used, with
  three exceptions, which are partial functions whose value \<^const>\<open>None\<close> is not returning: the search for the last
  node of a list and the freeing of a list follow pointers and would not end on a cyclic list, and the polling
  loop receives for as long as datagrams give bytes to forward.  That they return is proved, on every queue
  of the program and in every round.  The function \<open>walk\<close>, which reads a queue off the heap
  for the specification, is bounded by the number of addresses handed out, which no queue can exceed.

  \<^bold>\<open>Not modelled.\<close>  Logging and messages to the user, the formatting of system error messages, WinSock start-up.  Of
  what stands under \<open>#if 0\<close> the parts that are complete are modelled; left out are a second copy of the client
  handler's sending chain at the end of \<^verbatim>\<open>Serial_port.cpp\<close>, word for word the one modelled, an \<open>add_serial_port\<close> in
  \<^verbatim>\<open>Server.cpp\<close> that breaks off, a copy of the test packet in \<^verbatim>\<open>IPv4.cpp\<close>, and commented-out functions of
  \<^verbatim>\<open>Half_duplex.cpp\<close> that name a state there no longer is.  Two statements, in \<^verbatim>\<open>main.cpp\<close> and in
  \<^verbatim>\<open>Serial_port.cpp\<close>, that should start a read from a client socket are not C++ and have no counterpart.
  \<^verbatim>\<open>libhorizr/socket.cpp\<close> names an undeclared variable, \<^verbatim>\<open>hdr.h\<close> is a template with placeholders, \<^verbatim>\<open>throttle.c\<close> holds
  a comment only; the trial of the logging library and the camera application are not part of the program.
\<close>

section \<open>From the configuration file to the listening ports\<close>

text \<open>What a configuration says of the serial port and, in the section \<open>udp ports\<close>, of the ports: the first five of
  the entries whose names begin with \<open>port\<close>.\<close>

abbreviation configured :: "(string \<times> (string \<times> string) list) list \<Rightarrow> configuration" where
  "configured cfg \<equiv> config_of (ini_entries cfg)"

definition configured_ports :: "(string \<times> (string \<times> string) list) list \<Rightarrow> u16 list" where
  "configured_ports cfg = take 5 (map (\<lambda>v. word_of_int (atoi_value v)) (port_values (ini_entries cfg)))"

lemma configured_ports: "port_numbers (configured cfg) = configured_ports cfg"
  by (simp add: config_of_def configured_ports_def take_map)

text \<open>\<open>main\<close>: read the configuration, open the serial port, then listen on every port.  What is thrown on the way ends
  the program.\<close>

datatype start_error = Start_config config_error | Start_setup setup_error

definition program_start :: "(string \<rightharpoonup> string) \<Rightarrow> setup_os \<Rightarrow> u32 \<Rightarrow> start_error + bridge" where
  "program_start fs os indet =
     (case Configuration fs ''udptoserial.ini'' of
        Inl e \<Rightarrow> Inl (Start_config e)
      | Inr config \<Rightarrow>
          (case main_setup os indet (serial_port_name config) (baud_rate config) (port_numbers config) of
             Inl e \<Rightarrow> Inl (Start_setup e)
           | Inr g \<Rightarrow> Inr g))"

lemma program_start_result:
  assumes "fs ''udptoserial.ini'' = Some (ini_print cfg)" "wf_ini cfg"
    "list_all fits_int (config_numbers (ini_entries cfg))"
  shows "program_start fs os indet =
    (case main_setup os indet (serial_port_name (configured cfg)) (baud_rate (configured cfg)) (configured_ports cfg) of
       Inl e \<Rightarrow> Inl (Start_setup e)
     | Inr g \<Rightarrow> Inr g)"
proof -
  have "ini_calls (ini_print cfg) = ini_entries cfg"
    using ini_print_parses [OF assms(2), of record_call "[]"] by blast
  then have "Configuration fs ''udptoserial.ini'' = Inr (configured cfg)"
    using assms(1,3) by (simp add: Configuration_eq)
  then show ?thesis by (simp add: program_start_def configured_ports)
qed





text \<open>The runs of one side that \<open>Shared_line\<close> speaks of begin where the start of the program ends.\<close>

lemma runs_from_configuration:
  assumes "fs ''udptoserial.ini'' = Some (ini_print cfg)" "wf_ini cfg"
    "list_all fits_int (config_numbers (ini_entries cfg))" "program_start fs os indet = Inr g"
  shows "line_reach calm (configured_ports cfg) (line_start g ident)"
  using assms(4) unfolding program_start_result [of fs, OF assms(1-3)] line_reach_def by (fastforce split: sum.splits)

end
